(* ===== verification/Prelude.thy ===== *)
theory Prelude
  imports Main "HOL-Library.Word"
begin

text \<open>
  Shared vocabulary of the development: the fixed-width integers and return codes of
  \<^verbatim>\<open>kernel/include/anx/types.h\<close>, and the generic facts on words, lists and
  counted bit sets that the component theories use. The collections
  \<open>page_simps\<close> and \<open>store_simps\<close> are filled by the components.
\<close>

unbundle bit_operations_syntax

named_theorems page_simps \<open>bit-level facts of the page allocator\<close>
named_theorems store_simps \<open>unfolding facts of the stateful stores\<close>

subsection \<open>Fixed-width integers\<close>

type_synonym u8 = "8 word"
type_synonym u16 = "16 word"
type_synonym u32 = "32 word"
type_synonym u64 = "64 word"

subsection \<open>Return codes (types.h): 0 is success, a negative number an error\<close>

abbreviation (input) ANX_OK :: int where "ANX_OK \<equiv> 0"
abbreviation (input) ANX_ENOMEM :: int where "ANX_ENOMEM \<equiv> - 1"
abbreviation (input) ANX_EINVAL :: int where "ANX_EINVAL \<equiv> - 2"
abbreviation (input) ANX_ENOENT :: int where "ANX_ENOENT \<equiv> - 3"
abbreviation (input) ANX_EEXIST :: int where "ANX_EEXIST \<equiv> - 4"
abbreviation (input) ANX_EPERM :: int where "ANX_EPERM \<equiv> - 5"
abbreviation (input) ANX_EIO :: int where "ANX_EIO \<equiv> - 6"
abbreviation (input) ANX_EBUSY :: int where "ANX_EBUSY \<equiv> - 7"
abbreviation (input) ANX_ENODEV :: int where "ANX_ENODEV \<equiv> - 14"
abbreviation (input) ANX_ENOTSUP :: int where "ANX_ENOTSUP \<equiv> - 15"
abbreviation (input) ANX_EFULL :: int where "ANX_EFULL \<equiv> - 13"
abbreviation (input) ANX_ERANGE :: int where "ANX_ERANGE \<equiv> - 18"

subsection \<open>Words\<close>

lemma unat_u64_bound [simp]: "unat (x :: u64) < 18446744073709551616"
  using unsigned_less [of x] by simp

lemma unat_u32_bound [simp]: "unat (x :: u32) < 4294967296"
  using unsigned_less [of x] by simp

lemma unat_of_nat_u64: "n < 2 ^ 64 \<Longrightarrow> unat (of_nat n :: u64) = n"
  by (simp add: unat_of_nat take_bit_nat_eq_self)

lemma unat_of_nat_u32: "n < 2 ^ 32 \<Longrightarrow> unat (of_nat n :: u32) = n"
  by (simp add: unat_of_nat take_bit_nat_eq_self)

lemma unat_add_u64:
  "unat a + unat b < 2 ^ 64 \<Longrightarrow> unat (a + b :: u64) = unat a + unat b"
  by (simp add: unat_word_ariths)

lemma unat_sub_u64:
  "b \<le> a \<Longrightarrow> unat (a - b :: u64) = unat a - unat b"
  by (rule unat_sub)

lemma less_next_multiple: "0 < (k::nat) \<Longrightarrow> i < (i div k + 1) * k"
  using dividend_less_div_times [of k i] by simp

text \<open>A word is nonzero exactly when one of its bits is set.\<close>

lemma word_nonzero_bit: "(w :: u64) \<noteq> 0 \<longleftrightarrow> (\<exists>k<64. bit w k)"
  by (auto simp: bit_eq_iff dest: bit_imp_le_length)

subsection \<open>Little-endian numbers\<close>

fun le_bytes :: "nat \<Rightarrow> nat \<Rightarrow> u8 list" where
  "le_bytes 0 n = []"
| "le_bytes (Suc k) n = of_nat n # le_bytes k (n div 256)"

fun le_value :: "u8 list \<Rightarrow> nat" where
  "le_value [] = 0"
| "le_value (b # bs) = unat b + 256 * le_value bs"

lemma length_le_bytes [simp]: "length (le_bytes k n) = k"
  by (induction k n rule: le_bytes.induct) auto

lemma le_value_le_bytes: "le_value (le_bytes k n) = n mod 256 ^ k"
proof (induction k n rule: le_bytes.induct)
  case (2 k n)
  have "unat (of_nat n :: u8) = n mod 256" by (simp add: unat_of_nat take_bit_eq_mod)
  moreover have "n mod (256 * 256 ^ k) = n mod 256 + 256 * (n div 256 mod 256 ^ k)"
    by (simp add: mod_mult2_eq)
  ultimately show ?case using 2 by simp
qed simp

lemma le_value_append: "le_value (xs @ ys) = le_value xs + 256 ^ length xs * le_value ys"
  by (induction xs) (simp_all add: algebra_simps)

lemma le_value_bound: "le_value bs < 256 ^ length bs"
proof (induction bs)
  case (Cons b bs)
  have "unat b < 256" using unsigned_less [of b] by simp
  then show ?case using Cons by simp
qed simp

lemma le_value_split: "le_value bs = le_value (take n bs) + 256 ^ n * le_value (drop n bs)"
proof (cases "n \<le> length bs")
  case True
  then show ?thesis using le_value_append [of "take n bs" "drop n bs"] by simp
qed simp

lemma le_value_zeros [simp]: "le_value (replicate n 0) = 0"
  by (induction n) auto

lemma le_bytes_le_value: "le_bytes (length bs) (le_value bs) = bs"
proof (induction bs)
  case (Cons b bs)
  have "unat b < 256" using unsigned_less [of b] by simp
  then have "(unat b + 256 * le_value bs) div 256 = le_value bs" by simp
  moreover have "(of_nat (unat b + 256 * le_value bs) :: u8) = b"
    using \<open>unat b < 256\<close> by (simp add: word_unat_eq_iff unat_of_nat take_bit_eq_mod del: of_nat_add of_nat_mult)
  ultimately show ?case using Cons by simp
qed simp

end
