(* ===== verification/PageAlloc.thy ===== *)
theory PageAlloc
  imports Prelude
begin

text \<open>
  The bitmap page allocator of \<^verbatim>\<open>kernel/lib/page.c\<close>. The five static variables
  of the file are the fields of \<open>page_st\<close>; the bitmap is a map from word index to
  64-bit word, so that every bit operation is the source's word operation. Page numbers
  are \<open>nat\<close> (a span has at most 2^20 pages), addresses and counters are 64-bit words.
  A failed \<^verbatim>\<open>ANX_ASSERT\<close> panics: it is the result \<open>None\<close>.
\<close>

subsection \<open>State and bit operations\<close>

record page_st =
  bitmap :: "nat \<Rightarrow> u64"
  heap_base :: u64
  total_pages :: nat
  usable_pages :: u64
  free_count :: u64

definition ANX_PAGE_SIZE :: nat where "ANX_PAGE_SIZE = 4096"

definition ANX_PAGE_SHIFT :: nat where "ANX_PAGE_SHIFT = 12"

definition MAX_PAGES :: nat where "MAX_PAGES = 2 ^ 20"

definition bit_set :: "page_st \<Rightarrow> nat \<Rightarrow> page_st" where
  "bit_set s page = s\<lparr>bitmap := (bitmap s)(page div 64 :=
     bitmap s (page div 64) OR push_bit (page mod 64) 1)\<rparr>"

definition bit_clear :: "page_st \<Rightarrow> nat \<Rightarrow> page_st" where
  "bit_clear s page = s\<lparr>bitmap := (bitmap s)(page div 64 :=
     bitmap s (page div 64) AND NOT (push_bit (page mod 64) 1))\<rparr>"

definition bit_test :: "page_st \<Rightarrow> nat \<Rightarrow> bool" where
  "bit_test s page \<longleftrightarrow> drop_bit (page mod 64) (bitmap s (page div 64)) AND 1 \<noteq> 0"

subsection \<open>Building the span\<close>

definition page_align_up :: "u64 \<Rightarrow> u64" where
  "page_align_up a = (a + of_nat ANX_PAGE_SIZE - 1) AND NOT (of_nat ANX_PAGE_SIZE - 1)"

definition page_align_down :: "u64 \<Rightarrow> u64" where
  "page_align_down a = a AND NOT (of_nat ANX_PAGE_SIZE - 1)"

definition anx_page_init_span :: "u64 \<Rightarrow> u64 \<Rightarrow> page_st option" where
  "anx_page_init_span start0 end0 =
     (let start = page_align_up start0; fin = page_align_down end0 in
      if \<not> fin > start then None
      else Some \<lparr>bitmap = (\<lambda>_. 0), heap_base = start,
        total_pages = min (unat (drop_bit ANX_PAGE_SHIFT (fin - start))) MAX_PAGES,
        usable_pages = 0, free_count = 0\<rparr>)"

definition clip :: "page_st \<Rightarrow> u64 \<Rightarrow> u64 \<Rightarrow> (nat \<times> nat) option" where
  "clip s start0 end0 =
     (let span_end = heap_base s + push_bit ANX_PAGE_SHIFT (of_nat (total_pages s));
          start = max (page_align_up start0) (heap_base s);
          fin = min (page_align_down end0) span_end in
      if fin \<le> start then None
      else Some (unat (drop_bit ANX_PAGE_SHIFT (start - heap_base s)),
                 unat (drop_bit ANX_PAGE_SHIFT (fin - heap_base s))))"

definition add_free_page :: "nat \<Rightarrow> page_st \<Rightarrow> page_st" where
  "add_free_page p s =
     (if bit_test s p then s
      else (bit_set s p)\<lparr>usable_pages := usable_pages s + 1, free_count := free_count s + 1\<rparr>)"

definition anx_page_add_free :: "page_st \<Rightarrow> u64 \<Rightarrow> u64 \<Rightarrow> page_st" where
  "anx_page_add_free s start0 end0 =
     (case clip s start0 end0 of None \<Rightarrow> s
      | Some (first, stop) \<Rightarrow> fold add_free_page [first..<stop] s)"

definition reserve_page :: "nat \<Rightarrow> page_st \<Rightarrow> page_st" where
  "reserve_page p s =
     (if \<not> bit_test s p then s
      else (bit_clear s p)\<lparr>usable_pages := usable_pages s - 1, free_count := free_count s - 1\<rparr>)"

definition anx_page_reserve :: "page_st \<Rightarrow> u64 \<Rightarrow> u64 \<Rightarrow> page_st" where
  "anx_page_reserve s start0 end0 =
     (case clip s start0 end0 of None \<Rightarrow> s
      | Some (first, stop) \<Rightarrow> fold reserve_page [first..<stop] s)"

definition anx_page_init :: "u64 \<Rightarrow> u64 \<Rightarrow> page_st option" where
  "anx_page_init start0 end0 =
     map_option (\<lambda>s. anx_page_add_free s start0 end0) (anx_page_init_span start0 end0)"

subsection \<open>Allocation and release\<close>

definition take_pages :: "page_st \<Rightarrow> nat \<Rightarrow> nat \<Rightarrow> u64 \<times> page_st" where
  "take_pages s first count =
     (heap_base s + push_bit ANX_PAGE_SHIFT (of_nat first),
      (fold (\<lambda>j s. bit_clear s (first + j)) [0..<count] s)
        \<lparr>free_count := free_count s - of_nat count\<rparr>)"

text \<open>The inner loop: how far the run of set bits from \<open>i\<close> reaches, at most \<open>n\<close>.\<close>

fun run_len :: "page_st \<Rightarrow> nat \<Rightarrow> nat \<Rightarrow> nat" where
  "run_len s i 0 = 0"
| "run_len s i (Suc n) = (if bit_test s i then Suc (run_len s (Suc i) n) else 0)"

text \<open>The search from the end of the span, for 16 pages and more.\<close>

function scan_down :: "page_st \<Rightarrow> nat \<Rightarrow> nat \<Rightarrow> nat option" where
  "scan_down s count i =
     (if bitmap s (i div 64) = 0 then
        let w = i div 64 in
        if w = 0 then None
        else let i' = w * 64 - 1 in
          scan_down s count
            (if i' + count > total_pages s then total_pages s - count else i')
      else if run_len s i count = count then Some i
      else if i = 0 then None
      else scan_down s count (i - 1))"
  by pat_completeness auto
termination
proof (relation "measure (\<lambda>(s, count, i). i)", goal_cases)
  case (2 s count i w i')
  then have "i' < i"
    using div_mult_mod_eq [of i 64] by simp
  then show ?case by auto
qed auto

text \<open>The search from the start of the span, for fewer than 16 pages.\<close>

function scan_up :: "page_st \<Rightarrow> nat \<Rightarrow> nat \<Rightarrow> nat option" where
  "scan_up s count i =
     (if i + count \<le> total_pages s then
        if bitmap s (i div 64) = 0 then scan_up s count ((i div 64 + 1) * 64)
        else let j = run_len s i count in
          if j = count then Some i else scan_up s count (i + j + 1)
      else None)"
  by pat_completeness auto
termination
proof (relation "measure (\<lambda>(s, count, i). Suc (total_pages s) - i)", goal_cases)
  case (2 s count i)
  have "i < (i div 64 + 1) * 64" by (rule less_next_multiple) simp
  with 2 show ?case by simp
qed auto

declare scan_down.simps [simp del] scan_up.simps [simp del]

definition anx_page_alloc :: "page_st \<Rightarrow> u32 \<Rightarrow> u64 \<times> page_st" where
  "anx_page_alloc s order =
     (let count = unat (push_bit (unat order) 1 :: u64) in
      if count > unat (free_count s) \<or> count > total_pages s then (0, s)
      else if count \<ge> 16 then
        (case scan_down s count (total_pages s - count) of
           Some i \<Rightarrow> take_pages s i count | None \<Rightarrow> (0, s))
      else
        (case scan_up s count 0 of
           Some i \<Rightarrow> take_pages s i count | None \<Rightarrow> (0, s)))"

text \<open>The release loop asserts that each page is allocated before it marks it free.\<close>

fun free_loop :: "page_st \<Rightarrow> nat \<Rightarrow> nat \<Rightarrow> page_st option" where
  "free_loop s page 0 = Some s"
| "free_loop s page (Suc n) =
     (if bit_test s page then None else free_loop (bit_set s page) (Suc page) n)"

definition anx_page_free :: "page_st \<Rightarrow> u64 \<Rightarrow> u32 \<Rightarrow> page_st option" where
  "anx_page_free s addr order =
     (if \<not> addr \<ge> heap_base s then None
      else if addr AND (of_nat ANX_PAGE_SIZE - 1) \<noteq> 0 then None
      else
        let page = unat (drop_bit ANX_PAGE_SHIFT (addr - heap_base s));
            count = unat (push_bit (unat order) 1 :: u64) in
        if \<not> page + count \<le> total_pages s then None
        else map_option (\<lambda>s'. s'\<lparr>free_count := free_count s + of_nat count\<rparr>)
               (free_loop s page count))"

definition anx_page_stats :: "page_st \<Rightarrow> u64 \<times> u64" where
  "anx_page_stats s = (usable_pages s, free_count s)"


subsection \<open>Bits\<close>

lemma bit_test_iff [page_simps]: "bit_test s p \<longleftrightarrow> bit (bitmap s (p div 64)) (p mod 64)"
  by (simp add: bit_test_def bit_iff_odd_drop_bit and_one_eq mod2_eq_if)

lemma bit_push_one: "k < 64 \<Longrightarrow> bit (2 ^ k :: u64) n \<longleftrightarrow> n = k"
  by (auto simp: bit_exp_iff)

lemma bit_test_bit_set [simp]: "bit_test (bit_set s p) q \<longleftrightarrow> q = p \<or> bit_test s q"
proof (cases "q div 64 = p div 64")
  case True
  then have "q mod 64 = p mod 64 \<longleftrightarrow> q = p"
    by (metis div_mult_mod_eq)
  with True show ?thesis
    by (auto simp: bit_test_iff bit_set_def bit_or_iff bit_push_one)
next
  case False
  then show ?thesis by (auto simp: bit_test_iff bit_set_def)
qed

lemma bit_test_bit_clear [simp]: "bit_test (bit_clear s p) q \<longleftrightarrow> q \<noteq> p \<and> bit_test s q"
proof (cases "q div 64 = p div 64")
  case True
  then have "q mod 64 = p mod 64 \<longleftrightarrow> q = p"
    by (metis div_mult_mod_eq)
  with True show ?thesis
    by (auto simp: bit_test_iff bit_clear_def bit_and_iff bit_not_iff bit_push_one)
next
  case False
  then show ?thesis by (auto simp: bit_test_iff bit_clear_def)
qed

text \<open>The bitmap is determined by the page bits, so states can be compared bit by bit.\<close>

lemma bitmap_eqI:
  assumes "\<And>p. bit_test s p = bit_test t p"
  shows "bitmap s = bitmap t"
proof (rule ext, rule bit_eqI)
  fix w n
  assume "possible_bit TYPE(u64) n"
  then have "n < 64" by simp
  then show "bit (bitmap s w) n = bit (bitmap t w) n"
    using assms [of "64 * w + n"] by (simp add: bit_test_iff)
qed

lemma word_zero_no_page: "bitmap s (p div 64) = 0 \<Longrightarrow> q div 64 = p div 64 \<Longrightarrow> \<not> bit_test s q"
  by (simp add: bit_test_iff)

lemma bit_set_frame [simp]:
  "heap_base (bit_set s p) = heap_base s" "total_pages (bit_set s p) = total_pages s"
  "usable_pages (bit_set s p) = usable_pages s" "free_count (bit_set s p) = free_count s"
  by (simp_all add: bit_set_def)

lemma bit_clear_frame [simp]:
  "heap_base (bit_clear s p) = heap_base s" "total_pages (bit_clear s p) = total_pages s"
  "usable_pages (bit_clear s p) = usable_pages s" "free_count (bit_clear s p) = free_count s"
  by (simp_all add: bit_clear_def)

lemma bit_test_updates [simp]:
  "bit_test (s\<lparr>free_count := c\<rparr>) p = bit_test s p"
  "bit_test (s\<lparr>usable_pages := u\<rparr>) p = bit_test s p"
  by (simp_all add: bit_test_def)

subsection \<open>The searches\<close>

definition free_run :: "page_st \<Rightarrow> nat \<Rightarrow> nat \<Rightarrow> bool" where
  "free_run s i n \<longleftrightarrow> (\<forall>j<n. bit_test s (i + j))"

lemma run_len_le: "run_len s i n \<le> n"
  by (induction s i n rule: run_len.induct) auto

lemma run_len_free: "j < run_len s i n \<Longrightarrow> bit_test s (i + j)"
proof (induction s i n arbitrary: j rule: run_len.induct)
  case (2 s i n)
  then show ?case by (cases j) (auto split: if_splits)
qed simp

lemma run_len_stop: "run_len s i n < n \<Longrightarrow> \<not> bit_test s (i + run_len s i n)"
  by (induction s i n rule: run_len.induct) auto

lemma run_len_full: "run_len s i n = n \<longleftrightarrow> free_run s i n"
  using run_len_free [of _ s i n] run_len_stop [of s i n] run_len_le [of s i n]
  by (auto simp: free_run_def) (metis le_neq_implies_less)

lemma free_run_hole: "free_run s i n \<Longrightarrow> i \<le> q \<Longrightarrow> q < i + n \<Longrightarrow> bit_test s q"
  unfolding free_run_def by (metis add_less_cancel_left le_add_diff_inverse)

lemma scan_up_Some:
  "scan_up s count i = Some k \<Longrightarrow> i \<le> k \<and> k + count \<le> total_pages s \<and> free_run s k count"
proof (induction s count i rule: scan_up.induct)
  case (1 s count i)
  show ?case
  proof (cases "i + count \<le> total_pages s")
    case True
    show ?thesis
    proof (cases "bitmap s (i div 64) = 0")
      case zero: True
      have "scan_up s count ((i div 64 + 1) * 64) = Some k"
        using "1.prems" True zero by (simp add: scan_up.simps [of s count i])
      with "1.IH"(1) [OF True zero] have "(i div 64 + 1) * 64 \<le> k" "k + count \<le> total_pages s"
        "free_run s k count" by auto
      moreover have "i < (i div 64 + 1) * 64" by (rule less_next_multiple) simp
      ultimately show ?thesis by linarith
    next
      case False
      then show ?thesis
        using "1.prems" True "1.IH"(2) [OF True False refl]
        by (auto simp: scan_up.simps [of s count i] Let_def run_len_full split: if_splits)
    qed
  next
    case False
    then show ?thesis using "1.prems" by (simp add: scan_up.simps [of s count i])
  qed
qed

lemma scan_up_None:
  "scan_up s count i = None \<Longrightarrow> 0 < count \<Longrightarrow> i \<le> k \<Longrightarrow> k + count \<le> total_pages s
    \<Longrightarrow> \<not> free_run s k count"
proof (induction s count i rule: scan_up.induct)
  case (1 s count i)
  then have fit: "i + count \<le> total_pages s" by linarith
  show ?case
  proof (cases "bitmap s (i div 64) = 0")
    case zero: True
    have rec: "scan_up s count ((i div 64 + 1) * 64) = None"
      using "1.prems"(1) fit zero by (simp add: scan_up.simps [of s count i])
    show ?thesis
    proof (cases "(i div 64 + 1) * 64 \<le> k")
      case True
      then show ?thesis using "1.IH"(1) [OF fit zero rec] "1.prems" by blast
    next
      case False
      then have "k div 64 \<le> i div 64"
        using less_mult_imp_div_less [of k "i div 64 + 1" 64] by simp
      with "1.prems"(3) have "k div 64 = i div 64"
        by (simp add: div_le_mono le_antisym)
      then have "\<not> bit_test s k" using word_zero_no_page [OF zero] by blast
      then show ?thesis using "1.prems"(2) by (auto simp: free_run_def)
    qed
  next
    case False
    let ?j = "run_len s i count"
    from "1.prems"(1) fit False have ne: "?j \<noteq> count"
      and rec: "scan_up s count (i + ?j + 1) = None"
      by (auto simp: scan_up.simps [of s count i] Let_def split: if_splits)
    from ne run_len_le [of s i count] have lt: "?j < count" by simp
    show ?thesis
    proof (cases "i + ?j + 1 \<le> k")
      case True
      then show ?thesis using "1.IH"(2) [OF fit False refl ne rec] "1.prems" by blast
    next
      case kle: False
      then have "k \<le> i + ?j" by simp
      moreover have "i + ?j < k + count" using lt "1.prems"(3) by simp
      ultimately show ?thesis using run_len_stop [OF lt] free_run_hole [of s k count "i + ?j"] by blast
    qed
  qed
qed

lemma scan_down_Some:
  "scan_down s count i = Some k \<Longrightarrow> i + count \<le> total_pages s
    \<Longrightarrow> k \<le> i \<and> free_run s k count"
proof (induction s count i rule: scan_down.induct)
  case (1 s count i)
  show ?case
  proof (cases "bitmap s (i div 64) = 0")
    case zero: True
    let ?i = "i div 64 * 64 - 1"
    from zero "1.prems"(1) have w: "i div 64 \<noteq> 0"
      by (auto simp: scan_down.simps [of s count i] Let_def split: if_splits)
    then have "?i < i" using div_mult_mod_eq [of i 64] by simp
    with "1.prems"(2) have fit: "\<not> ?i + count > total_pages s" by linarith
    have "scan_down s count ?i = Some k"
      using "1.prems"(1) zero w fit by (simp add: scan_down.simps [of s count i] Let_def)
    with "1.IH"(1) [OF zero refl w refl] fit have "k \<le> ?i \<and> free_run s k count" by simp
    with \<open>?i < i\<close> show ?thesis by simp
  next
    case nz: False
    show ?thesis
    proof (cases "run_len s i count = count \<or> i = 0")
      case True
      then show ?thesis
        using "1.prems" nz by (auto simp: scan_down.simps [of s count i] run_len_full split: if_splits)
    next
      case False
      then have "scan_down s count (i - 1) = Some k"
        using "1.prems" nz by (simp add: scan_down.simps [of s count i])
      then show ?thesis
        using "1.IH"(2) [OF nz] False "1.prems"(2) by force
    qed
  qed
qed

lemma scan_down_None:
  "scan_down s count i = None \<Longrightarrow> 0 < count \<Longrightarrow> i + count \<le> total_pages s \<Longrightarrow> k \<le> i
    \<Longrightarrow> \<not> free_run s k count"
proof (induction s count i rule: scan_down.induct)
  case (1 s count i)
  show ?case
  proof (cases "bitmap s (i div 64) = 0")
    case zero: True
    let ?i = "i div 64 * 64 - 1"
    have no_page: "\<not> free_run s k count" if "k div 64 = i div 64"
      using word_zero_no_page [OF zero that] "1.prems"(2) by (auto simp: free_run_def)
    show ?thesis
    proof (cases "k div 64 = i div 64")
      case True
      then show ?thesis by (rule no_page)
    next
      case ne: False
      then have lt: "k div 64 < i div 64"
        using "1.prems"(4) div_le_mono [of k i 64] by simp
      then have w: "i div 64 \<noteq> 0" by simp
      have "?i < i" using w div_mult_mod_eq [of i 64] by simp
      with "1.prems"(3) have fit: "\<not> ?i + count > total_pages s" by linarith
      have "k < i div 64 * 64"
        using lt by (simp add: div_less_iff_less_mult)
      then have "k \<le> ?i" by simp
      moreover have "scan_down s count ?i = None"
        using "1.prems"(1) zero w fit by (simp add: scan_down.simps [of s count i] Let_def)
      ultimately show ?thesis
        using "1.IH"(1) [OF zero refl w refl] fit "1.prems"(2) by simp
    qed
  next
    case False
    from "1.prems"(1) False have nr: "run_len s i count \<noteq> count"
      by (auto simp: scan_down.simps [of s count i] split: if_splits)
    show ?thesis
    proof (cases "k = i")
      case True
      then show ?thesis using nr by (simp add: run_len_full)
    next
      case ne: False
      with "1.prems"(4) have "i \<noteq> 0" "k \<le> i - 1" by simp_all
      moreover have "scan_down s count (i - 1) = None"
        using "1.prems"(1) False nr \<open>i \<noteq> 0\<close> by (simp add: scan_down.simps [of s count i])
      ultimately show ?thesis
        using "1.IH"(2) [OF False nr \<open>i \<noteq> 0\<close>] "1.prems" by simp
    qed
  qed
qed

subsection \<open>The invariant\<close>

definition free_pages :: "page_st \<Rightarrow> nat set" where
  "free_pages s = {p. bit_test s p}"

definition page_inv :: "page_st \<Rightarrow> bool" where
  "page_inv s \<longleftrightarrow> free_pages s \<subseteq> {..<total_pages s}
     \<and> unat (free_count s) = card (free_pages s)
     \<and> total_pages s \<le> MAX_PAGES
     \<and> heap_base s AND (of_nat ANX_PAGE_SIZE - 1) = 0
     \<and> unat (heap_base s) + ANX_PAGE_SIZE * total_pages s < 2 ^ 64"

lemma page_inv_finite: "page_inv s \<Longrightarrow> finite (free_pages s)"
  unfolding page_inv_def using finite_subset by blast

lemma page_inv_card_le: "page_inv s \<Longrightarrow> card (free_pages s) \<le> total_pages s"
  unfolding page_inv_def using card_mono [of "{..<total_pages s}" "free_pages s"] by simp

lemma free_pages_set [simp]: "free_pages (bit_set s p) = insert p (free_pages s)"
  by (auto simp: free_pages_def)

lemma free_pages_clear [simp]: "free_pages (bit_clear s p) = free_pages s - {p}"
  by (auto simp: free_pages_def)

lemma free_pages_updates [simp]:
  "free_pages (s\<lparr>free_count := c\<rparr>) = free_pages s"
  "free_pages (s\<lparr>usable_pages := u\<rparr>) = free_pages s"
  by (simp_all add: free_pages_def)

lemma page_inv_counters:
  "page_inv s \<Longrightarrow> page_inv (s\<lparr>usable_pages := u\<rparr>)"
  by (simp add: page_inv_def)

lemma fold_clear_frame [simp]:
  "heap_base (fold (\<lambda>j s. bit_clear s (first + j)) xs s) = heap_base s"
  "total_pages (fold (\<lambda>j s. bit_clear s (first + j)) xs s) = total_pages s"
  "usable_pages (fold (\<lambda>j s. bit_clear s (first + j)) xs s) = usable_pages s"
  "free_count (fold (\<lambda>j s. bit_clear s (first + j)) xs s) = free_count s"
  by (induction xs arbitrary: s) auto

lemma free_pages_fold_clear:
  "free_pages (fold (\<lambda>j s. bit_clear s (first + j)) [0..<n] s) = free_pages s - {first..<first + n}"
proof (induction n)
  case (Suc n)
  have "{first..<first + Suc n} = insert (first + n) {first..<first + n}" by auto
  with Suc show ?case by auto
qed simp

lemma take_pages_spec:
  assumes "take_pages s first count = (a, t)"
  shows "a = heap_base s + push_bit ANX_PAGE_SHIFT (of_nat first)"
    and "free_pages t = free_pages s - {first..<first + count}"
    and "free_count t = free_count s - of_nat count"
    and "heap_base t = heap_base s" and "total_pages t = total_pages s"
    and "usable_pages t = usable_pages s"
  using assms by (auto simp: take_pages_def free_pages_fold_clear)

subsection \<open>Building keeps the invariant\<close>

lemma page_mask: "(of_nat ANX_PAGE_SIZE - 1 :: u64) = mask ANX_PAGE_SHIFT"
  by (simp add: ANX_PAGE_SIZE_def ANX_PAGE_SHIFT_def mask_eq_exp_minus_1)

lemma page_align_mask [simp]:
  "page_align_up a AND (of_nat ANX_PAGE_SIZE - 1) = 0"
  "page_align_down a AND (of_nat ANX_PAGE_SIZE - 1) = 0"
  by (simp_all add: page_align_up_def page_align_down_def and.assoc)

lemma unat_push_page:
  "n * ANX_PAGE_SIZE < 2 ^ 64 \<Longrightarrow> unat (push_bit ANX_PAGE_SHIFT (of_nat n) :: u64) = n * ANX_PAGE_SIZE"
  by (simp add: ANX_PAGE_SHIFT_def ANX_PAGE_SIZE_def push_bit_eq_mult unat_word_ariths unat_of_nat mod_mult_left_eq)

lemma unat_drop_page: "unat (drop_bit ANX_PAGE_SHIFT (a :: u64)) = unat a div ANX_PAGE_SIZE"
  by (simp add: ANX_PAGE_SHIFT_def ANX_PAGE_SIZE_def drop_bit_eq_div unat_div)

lemma init_span_inv:
  assumes "anx_page_init_span a b = Some s"
  shows "page_inv s" and "free_pages s = {}"
proof -
  let ?a = "page_align_up a" and ?b = "page_align_down b"
  from assms have lt: "?a < ?b" and s: "s = \<lparr>bitmap = (\<lambda>_. 0), heap_base = ?a,
        total_pages = min (unat (drop_bit ANX_PAGE_SHIFT (?b - ?a))) MAX_PAGES,
        usable_pages = 0, free_count = 0\<rparr>"
    by (auto simp: anx_page_init_span_def Let_def split: if_splits)
  show e: "free_pages s = {}" by (simp add: s free_pages_def bit_test_def)
  have "total_pages s \<le> (unat ?b - unat ?a) div ANX_PAGE_SIZE"
    using lt by (simp add: s unat_drop_page unat_sub)
  then have "ANX_PAGE_SIZE * total_pages s \<le> unat ?b - unat ?a"
    by (metis div_times_less_eq_dividend dual_order.trans mult.commute mult_le_mono1)
  with lt have "unat ?a + ANX_PAGE_SIZE * total_pages s \<le> unat ?b"
    by (simp add: word_less_nat_alt)
  from le_less_trans [OF this unat_u64_bound]
  have "unat ?a + ANX_PAGE_SIZE * total_pages s < 2 ^ 64" by simp
  then show "page_inv s"
    using e unfolding page_inv_def by (simp add: s)
qed

lemma clip_bounds:
  assumes "page_inv s" "clip s a b = Some (first, stop)"
  shows "first \<le> stop" and "stop \<le> total_pages s"
proof -
  let ?e = "heap_base s + push_bit ANX_PAGE_SHIFT (of_nat (total_pages s))"
  let ?a = "max (page_align_up a) (heap_base s)" and ?b = "min (page_align_down b) ?e"
  from assms(2) have lt: "?a < ?b"
    and f: "first = unat (drop_bit ANX_PAGE_SHIFT (?a - heap_base s))"
    and l: "stop = unat (drop_bit ANX_PAGE_SHIFT (?b - heap_base s))"
    by (simp_all add: clip_def Let_def not_le split: if_splits del: min_less_iff_conj max_less_iff_conj)
  have fit: "unat (heap_base s) + total_pages s * ANX_PAGE_SIZE < 2 ^ 64"
    using assms(1) by (simp add: page_inv_def mult.commute)
  then have p: "unat (push_bit ANX_PAGE_SHIFT (of_nat (total_pages s)) :: u64) = total_pages s * ANX_PAGE_SIZE"
    by (intro unat_push_page) linarith
  have e: "unat ?e = unat (heap_base s) + total_pages s * ANX_PAGE_SIZE"
    using fit by (subst unat_add_u64) (simp_all only: p)
  have base: "heap_base s \<le> ?a" by simp
  with lt have base': "heap_base s \<le> ?b" by (metis order.strict_implies_order order.trans)
  have "?b \<le> ?e" by simp
  then have "unat ?b \<le> unat (heap_base s) + total_pages s * ANX_PAGE_SIZE"
    using e by (metis word_le_nat_alt)
  then have "unat (?b - heap_base s) \<le> total_pages s * ANX_PAGE_SIZE"
    using base' by (simp add: unat_sub)
  then show "stop \<le> total_pages s"
    unfolding l unat_drop_page by (metis ANX_PAGE_SIZE_def div_le_mono nonzero_mult_div_cancel_right zero_neq_numeral)
  have "unat (?a - heap_base s) \<le> unat (?b - heap_base s)"
    using lt base base' by (simp only: unat_sub word_less_nat_alt word_le_nat_alt)
  then show "first \<le> stop" unfolding f l unat_drop_page by (rule div_le_mono)
qed

lemma free_count_step:
  assumes "unat (c :: u64) = n"
  shows "n < 2 ^ 20 \<Longrightarrow> unat (c + 1) = Suc n" and "0 < n \<Longrightarrow> unat (c - 1) = n - 1"
  using assms by (simp_all add: unat_add_u64 unat_sub word_le_nat_alt)

lemma add_free_page_inv:
  assumes "page_inv s" "p < total_pages s"
  shows "page_inv (add_free_page p s)" and "free_pages (add_free_page p s) = insert p (free_pages s)"
    and "total_pages (add_free_page p s) = total_pages s"
proof -
  show f: "free_pages (add_free_page p s) = insert p (free_pages s)"
    by (auto simp: add_free_page_def) (simp add: free_pages_def)
  show "total_pages (add_free_page p s) = total_pages s" by (simp add: add_free_page_def)
  show "page_inv (add_free_page p s)"
  proof (cases "bit_test s p")
    case True
    then show ?thesis using assms by (simp add: add_free_page_def)
  next
    case False
    then have p: "p \<notin> free_pages s" by (simp add: free_pages_def)
    have fin: "finite (free_pages s)" using assms(1) by (rule page_inv_finite)
    have "insert p (free_pages s) \<subseteq> {..<total_pages s}"
      using assms by (auto simp: page_inv_def)
    from card_mono [OF _ this] p fin have "card (free_pages s) < 2 ^ 20"
      using assms(1) by (simp add: page_inv_def MAX_PAGES_def)
    then have "unat (free_count s + 1) = Suc (card (free_pages s))"
      using assms(1) by (intro free_count_step) (simp_all add: page_inv_def)
    then show ?thesis
      using assms False p fin by (simp add: add_free_page_def page_inv_def)
  qed
qed

lemma reserve_page_inv:
  assumes "page_inv s"
  shows "page_inv (reserve_page p s)" and "free_pages (reserve_page p s) = free_pages s - {p}"
    and "total_pages (reserve_page p s) = total_pages s"
proof -
  show "free_pages (reserve_page p s) = free_pages s - {p}"
    by (auto simp: reserve_page_def) (simp add: free_pages_def)
  show "total_pages (reserve_page p s) = total_pages s" by (simp add: reserve_page_def)
  show "page_inv (reserve_page p s)"
  proof (cases "bit_test s p")
    case True
    then have p: "p \<in> free_pages s" by (simp add: free_pages_def)
    have fin: "finite (free_pages s)" using assms(1) by (rule page_inv_finite)
    with p have "0 < card (free_pages s)" by (auto simp: card_gt_0_iff)
    then have "unat (free_count s - 1) = card (free_pages s) - 1"
      using assms(1) by (intro free_count_step) (simp_all add: page_inv_def)
    then show ?thesis
      using assms True p fin by (auto simp: reserve_page_def page_inv_def)
  next
    case False
    then show ?thesis using assms by (simp add: reserve_page_def)
  qed
qed

lemma fold_add_free_inv:
  assumes "page_inv s" "set ps \<subseteq> {..<total_pages s}"
  shows "page_inv (fold add_free_page ps s) \<and> free_pages (fold add_free_page ps s) = free_pages s \<union> set ps"
  using assms
proof (induction ps arbitrary: s)
  case (Cons p ps)
  then show ?case using add_free_page_inv [of s p] by auto
qed simp

lemma fold_reserve_inv:
  assumes "page_inv s"
  shows "page_inv (fold reserve_page ps s) \<and> free_pages (fold reserve_page ps s) = free_pages s - set ps"
  using assms
proof (induction ps arbitrary: s)
  case (Cons p ps)
  then show ?case using reserve_page_inv [of s p] by auto
qed simp

lemma init_span_frame: "anx_page_init_span a b = Some s \<Longrightarrow> usable_pages s = 0 \<and> free_count s = 0"
  by (auto simp: anx_page_init_span_def Let_def split: if_splits)

lemma add_free_inv:
  assumes "page_inv s"
  shows "page_inv (anx_page_add_free s a b)"
    and "free_pages (anx_page_add_free s a b) = free_pages s \<union>
      (case clip s a b of None \<Rightarrow> {} | Some (first, stop) \<Rightarrow> {first..<stop})"
proof -
  have "page_inv (anx_page_add_free s a b) \<and> free_pages (anx_page_add_free s a b) = free_pages s \<union>
      (case clip s a b of None \<Rightarrow> {} | Some (first, stop) \<Rightarrow> {first..<stop})"
  proof (cases "clip s a b")
    case (Some fl)
    obtain first stop where fl: "fl = (first, stop)" by (cases fl)
    have "set [first..<stop] \<subseteq> {..<total_pages s}"
      using clip_bounds [OF assms, of a b first stop] Some fl by auto
    from fold_add_free_inv [OF assms this] show ?thesis
      using Some fl by (simp add: anx_page_add_free_def)
  qed (use assms in \<open>simp add: anx_page_add_free_def\<close>)
  then show "page_inv (anx_page_add_free s a b)"
    and "free_pages (anx_page_add_free s a b) = free_pages s \<union>
      (case clip s a b of None \<Rightarrow> {} | Some (first, stop) \<Rightarrow> {first..<stop})" by simp_all
qed

lemma reserve_inv:
  assumes "page_inv s"
  shows "page_inv (anx_page_reserve s a b)"
    and "free_pages (anx_page_reserve s a b) = free_pages s -
      (case clip s a b of None \<Rightarrow> {} | Some (first, stop) \<Rightarrow> {first..<stop})"
  using fold_reserve_inv [OF assms]
  by (auto simp: anx_page_reserve_def assms split: option.splits)

subsection \<open>Allocation and release\<close>

lemma order_count: "order < 64 \<Longrightarrow> unat (2 ^ unat order :: u64) = 2 ^ unat (order :: u32)"
proof -
  assume "order < 64"
  then have "(2 :: nat) ^ unat order < 2 ^ 64"
    by (intro power_strict_increasing) (simp_all add: word_less_nat_alt)
  then have "unat (of_nat (2 ^ unat order) :: u64) = 2 ^ unat order" by (rule unat_of_nat_u64)
  then show ?thesis by simp
qed

text \<open>What the search of the allocator returns, in either direction.\<close>

definition page_search :: "page_st \<Rightarrow> nat \<Rightarrow> nat option" where
  "page_search s count = (if count \<ge> 16 then scan_down s count (total_pages s - count)
                          else scan_up s count 0)"

lemma page_search_Some:
  "page_search s count = Some i \<Longrightarrow> count \<le> total_pages s \<Longrightarrow> i + count \<le> total_pages s \<and> free_run s i count"
  using scan_down_Some [of s count "total_pages s - count" i] scan_up_Some [of s count 0 i]
  by (auto simp: page_search_def split: if_splits)

lemma page_search_None:
  "page_search s count = None \<Longrightarrow> 0 < count \<Longrightarrow> i + count \<le> total_pages s \<Longrightarrow> \<not> free_run s i count"
  using scan_down_None [of s count "total_pages s - count" i] scan_up_None [of s count 0 i]
  by (auto simp: page_search_def split: if_splits)

lemma alloc_search:
  "anx_page_alloc s order =
     (let count = unat (push_bit (unat order) 1 :: u64) in
      if count > unat (free_count s) \<or> count > total_pages s then (0, s)
      else case page_search s count of Some i \<Rightarrow> take_pages s i count | None \<Rightarrow> (0, s))"
  by (auto simp: anx_page_alloc_def page_search_def Let_def)

lemma free_run_subset: "free_run s i n \<longleftrightarrow> {i..<i + n} \<subseteq> free_pages s"
proof
  show "free_run s i n \<Longrightarrow> {i..<i + n} \<subseteq> free_pages s"
    using free_run_hole by (auto simp: free_pages_def)
  show "{i..<i + n} \<subseteq> free_pages s \<Longrightarrow> free_run s i n"
    unfolding free_run_def free_pages_def by (auto dest!: subsetD [where c = "i + j" for j])
qed

lemma page_addr:
  assumes "page_inv s" "i \<le> total_pages s"
  shows "unat (heap_base s + push_bit ANX_PAGE_SHIFT (of_nat i)) = unat (heap_base s) + i * ANX_PAGE_SIZE"
proof -
  have "i * ANX_PAGE_SIZE \<le> total_pages s * ANX_PAGE_SIZE" using assms(2) by simp
  moreover have "unat (heap_base s) + total_pages s * ANX_PAGE_SIZE < 2 ^ 64"
    using assms(1) by (simp add: page_inv_def mult.commute)
  ultimately have fit: "unat (heap_base s) + i * ANX_PAGE_SIZE < 2 ^ 64" by linarith
  then have p: "unat (push_bit ANX_PAGE_SHIFT (of_nat i) :: u64) = i * ANX_PAGE_SIZE"
    by (intro unat_push_page) linarith
  show ?thesis using fit by (subst unat_add_u64) (simp_all only: p)
qed

text \<open>The outcome of an allocation: out of memory with the state untouched and no free run
  of the size, or a free run taken.\<close>

lemma alloc_cases:
  assumes "page_inv s" "order < 64" "anx_page_alloc s order = (a, t)"
  obtains (oom) "a = 0" "t = s" "\<And>i. i + 2 ^ unat order \<le> total_pages s \<Longrightarrow> \<not> free_run s i (2 ^ unat order)"
  | (taken) i where "i + 2 ^ unat order \<le> total_pages s" "free_run s i (2 ^ unat order)"
      "take_pages s i (2 ^ unat order) = (a, t)"
proof -
  let ?n = "2 ^ unat order :: nat"
  have n: "unat (2 ^ unat order :: u64) = ?n" using assms(2) by (rule order_count)
  show ?thesis
  proof (cases "?n > unat (free_count s) \<or> ?n > total_pages s")
    case True
    then have eq: "a = 0" "t = s" using assms(3) by (auto simp: alloc_search n)
    have "\<not> free_run s i ?n" if le: "i + ?n \<le> total_pages s" for i
    proof
      assume "free_run s i ?n"
      then have "card {i..<i + ?n} \<le> card (free_pages s)"
        by (intro card_mono page_inv_finite [OF assms(1)]) (simp add: free_run_subset)
      then show False using True le assms(1) by (simp add: page_inv_def)
    qed
    with eq show ?thesis by (rule oom)
  next
    case fits: False
    show ?thesis
    proof (cases "page_search s ?n")
      case None
      then have "a = 0" "t = s" using fits assms(3) by (auto simp: alloc_search n)
      then show ?thesis using page_search_None [OF None] by (intro oom) simp_all
    next
      case (Some i)
      then show ?thesis
        using page_search_Some [OF Some] fits assms(3)
        by (intro taken [of i]) (auto simp: alloc_search n)
    qed
  qed
qed

lemma take_pages_inv:
  assumes "page_inv s" "free_run s i n" "take_pages s i n = (a, t)"
  shows "page_inv t"
proof -
  note sp = take_pages_spec [OF assms(3)]
  have sub: "{i..<i + n} \<subseteq> free_pages s" using assms(2) by (simp add: free_run_subset)
  have fin: "finite (free_pages s)" using assms(1) by (rule page_inv_finite)
  from card_mono [OF fin sub] have le: "n \<le> card (free_pages s)" by simp
  have small: "card (free_pages s) < 2 ^ 64"
    using page_inv_card_le [OF assms(1)] assms(1) by (simp add: page_inv_def MAX_PAGES_def)
  have n: "unat (of_nat n :: u64) = n" using le small by (intro unat_of_nat_u64) linarith
  have c: "unat (free_count s) = card (free_pages s)" using assms(1) by (simp add: page_inv_def)
  have "unat (free_count s - of_nat n) = card (free_pages s) - n"
    using le by (subst unat_sub_u64) (simp_all add: word_le_nat_alt n c)
  moreover have "card (free_pages s - {i..<i + n}) = card (free_pages s) - n"
    using sub by (simp add: card_Diff_subset)
  ultimately show ?thesis
    using assms(1) sp by (auto simp: page_inv_def)
qed

lemma free_loop_frame:
  "free_loop s p n = Some t \<Longrightarrow> heap_base t = heap_base s \<and> total_pages t = total_pages s
     \<and> usable_pages t = usable_pages s \<and> free_count t = free_count s"
  by (induction s p n rule: free_loop.induct) (auto split: if_splits)

lemma free_loop_iff:
  "(\<exists>t. free_loop s p n = Some t) \<longleftrightarrow> {p..<p + n} \<inter> free_pages s = {}"
proof (induction s p n rule: free_loop.induct)
  case (2 s p n)
  have "{p..<p + Suc n} = insert p {Suc p..<Suc p + n}" by auto
  with 2 show ?case by (auto simp: free_pages_def)
qed simp

lemma free_loop_pages:
  "free_loop s p n = Some t \<Longrightarrow> free_pages t = free_pages s \<union> {p..<p + n}"
proof (induction s p n rule: free_loop.induct)
  case (2 s p n)
  have "{p..<p + Suc n} = insert p {Suc p..<Suc p + n}" by auto
  with 2 show ?case by (auto split: if_splits)
qed simp

lemma anx_page_free_cases:
  assumes "anx_page_free s a order = Some t" "order < 64"
  obtains p u where "p = unat (drop_bit ANX_PAGE_SHIFT (a - heap_base s))"
    "p + 2 ^ unat order \<le> total_pages s" "free_loop s p (2 ^ unat order) = Some u"
    "t = u\<lparr>free_count := free_count s + of_nat (2 ^ unat order)\<rparr>"
  using assms by (auto simp: anx_page_free_def Let_def order_count split: if_splits)

lemma page_free_inv:
  assumes "page_inv s" "order < 64" "anx_page_free s a order = Some t"
  shows "page_inv t"
proof -
  let ?n = "2 ^ unat order :: nat"
  obtain p u where p: "p + ?n \<le> total_pages s" and u: "free_loop s p ?n = Some u"
    and t: "t = u\<lparr>free_count := free_count s + of_nat ?n\<rparr>"
    using anx_page_free_cases [OF assms(3,2)] by metis
  note fr = free_loop_frame [OF u] and fp = free_loop_pages [OF u]
  have disj: "{p..<p + ?n} \<inter> free_pages s = {}" using u free_loop_iff by blast
  have fin: "finite (free_pages s)" using assms(1) by (rule page_inv_finite)
  have sub: "free_pages s \<union> {p..<p + ?n} \<subseteq> {..<total_pages s}"
    using p assms(1) by (auto simp: page_inv_def)
  have card: "card (free_pages s \<union> {p..<p + ?n}) = card (free_pages s) + ?n"
    using fin disj by (subst card_Un_disjoint) auto
  with card_mono [OF _ sub] have le: "card (free_pages s) + ?n \<le> 2 ^ 20"
    using assms(1) by (simp add: page_inv_def MAX_PAGES_def)
  have c: "unat (free_count s) = card (free_pages s)" using assms(1) by (simp add: page_inv_def)
  have n: "unat (of_nat ?n :: u64) = ?n" using assms(2) by (simp add: order_count)
  have "unat (free_count s + of_nat ?n) = card (free_pages s) + ?n"
    using le_less_trans [OF le, of "2 ^ 64"] by (subst unat_add_u64) (simp_all only: n c, simp)
  then show ?thesis
    using assms(1) sub card fr fp by (simp add: t page_inv_def)
qed

text \<open>The states the kernel can bring the allocator into: boot sets up the span, then the
  memory map is added and reservations cut out, and pages are allocated and released.\<close>

inductive page_reach :: "page_st \<Rightarrow> bool" where
  span: "anx_page_init_span a b = Some s \<Longrightarrow> page_reach s"
| init: "anx_page_init a b = Some s \<Longrightarrow> page_reach s"
| add: "page_reach s \<Longrightarrow> page_reach (anx_page_add_free s a b)"
| reserve: "page_reach s \<Longrightarrow> page_reach (anx_page_reserve s a b)"
| alloc: "page_reach s \<Longrightarrow> order < 64 \<Longrightarrow> anx_page_alloc s order = (a, t) \<Longrightarrow> page_reach t"
| free: "page_reach s \<Longrightarrow> order < 64 \<Longrightarrow> anx_page_free s a order = Some t \<Longrightarrow> page_reach t"

lemma alloc_inv:
  assumes "page_inv s" "order < 64" "anx_page_alloc s order = (a, t)"
  shows "page_inv t"
  using assms by (cases rule: alloc_cases [OF assms]) (auto intro: take_pages_inv)

lemma page_reach_inv: "page_reach s \<Longrightarrow> page_inv s"
proof (induction rule: page_reach.induct)
  case (init a b s)
  then show ?case
    by (auto simp: anx_page_init_def intro: add_free_inv init_span_inv)
qed (auto intro: init_span_inv add_free_inv reserve_inv alloc_inv page_free_inv)

subsection \<open>Properties\<close>

text \<open>C30: In every state the allocator can reach, the free counter is exactly the number of
  set bits, no bit outside the span is set and the span does not wrap around the address
  space; so the statistics the kernel reports are the truth.\<close>

theorem page_count_exact:
  assumes "page_reach s"
  shows "unat (snd (anx_page_stats s)) = card {p. bit_test s p}
    \<and> {p. bit_test s p} \<subseteq> {..<total_pages s}
    \<and> unat (heap_base s) + ANX_PAGE_SIZE * total_pages s < 2 ^ 64"
  using page_reach_inv [OF assms]
  by (auto simp: page_inv_def anx_page_stats_def free_pages_def)

text \<open>C28: An allocation of \<open>2^order\<close> pages that succeeds returns the address of a run of
  pages inside the span that were all free, removes exactly those pages from the free set
  and lowers the counter by their number.\<close>

theorem page_alloc_takes_free_run:
  assumes "page_reach s" "order < 64" "anx_page_alloc s order = (a, t)" "a \<noteq> 0"
  shows "\<exists>i. unat a = unat (heap_base s) + i * ANX_PAGE_SIZE
     \<and> i + 2 ^ unat order \<le> total_pages s
     \<and> {i..<i + 2 ^ unat order} \<subseteq> {p. bit_test s p}
     \<and> {p. bit_test t p} = {p. bit_test s p} - {i..<i + 2 ^ unat order}
     \<and> unat (free_count t) + 2 ^ unat order = unat (free_count s)"
proof -
  have inv: "page_inv s" using assms(1) by (rule page_reach_inv)
  show ?thesis
  proof (cases rule: alloc_cases [OF inv assms(2,3)])
    case 1
    then show ?thesis using assms(4) by simp
  next
    case taken: (2 i)
    note sp = take_pages_spec [OF taken(3)]
    have sub: "{i..<i + 2 ^ unat order} \<subseteq> free_pages s" using taken(2) by (simp add: free_run_subset)
    have "page_inv t" using alloc_inv [OF inv assms(2,3)] .
    then have "unat (free_count t) = card (free_pages s - {i..<i + 2 ^ unat order})"
      using sp by (simp add: page_inv_def)
    moreover have "card (free_pages s - {i..<i + 2 ^ unat order}) + 2 ^ unat order = card (free_pages s)"
      using sub card_mono [OF page_inv_finite [OF inv] sub] by (simp add: card_Diff_subset)
    moreover have "unat (free_count s) = card (free_pages s)" using inv by (simp add: page_inv_def)
    moreover have "unat a = unat (heap_base s) + i * ANX_PAGE_SIZE"
      using page_addr [OF inv, of i] taken(1) sp(1) by simp
    ultimately show ?thesis using taken(1) sub sp(2) by (auto simp: free_pages_def)
  qed
qed

text \<open>C27: The allocator fails exactly when there is no run of \<open>2^order\<close> free pages in the
  span: skipping whole zero words and jumping over the hole that ended a run lose nothing.
  A failed allocation leaves the state as it was.\<close>

theorem page_alloc_complete:
  assumes "page_reach s" "order < 64" "heap_base s \<noteq> 0"
  shows "if \<exists>i. i + 2 ^ unat order \<le> total_pages s \<and> {i..<i + 2 ^ unat order} \<subseteq> {p. bit_test s p}
     then fst (anx_page_alloc s order) \<noteq> 0
     else anx_page_alloc s order = (0, s)"
proof -
  have inv: "page_inv s" using assms(1) by (rule page_reach_inv)
  obtain a t where at: "anx_page_alloc s order = (a, t)" by (cases "anx_page_alloc s order")
  have "(a = 0 \<longleftrightarrow> \<not> (\<exists>i. i + 2 ^ unat order \<le> total_pages s \<and> free_run s i (2 ^ unat order)))
    \<and> (a = 0 \<longrightarrow> t = s)"
  proof (cases rule: alloc_cases [OF inv assms(2) at])
    case taken: (2 i)
    have "unat a = unat (heap_base s) + i * ANX_PAGE_SIZE"
      using page_addr [OF inv, of i] taken(1) take_pages_spec(1) [OF taken(3)] by simp
    then have "a \<noteq> 0" using assms(3) by (auto simp: unat_eq_0)
    then show ?thesis using taken by blast
  qed auto
  then show ?thesis by (auto simp: at free_run_subset free_pages_def)
qed

lemma unat_page_mask: "a AND mask ANX_PAGE_SHIFT = (0 :: u64) \<longleftrightarrow> unat a mod ANX_PAGE_SIZE = 0"
  by (simp add: ANX_PAGE_SHIFT_def ANX_PAGE_SIZE_def take_bit_eq_mod unat_mod
    flip: take_bit_eq_mask unat_eq_0)

lemma free_after_take:
  assumes "page_inv s" "order < 64" "i + 2 ^ unat order \<le> total_pages s"
    "free_run s i (2 ^ unat order)" "take_pages s i (2 ^ unat order) = (a, t)"
  shows "anx_page_free t a order = Some s"
proof -
  let ?n = "2 ^ unat order :: nat"
  note sp = take_pages_spec [OF assms(5)]
  have n: "unat (2 ^ unat order :: u64) = ?n" using assms(2) by (rule order_count)
  have a: "unat a = unat (heap_base s) + i * ANX_PAGE_SIZE"
    using page_addr [OF assms(1), of i] assms(3) sp(1) by simp
  then have ge: "heap_base s \<le> a" by (simp add: word_le_nat_alt)
  have "unat (a - heap_base s) = i * ANX_PAGE_SIZE" using a ge by (simp add: unat_sub)
  then have page: "unat (drop_bit ANX_PAGE_SHIFT (a - heap_base s)) = i"
    unfolding unat_drop_page by (simp add: ANX_PAGE_SIZE_def)
  have al: "a AND (of_nat ANX_PAGE_SIZE - 1) = 0"
  proof -
    have "unat (heap_base s) mod ANX_PAGE_SIZE = 0"
      using assms(1) by (simp add: page_inv_def page_mask unat_page_mask)
    then have "unat a mod ANX_PAGE_SIZE = 0" by (simp add: a)
    then show ?thesis by (simp add: page_mask unat_page_mask)
  qed
  have "{i..<i + ?n} \<inter> free_pages t = {}" using sp(2) by auto
  then obtain u where u: "free_loop t i ?n = Some u" using free_loop_iff by blast
  note fr = free_loop_frame [OF u]
  have "free_pages u = free_pages s"
    using free_loop_pages [OF u] sp(2) assms(4) by (auto simp: free_run_subset)
  then have "bitmap u = bitmap s"
    by (intro bitmap_eqI) (auto simp: free_pages_def set_eq_iff)
  then have "u\<lparr>free_count := free_count t + of_nat ?n\<rparr> = s"
    using fr sp by (intro page_st.equality) simp_all
  then show ?thesis
    using ge al u page n assms(3) sp by (simp add: anx_page_free_def Let_def)
qed

text \<open>C29: Releasing a block that was just allocated, with the same order, passes every
  assertion and restores the allocator's state exactly: bitmap, counters and span.\<close>

theorem page_free_after_alloc:
  assumes "page_reach s" "order < 64" "anx_page_alloc s order = (a, t)" "a \<noteq> 0"
  shows "anx_page_free t a order = Some s"
proof -
  have inv: "page_inv s" using assms(1) by (rule page_reach_inv)
  show ?thesis
  proof (cases rule: alloc_cases [OF inv assms(2,3)])
    case taken: (2 i)
    then show ?thesis using inv assms(2) by (intro free_after_take)
  qed (use assms(4) in simp)
qed

text \<open>C31: Releasing the same block twice, or any block that overlaps pages already free,
  is caught: the second release panics, whatever its order.\<close>

theorem page_double_free_panics:
  assumes "order < 64" "order' < 64" "anx_page_free s a order = Some t"
  shows "anx_page_free t a order' = None"
proof (rule ccontr)
  assume "anx_page_free t a order' \<noteq> None"
  then obtain v where v: "anx_page_free t a order' = Some v" by blast
  obtain p u where p: "p = unat (drop_bit ANX_PAGE_SHIFT (a - heap_base s))"
    and u: "free_loop s p (2 ^ unat order) = Some u"
    and t: "t = u\<lparr>free_count := free_count s + of_nat (2 ^ unat order)\<rparr>"
    using anx_page_free_cases [OF assms(3,1)] by metis
  have base: "heap_base t = heap_base s" using free_loop_frame [OF u] t by simp
  have "p \<in> free_pages t" using free_loop_pages [OF u] t by simp
  moreover obtain w where "free_loop t p (2 ^ unat order') = Some w"
    using anx_page_free_cases [OF v assms(2)] base p by metis
  then have "{p..<p + 2 ^ unat order'} \<inter> free_pages t = {}" using free_loop_iff by blast
  moreover have "p \<in> {p..<p + 2 ^ unat order'}" by simp
  ultimately show False by blast
qed

subsection \<open>A concrete span\<close>

lemma run_len_numeral: "run_len s i (numeral k) =
    (if bit_test s i then Suc (run_len s (Suc i) (pred_numeral k)) else 0)"
  by (simp add: numeral_eq_Suc)

lemma free_loop_numeral: "free_loop s page (numeral k) =
    (if bit_test s page then None else free_loop (bit_set s page) (Suc page) (pred_numeral k))"
  by (simp add: numeral_eq_Suc)

lemmas page_eval = anx_page_init_def anx_page_init_span_def anx_page_add_free_def add_free_page_def
  clip_def page_align_up_def page_align_down_def ANX_PAGE_SIZE_def ANX_PAGE_SHIFT_def MAX_PAGES_def
  bit_set_def bit_clear_def bit_test_def take_pages_def Let_def anx_page_alloc_def anx_page_free_def
  scan_up.simps run_len_numeral free_loop_numeral upt_rec anx_page_stats_def

text \<open>Four pages at 0x1000, all free.\<close>

definition page_ex :: page_st where
  "page_ex = \<lparr>bitmap = (\<lambda>_. 0)(0 := 15), heap_base = 4096, total_pages = 4,
     usable_pages = 4, free_count = 4\<rparr>"

lemma page_ex_init: "anx_page_init 4096 20480 = Some page_ex"
  by (simp add: page_eval page_ex_def)

lemma page_ex_reach: "page_reach page_ex"
  using page_ex_init by (rule page_reach.init)

lemma page_ex_alloc: "fst (anx_page_alloc page_ex 1) = 4096"
  by (simp add: page_eval page_ex_def)

lemma page_ex_oom: "fst (anx_page_alloc page_ex 4) = 0"
  by (simp add: page_eval page_ex_def)

lemma page_ex_free: "anx_page_free (snd (anx_page_alloc page_ex 1)) 4096 1 \<noteq> None"
  by (simp add: page_eval page_ex_def)

theorem page_count_exact_witness:
  "unat (snd (anx_page_stats page_ex)) = card {p. bit_test page_ex p} \<and> snd (anx_page_stats page_ex) = 4"
  using page_count_exact [OF page_ex_reach] by (simp add: anx_page_stats_def page_ex_def)

theorem page_alloc_takes_free_run_witness:
  "\<exists>i. unat (fst (anx_page_alloc page_ex 1)) = unat (heap_base page_ex) + i * ANX_PAGE_SIZE
     \<and> {i..<i + 2} \<subseteq> {p. bit_test page_ex p}"
  using page_alloc_takes_free_run [of page_ex 1 "fst (anx_page_alloc page_ex 1)"
    "snd (anx_page_alloc page_ex 1)"] page_ex_reach page_ex_alloc by (auto simp: prod_eq_iff)

theorem page_alloc_complete_witness:
  "fst (anx_page_alloc page_ex 1) = 4096 \<and>
   (\<exists>i. i + 2 \<le> total_pages page_ex \<and> {i..<i + 2} \<subseteq> {p. bit_test page_ex p}) \<and>
   \<not> (\<exists>i. i + 16 \<le> total_pages page_ex \<and> {i..<i + 16} \<subseteq> {p. bit_test page_ex p})"
proof -
  have "heap_base page_ex \<noteq> 0" by (simp add: page_ex_def)
  then show ?thesis
    using page_alloc_complete [of page_ex 1] page_alloc_complete [of page_ex 4]
      page_ex_reach page_ex_alloc page_ex_oom by (auto split: if_splits)
qed

theorem page_free_after_alloc_witness:
  "anx_page_free (snd (anx_page_alloc page_ex 1)) 4096 1 = Some page_ex"
  using page_free_after_alloc [of page_ex 1 "fst (anx_page_alloc page_ex 1)"
    "snd (anx_page_alloc page_ex 1)"] page_ex_reach page_ex_alloc by (simp add: prod_eq_iff)

theorem page_double_free_panics_witness:
  "\<exists>t. anx_page_free (snd (anx_page_alloc page_ex 1)) 4096 1 = Some t \<and> anx_page_free t 4096 0 = None"
proof -
  obtain t where "anx_page_free (snd (anx_page_alloc page_ex 1)) 4096 1 = Some t"
    using page_ex_free by blast
  then show ?thesis using page_double_free_panics [of 1 0] by auto
qed

end
