(* ===== verification/Codec.thy ===== *)
theory Codec
  imports Prelude
begin

text \<open>
  The pure codecs of \<^verbatim>\<open>kernel/lib\<close>: base64 (\<^verbatim>\<open>base64.c\<close>), CRC-32 (\<^verbatim>\<open>crc32.c\<close>)
  and the strict UTF-8 decoder (\<^verbatim>\<open>utf8.c\<close>). A buffer with its length is a byte list; an
  output buffer with its capacity is the list of the bytes written, whose length is the count
  the C function returns. C's \<^verbatim>\<open>int\<close> is \<open>int\<close>: every value in these functions is far
  inside its range.
\<close>

subsection \<open>Base64\<close>

definition B64_ENC :: "u8 list" where
  "B64_ENC = map of_char ''ABCDEFGHIJKLMNOPQRSTUVWXYZabcdefghijklmnopqrstuvwxyz0123456789+/''"

definition pad :: u8 where "pad = 61"

definition b64_enc_char :: "u32 \<Rightarrow> u8" where
  "b64_enc_char w = B64_ENC ! unat (w AND 0x3F)"

definition b64_triple :: "u8 list \<Rightarrow> u32" where
  "b64_triple src =
     (let rem = length src; t0 = push_bit 16 (ucast (src ! 0));
          t1 = (if rem > 1 then t0 OR push_bit 8 (ucast (src ! 1)) else t0) in
      if rem > 2 then t1 OR ucast (src ! 2) else t1)"

fun b64_encode_from :: "u8 list \<Rightarrow> nat \<Rightarrow> nat \<Rightarrow> u8 list" where
  "b64_encode_from src out dst_cap =
     (if src = [] then []
      else let rem = length src; triple = b64_triple src in
        if out + 4 > dst_cap then []
        else [b64_enc_char (drop_bit 18 triple), b64_enc_char (drop_bit 12 triple),
              (if rem > 1 then b64_enc_char (drop_bit 6 triple) else pad),
              (if rem > 2 then b64_enc_char triple else pad)]
             @ b64_encode_from (drop 3 src) (out + 4) dst_cap)"

declare b64_encode_from.simps [simp del]

definition anx_base64_encode :: "u8 list \<Rightarrow> nat \<Rightarrow> u8 list" where
  "anx_base64_encode src dst_cap = b64_encode_from src 0 dst_cap"

definition b64_val :: "u8 \<Rightarrow> int" where
  "b64_val c =
     (if c \<ge> 65 \<and> c \<le> 90 then uint c - 65
      else if c \<ge> 97 \<and> c \<le> 122 then uint c - 97 + 26
      else if c \<ge> 48 \<and> c \<le> 57 then uint c - 48 + 52
      else if c = 43 then 62
      else if c = 47 then 63
      else -1)"

definition emit :: "bool \<Rightarrow> u8 \<Rightarrow> nat \<Rightarrow> u8 list \<Rightarrow> u8 list" where
  "emit present b dst_cap dst = (if present \<and> length dst < dst_cap then dst @ [b] else dst)"

fun b64_decode_from :: "u8 list \<Rightarrow> u8 list \<Rightarrow> nat \<Rightarrow> u8 list" where
  "b64_decode_from (s0 # s1 # s2 # s3 # src) dst dst_cap =
     (let a = b64_val s0; b = b64_val s1;
          c = (if s2 \<noteq> pad then b64_val s2 else 0);
          d = (if s3 \<noteq> pad then b64_val s3 else 0) in
      if a < 0 \<or> b < 0 \<or> c < 0 \<or> d < 0 then []
      else
        let dst1 = emit True (of_int (push_bit 2 a OR drop_bit 4 b)) dst_cap dst;
            dst2 = emit (s2 \<noteq> pad) (of_int (push_bit 4 b OR drop_bit 2 c)) dst_cap dst1;
            dst3 = emit (s3 \<noteq> pad) (of_int (push_bit 6 c OR d)) dst_cap dst2 in
        b64_decode_from src dst3 dst_cap)"
| "b64_decode_from _ dst dst_cap = dst"

definition anx_base64_decode :: "u8 list \<Rightarrow> nat \<Rightarrow> u8 list" where
  "anx_base64_decode src dst_cap = b64_decode_from src [] dst_cap"

subsection \<open>CRC-32\<close>

fun crc32_shift :: "nat \<Rightarrow> u32 \<Rightarrow> u32" where
  "crc32_shift 0 c = c"
| "crc32_shift (Suc j) c =
     crc32_shift j (if c AND 1 \<noteq> 0 then 0xEDB88320 XOR drop_bit 1 c else drop_bit 1 c)"

text \<open>The static table and its ready flag.\<close>

record crc32_st =
  crc32_table :: "u32 list"
  crc32_ready :: bool

definition crc32_init :: "crc32_st \<Rightarrow> crc32_st" where
  "crc32_init s = s\<lparr>crc32_table := map (\<lambda>i. crc32_shift 8 (of_nat i)) [0..<256], crc32_ready := True\<rparr>"

definition crc32_byte :: "u32 list \<Rightarrow> u8 \<Rightarrow> u32 \<Rightarrow> u32" where
  "crc32_byte table b crc = (table ! unat ((crc XOR ucast b) AND 0xFF)) XOR drop_bit 8 crc"

definition anx_crc32 :: "crc32_st \<Rightarrow> u8 list \<Rightarrow> u32 \<times> crc32_st" where
  "anx_crc32 s data =
     (let s' = (if \<not> crc32_ready s then crc32_init s else s) in
      (fold (crc32_byte (crc32_table s')) data 0xFFFFFFFF XOR 0xFFFFFFFF, s'))"

subsection \<open>UTF-8\<close>

definition anx_utf8_decode :: "u8 list \<Rightarrow> int + (u32 \<times> nat)" where
  "anx_utf8_decode buf =
     (if buf = [] then Inl ANX_EINVAL
      else
        let b0 = (ucast (buf ! 0) :: u32); b1 = (ucast (buf ! 1) :: u32);
            b2 = (ucast (buf ! 2) :: u32); b3 = (ucast (buf ! 3) :: u32) in
        if b0 < 0x80 then Inr (b0, 1)
        else if b0 < 0xC0 then Inl ANX_EINVAL
        else if b0 < 0xE0 then
          if length buf < 2 then Inl ANX_EINVAL
          else if b1 AND 0xC0 \<noteq> 0x80 then Inl ANX_EINVAL
          else
            let n = push_bit 6 (b0 AND 0x1F) OR (b1 AND 0x3F) in
            if n < 0x80 then Inl ANX_EINVAL else Inr (n, 2)
        else if b0 < 0xF0 then
          if length buf < 3 then Inl ANX_EINVAL
          else if b1 AND 0xC0 \<noteq> 0x80 \<or> b2 AND 0xC0 \<noteq> 0x80 then Inl ANX_EINVAL
          else
            let n = push_bit 12 (b0 AND 0x0F) OR push_bit 6 (b1 AND 0x3F) OR (b2 AND 0x3F) in
            if n < 0x800 then Inl ANX_EINVAL
            else if n \<ge> 0xD800 \<and> n \<le> 0xDFFF then Inl ANX_EINVAL
            else Inr (n, 3)
        else if b0 < 0xF8 then
          if length buf < 4 then Inl ANX_EINVAL
          else if b1 AND 0xC0 \<noteq> 0x80 \<or> b2 AND 0xC0 \<noteq> 0x80 \<or> b3 AND 0xC0 \<noteq> 0x80 then Inl ANX_EINVAL
          else
            let n = push_bit 18 (b0 AND 0x07) OR push_bit 12 (b1 AND 0x3F) OR
                    push_bit 6 (b2 AND 0x3F) OR (b3 AND 0x3F) in
            if n < 0x10000 then Inl ANX_EINVAL
            else if n > 0x10FFFF then Inl ANX_EINVAL
            else Inr (n, 4)
        else Inl ANX_EINVAL)"

subsection \<open>Base64 round trip\<close>

lemma u8_bit_high [simp]: "8 \<le> n \<Longrightarrow> \<not> bit (y :: u8) n"
  using bit_imp_le_length [of y n] by auto

lemma u32_bit_high [simp]: "32 \<le> n \<Longrightarrow> \<not> bit (y :: u32) n"
  using bit_imp_le_length [of y n] by auto

lemma u8_eqI:
  assumes "\<And>n. n \<in> {0, 1, 2, 3, 4, 5, 6, 7} \<Longrightarrow> bit a n = bit (b :: u8) n"
  shows "a = b"
proof (rule bit_word_eqI)
  fix n
  assume "n < LENGTH(8)"
  then have "n \<in> {0, 1, 2, 3, 4, 5, 6, 7}" by auto
  then show "bit a n = bit b n" by (rule assms)
qed

lemma b64_val_alphabet: "map b64_val B64_ENC = map int [0..<64]"
  by (simp add: B64_ENC_def b64_val_def upt_rec of_char_Char)

lemma b64_alphabet_pad: "pad \<notin> set B64_ENC"
  by (simp add: B64_ENC_def pad_def of_char_Char)

lemma b64_val_enc_all:
  assumes "k < 64"
  shows "b64_val (B64_ENC ! k) = int k" and "B64_ENC ! k \<noteq> pad"
proof -
  have len: "length B64_ENC = 64" by (simp add: B64_ENC_def)
  have "map b64_val B64_ENC ! k = int k" using assms by (simp add: b64_val_alphabet)
  then show "b64_val (B64_ENC ! k) = int k" using assms len by simp
  show "B64_ENC ! k \<noteq> pad"
    using b64_alphabet_pad assms len by (metis nth_mem)
qed

lemma b64_val_enc: "b64_val (b64_enc_char w) = uint (w AND 0x3F)" "b64_enc_char w \<noteq> pad"
proof -
  have "unat (w AND 0x3F) < 64"
  proof -
    have "w AND 0x3F = w AND mask 6" by (simp add: mask_eq_exp_minus_1)
    also have "\<dots> < 2 ^ 6" by (rule and_mask_less') simp
    finally show ?thesis by (simp add: word_less_nat_alt)
  qed
  then show "b64_val (b64_enc_char w) = uint (w AND 0x3F)" "b64_enc_char w \<noteq> pad"
    using b64_val_enc_all by (simp_all add: b64_enc_char_def)
qed

text \<open>The bytes that the decoder puts together from the sextets of a group.\<close>

definition b64_group :: "u8 \<Rightarrow> u8 \<Rightarrow> u8 \<Rightarrow> u32" where
  "b64_group x y z = push_bit 16 (ucast x) OR push_bit 8 (ucast y) OR ucast z"

lemma sextet_mask: "w AND 0x3F = take_bit 6 (w :: u32)"
  by (simp add: take_bit_eq_mask mask_eq_exp_minus_1)

lemma b64_sextets:
  fixes x y z :: u8
  defines "t \<equiv> b64_group x y z"
  shows "of_int (push_bit 2 (uint (drop_bit 18 t AND 0x3F)) OR drop_bit 4 (uint (drop_bit 12 t AND 0x3F))) = x"
    and "of_int (push_bit 4 (uint (drop_bit 12 t AND 0x3F)) OR drop_bit 2 (uint (drop_bit 6 t AND 0x3F))) = y"
    and "of_int (push_bit 6 (uint (drop_bit 6 t AND 0x3F)) OR uint (t AND 0x3F)) = z"
  unfolding t_def b64_group_def sextet_mask
  by (rule u8_eqI, elim insertE emptyE; simp add: bit_simps flip: numeral_2_eq_2)+

lemma b64_triple_group:
  "b64_triple [x] = b64_group x 0 0" "b64_triple [x, y] = b64_group x y 0"
  "b64_triple (x # y # z # src) = b64_group x y z"
  by (simp_all add: b64_triple_def b64_group_def or.assoc)

declare b64_decode_from.simps(1) [simp del]

lemma uint_and_nonneg [simp]: "\<not> uint (w :: u32) < 0" by (simp add: not_less)

lemma b64_decode_step:
  fixes x y z :: u8
  defines "t \<equiv> b64_group x y z"
  assumes "length dst + 3 \<le> cap"
  shows "b64_decode_from (b64_enc_char (drop_bit 18 t) # b64_enc_char (drop_bit 12 t)
     # b64_enc_char (drop_bit 6 t) # b64_enc_char t # src) dst cap
     = b64_decode_from src (dst @ [x, y, z]) cap"
  using assms(2)
  by (simp add: b64_decode_from.simps(1) b64_val_enc Let_def emit_def b64_sextets t_def)

lemma b64_decode_step2:
  fixes x y :: u8
  defines "t \<equiv> b64_group x y 0"
  assumes "length dst + 2 \<le> cap"
  shows "b64_decode_from [b64_enc_char (drop_bit 18 t), b64_enc_char (drop_bit 12 t),
     b64_enc_char (drop_bit 6 t), pad] dst cap = dst @ [x, y]"
  using assms(2)
  by (simp add: b64_decode_from.simps(1) b64_val_enc Let_def emit_def b64_sextets t_def)

lemma b64_decode_step1:
  fixes x :: u8
  defines "t \<equiv> b64_group x 0 0"
  assumes "length dst + 1 \<le> cap"
  shows "b64_decode_from [b64_enc_char (drop_bit 18 t), b64_enc_char (drop_bit 12 t), pad, pad] dst cap
     = dst @ [x]"
  using assms(2)
  by (simp add: b64_decode_from.simps(1) b64_val_enc Let_def emit_def b64_sextets t_def)

lemma b64_roundtrip:
  assumes "length dst + length src \<le> dcap" "out + (length src + 2) div 3 * 4 \<le> ecap"
  shows "b64_decode_from (b64_encode_from src out ecap) dst dcap = dst @ src"
  using assms
proof (induction src out ecap arbitrary: dst rule: b64_encode_from.induct)
  case (1 src out ecap)
  consider "src = []" | (One) x where "src = [x]" | (Two) x y where "src = [x, y]"
    | (More) x y z r where "src = x # y # z # r"
    by (metis list.exhaust)
  then show ?case
  proof cases
    case One
    then show ?thesis
      using "1.prems" b64_decode_step1 [of dst dcap x]
      by (simp add: b64_encode_from.simps [of "[x]"] b64_encode_from.simps [of "[]"]
        b64_triple_group Let_def)
  next
    case Two
    then show ?thesis
      using "1.prems" b64_decode_step2 [of dst dcap x y]
      by (simp add: b64_encode_from.simps [of "[x, y]"] b64_encode_from.simps [of "[]"]
        b64_triple_group Let_def)
  next
    case More
    have groups: "(length src + 2) div 3 = Suc ((length r + 2) div 3)"
      using More by simp
    have fit: "out + 4 \<le> ecap" "out + 4 + (length r + 2) div 3 * 4 \<le> ecap"
      using "1.prems"(2) unfolding groups by simp_all
    let ?t = "b64_group x y z"
    have enc: "b64_encode_from src out ecap = b64_enc_char (drop_bit 18 ?t) # b64_enc_char (drop_bit 12 ?t)
        # b64_enc_char (drop_bit 6 ?t) # b64_enc_char ?t # b64_encode_from r (out + 4) ecap"
      using More fit(1) by (subst b64_encode_from.simps) (simp add: b64_triple_group Let_def)
    have "b64_decode_from (b64_encode_from (drop 3 src) (out + 4) ecap) (dst @ [x, y, z]) dcap
        = (dst @ [x, y, z]) @ drop 3 src"
      using More "1.prems"(1) fit by (intro "1.IH") simp_all
    moreover have "length dst + 3 \<le> dcap" using More "1.prems"(1) by simp
    ultimately show ?thesis
      unfolding enc by (simp only: b64_decode_step) (simp add: More)
  qed (simp add: b64_encode_from.simps [of "[]"])
qed

subsection \<open>The CRC table and the bitwise definition\<close>

text \<open>The reference: each byte is folded into the low end and the register is shifted eight
  times by the reflected polynomial.\<close>

definition crc32_bitwise :: "u8 list \<Rightarrow> u32 \<Rightarrow> u32" where
  "crc32_bitwise = fold (\<lambda>b crc. crc32_shift 8 (crc XOR ucast b))"

definition crc_step :: "u32 \<Rightarrow> u32" where
  "crc_step c = (if c AND 1 \<noteq> 0 then 0xEDB88320 XOR drop_bit 1 c else drop_bit 1 c)"

lemma crc32_shift_Suc: "crc32_shift (Suc j) c = crc32_shift j (crc_step c)"
  by (simp add: crc_step_def)

declare crc32_shift.simps(2) [simp del]

lemma crc32_shift_pow: "crc32_shift n c = (crc_step ^^ n) c"
  by (induction n arbitrary: c) (simp_all add: crc32_shift_Suc funpow_Suc_right del: funpow.simps(2))

lemma xor_zero_iff: "a XOR b = (0 :: u32) \<longleftrightarrow> a = b"
  by (auto simp: bit_eq_iff bit_xor_iff)

lemma crc_step_odd: "crc_step c = (if bit c 0 then 0xEDB88320 else 0) XOR drop_bit 1 c"
  by (simp add: crc_step_def bit_0 and_one_eq mod2_eq_if)

lemma xor_cancel: "a XOR (a XOR b) = (b :: u32)"
  by (rule bit_word_eqI) (auto simp: bit_xor_iff)

lemma crc_step_linear: "crc_step (a XOR b) = crc_step a XOR crc_step b"
  by (auto simp: crc_step_odd bit_xor_iff drop_bit_xor xor_cancel xor.assoc xor.left_commute)

lemma crc_step_zero: "crc_step a = 0 \<longleftrightarrow> a = 0"
proof
  assume z: "crc_step a = 0"
  have "\<not> bit a 0"
  proof
    assume "bit a 0"
    with z have "(0xEDB88320 :: u32) = drop_bit 1 a" by (simp only: crc_step_odd if_True xor_zero_iff)
    then have "bit (0xEDB88320 :: u32) 31 = bit (drop_bit 1 a) 31" by simp
    then show False by (simp add: bit_drop_bit_eq)
  qed
  with z have low: "drop_bit 1 a = 0" by (simp add: crc_step_odd)
  have "bit a (Suc m) = bit (drop_bit 1 a) m" for m by (simp add: bit_drop_bit_eq)
  then have "\<not> bit a (Suc m)" for m by (simp only: low) simp
  with \<open>\<not> bit a 0\<close> have "\<not> bit a n" for n by (cases n) auto
  then show "a = 0" by (simp add: bit_eq_iff)
qed (simp add: crc_step_odd)

lemma crc_pow_linear: "(crc_step ^^ n) (a XOR b) = (crc_step ^^ n) a XOR (crc_step ^^ n) b"
  by (induction n) (simp_all add: crc_step_linear)

lemma crc_pow_inj: "(crc_step ^^ n) a = (crc_step ^^ n) b \<longleftrightarrow> a = b"
proof -
  have z: "(crc_step ^^ n) c = 0 \<longleftrightarrow> c = 0" for c
    by (induction n) (simp_all add: crc_step_zero)
  show ?thesis using z [of "a XOR b"] by (simp add: crc_pow_linear xor_zero_iff)
qed

text \<open>Shifting the register past zero low bits only moves it down.\<close>

lemma crc_pow_aligned: "(\<And>i. i < n \<Longrightarrow> \<not> bit x i) \<Longrightarrow> (crc_step ^^ n) x = drop_bit n x"
proof (induction n)
  case (Suc n)
  then have "(crc_step ^^ n) x = drop_bit n x" by simp
  moreover have "\<not> bit (drop_bit n x) 0" using Suc.prems [of n] by (simp add: bit_drop_bit_eq)
  ultimately show ?case by (simp add: crc_step_odd [of "drop_bit n x"])
qed simp

lemma crc32_byte_shift:
  "crc32_byte (map (\<lambda>i. crc32_shift 8 (of_nat i)) [0..<256]) b crc = crc32_shift 8 (crc XOR ucast b)"
proof -
  let ?x = "crc XOR ucast b :: u32" and ?lo = "(crc XOR ucast b) AND 0xFF :: u32"
  have lo: "?lo = take_bit 8 ?x" by (simp add: take_bit_eq_mask mask_eq_exp_minus_1)
  have "?lo < 2 ^ 8" unfolding lo take_bit_eq_mask by (rule and_mask_less') simp
  then have lt: "unat ?lo < 256" by (simp add: word_less_nat_alt)
  have hi: "drop_bit 8 crc = drop_bit 8 ?x"
    by (rule bit_word_eqI) (auto simp: bit_simps)
  have split: "?x = ?lo XOR (push_bit 8 (drop_bit 8 ?x))"
    unfolding lo by (rule bit_word_eqI) (auto simp: bit_simps)
  have "(crc_step ^^ 8) (push_bit 8 (drop_bit 8 ?x)) = drop_bit 8 (push_bit 8 (drop_bit 8 ?x))"
    by (rule crc_pow_aligned) (simp add: bit_simps)
  also have "\<dots> = drop_bit 8 ?x" by (rule bit_word_eqI) (auto simp: bit_simps dest: bit_imp_le_length)
  finally have up: "(crc_step ^^ 8) (push_bit 8 (drop_bit 8 ?x)) = drop_bit 8 ?x" .
  have "crc32_shift 8 ?x = (crc_step ^^ 8) ?lo XOR drop_bit 8 ?x"
    unfolding crc32_shift_pow by (subst split) (simp only: crc_pow_linear up)
  moreover have "map (\<lambda>i. crc32_shift 8 (of_nat i)) [0..<256] ! unat ?lo = (crc_step ^^ 8) ?lo"
    using lt by (simp add: crc32_shift_pow)
  ultimately show ?thesis by (simp only: crc32_byte_def hi)
qed

text \<open>The states of the table: not built yet, or built.\<close>

definition crc32_ok :: "crc32_st \<Rightarrow> bool" where
  "crc32_ok s \<longleftrightarrow> (crc32_ready s \<longrightarrow> crc32_table s = map (\<lambda>i. crc32_shift 8 (of_nat i)) [0..<256])"

lemma crc32_eq_bitwise:
  "crc32_ok s \<Longrightarrow> fst (anx_crc32 s data) = crc32_bitwise data 0xFFFFFFFF XOR 0xFFFFFFFF"
  "crc32_ok s \<Longrightarrow> crc32_ok (snd (anx_crc32 s data))"
  by (auto simp: anx_crc32_def crc32_ok_def crc32_init_def Let_def crc32_bitwise_def crc32_byte_shift [abs_def])

text \<open>A window of at most four bytes, as the register sees it.\<close>

fun crc_window :: "u8 list \<Rightarrow> u32" where
  "crc_window [] = 0"
| "crc_window (b # bs) = ucast b XOR push_bit 8 (crc_window bs)"

lemma bit_crc_window:
  "length bs \<le> 4 \<Longrightarrow> bit (crc_window bs) i \<longleftrightarrow> i div 8 < length bs \<and> bit (bs ! (i div 8)) (i mod 8)"
proof (induction bs arbitrary: i)
  case (Cons b bs)
  have step: "bit (crc_window (b # bs)) i \<longleftrightarrow> bit b i \<noteq> (8 \<le> i \<and> i < 32 \<and> bit (crc_window bs) (i - 8))"
    by (auto simp: bit_xor_iff bit_push_bit_iff bit_ucast_iff dest: bit_imp_le_length)
  show ?case
  proof (cases "i < 8")
    case True
    then show ?thesis by (simp only: step) simp
  next
    case False
    then have "i div 8 = Suc ((i - 8) div 8)" "i mod 8 = (i - 8) mod 8"
      by (simp_all add: le_div_geq le_mod_geq)
    moreover have "i < 32" if "i div 8 < length (b # bs)"
      using that Cons.prems by (simp add: div_less_iff_less_mult)
    ultimately show ?thesis
      using False Cons.IH [of "i - 8"] Cons.prems by (simp only: step) auto
  qed
qed simp

lemma crc_window_inj:
  assumes "length v = length w" "length w \<le> 4" "crc_window v = crc_window w"
  shows "v = w"
proof (rule nth_equalityI)
  fix k
  assume k: "k < length v"
  show "v ! k = w ! k"
  proof (rule bit_word_eqI)
    fix n
    assume "n < LENGTH(8)"
    then show "bit (v ! k) n = bit (w ! k) n"
      using bit_crc_window [of v "8 * k + n"] bit_crc_window [of w "8 * k + n"] assms k by simp
  qed
qed (rule assms(1))

lemma crc_bitwise_window:
  "length bs \<le> 4 \<Longrightarrow> crc32_bitwise bs c = (crc_step ^^ (8 * length bs)) (c XOR crc_window bs)"
proof (induction bs arbitrary: c)
  case Nil
  then show ?case by (simp add: crc32_bitwise_def)
next
  case (Cons b bs)
  let ?w = "crc_window bs"
  have "(crc_step ^^ 8) (push_bit 8 ?w) = drop_bit 8 (push_bit 8 ?w)"
    by (rule crc_pow_aligned) (simp add: bit_simps)
  also have "\<dots> = ?w"
    using Cons.prems by (intro bit_word_eqI) (auto simp: bit_simps bit_crc_window)
  finally have w: "(crc_step ^^ 8) (push_bit 8 ?w) = ?w" .
  have "crc32_bitwise (b # bs) c = crc32_bitwise bs ((crc_step ^^ 8) (c XOR ucast b))"
    by (simp add: crc32_bitwise_def crc32_shift_pow)
  then have "crc32_bitwise (b # bs) c = (crc_step ^^ (8 * length bs)) ((crc_step ^^ 8) (c XOR ucast b) XOR ?w)"
    using Cons by simp
  moreover have "(crc_step ^^ 8) (c XOR ucast b) XOR ?w = (crc_step ^^ 8) (c XOR crc_window (b # bs))"
    by (simp add: crc_pow_linear w flip: xor.assoc)
  moreover have "8 * length (b # bs) = 8 * length bs + 8" by simp
  ultimately show ?case by (simp only: funpow_add comp_apply)
qed

lemma xor_right_inj: "a XOR c = b XOR c \<longleftrightarrow> a = (b :: u32)"
  by (auto simp: bit_eq_iff bit_xor_iff)

lemma crc_bitwise_inj: "crc32_bitwise bs c = crc32_bitwise bs d \<longleftrightarrow> c = d"
proof (induction bs arbitrary: c d)
  case (Cons b bs)
  have "crc32_bitwise (b # bs) x = crc32_bitwise bs ((crc_step ^^ 8) (x XOR ucast b))" for x
    by (simp add: crc32_bitwise_def crc32_shift_pow)
  then show ?case using Cons by (simp add: crc_pow_inj xor_right_inj)
qed (simp add: crc32_bitwise_def)

subsection \<open>UTF-8: the decoder inverts the encoding and accepts nothing else\<close>

text \<open>The specification: the scalar values of Unicode and their encoding.\<close>

definition utf8_scalar :: "nat \<Rightarrow> bool" where
  "utf8_scalar c \<longleftrightarrow> c \<le> 0x10FFFF \<and> \<not> (0xD800 \<le> c \<and> c \<le> 0xDFFF)"

definition utf8_encode :: "nat \<Rightarrow> nat list" where
  "utf8_encode c =
     (if c < 0x80 then [c]
      else if c < 0x800 then [0xC0 + c div 64, 0x80 + c mod 64]
      else if c < 0x10000 then [0xE0 + c div 4096, 0x80 + c div 64 mod 64, 0x80 + c mod 64]
      else [0xF0 + c div 262144, 0x80 + c div 4096 mod 64, 0x80 + c div 64 mod 64, 0x80 + c mod 64])"

lemma nat_and_masks:
  "(x :: nat) AND 63 = x mod 64" "x AND 31 = x mod 32" "x AND 15 = x mod 16" "x AND 7 = x mod 8"
  using take_bit_eq_mask [of 6 x] take_bit_eq_mask [of 5 x] take_bit_eq_mask [of 4 x]
    take_bit_eq_mask [of 3 x]
  by (simp_all add: mask_eq_exp_minus_1 take_bit_eq_mod)

lemma nat_or_shift:
  assumes "b < 2 ^ k"
  shows "push_bit k a OR b = a * 2 ^ k + (b :: nat)"
proof -
  have b: "b = take_bit k b" using assms by (simp add: take_bit_nat_eq_self)
  have "\<not> (bit (push_bit k a) n \<and> bit b n)" for n
    by (subst b) (simp add: bit_push_bit_iff bit_take_bit_iff)
  then have "push_bit k a OR b = push_bit k a + b" by (subst disjunctive_add) auto
  then show ?thesis by (simp add: push_bit_eq_mult)
qed

lemma unat_or_shift:
  assumes "unat b < 2 ^ k" "unat a * 2 ^ k < 2 ^ 32"
  shows "unat (push_bit k a OR b :: u32) = unat a * 2 ^ k + unat b"
proof -
  have "unat (push_bit k a) = push_bit k (unat a)"
    using assms(2) unfolding unsigned_push_bit_eq by (simp add: take_bit_nat_eq_self push_bit_eq_mult)
  then show ?thesis
    using nat_or_shift [OF assms(1)] by (simp add: unsigned_or_eq)
qed

lemma byte_lt [simp]: "unat (b :: u8) < 256"
  using unsigned_less [of b] by simp

lemma unat_ucast_byte [simp]: "unat (ucast (b :: u8) :: u32) = unat b"
  by (simp add: unsigned_ucast_eq take_bit_nat_eq_self less_trans [OF byte_lt])

lemma low_bits:
  "unat ((ucast (b :: u8) :: u32) AND 0x3F) = unat b mod 64"
  "unat ((ucast (b :: u8) :: u32) AND 0x1F) = unat b mod 32"
  "unat ((ucast (b :: u8) :: u32) AND 0x0F) = unat b mod 16"
  "unat ((ucast (b :: u8) :: u32) AND 0x07) = unat b mod 8"
  by (simp_all add: unsigned_and_eq nat_and_masks)

lemma nat_and_high: "(x :: nat) AND push_bit k m = push_bit k (drop_bit k x AND m)"
  by (rule bit_eqI) (auto simp: bit_simps)

lemma cont_byte:
  "(ucast (b :: u8) :: u32) AND 0xC0 = 0x80 \<longleftrightarrow> unat b div 64 = 2"
proof -
  have "unat b div 64 < 4" using byte_lt [of b] by (simp add: div_less_iff_less_mult del: byte_lt)
  then have "(unat b div 64) AND 3 = unat b div 64"
    using take_bit_eq_mask [of 2 "unat b div 64"] by (simp add: mask_eq_exp_minus_1 take_bit_eq_mod)
  then have "unat b AND 0xC0 = unat b div 64 * 64"
    using nat_and_high [of "unat b" 6 3] by (simp add: drop_bit_eq_div push_bit_eq_mult)
  then show ?thesis
    by (simp add: word_unat_eq_iff unsigned_and_eq)
qed

lemma utf8_values:
  fixes b0 b1 b2 b3 :: u8
  shows "unat (push_bit 6 ((ucast b0 :: u32) AND 0x1F) OR ((ucast b1 :: u32) AND 0x3F))
      = unat b0 mod 32 * 64 + unat b1 mod 64"
    and "unat (push_bit 12 ((ucast b0 :: u32) AND 0x0F) OR push_bit 6 ((ucast b1 :: u32) AND 0x3F)
      OR ((ucast b2 :: u32) AND 0x3F)) = unat b0 mod 16 * 4096 + (unat b1 mod 64 * 64 + unat b2 mod 64)"
    and "unat (push_bit 18 ((ucast b0 :: u32) AND 0x07) OR push_bit 12 ((ucast b1 :: u32) AND 0x3F)
      OR push_bit 6 ((ucast b2 :: u32) AND 0x3F) OR ((ucast b3 :: u32) AND 0x3F))
      = unat b0 mod 8 * 262144 + (unat b1 mod 64 * 4096 + (unat b2 mod 64 * 64 + unat b3 mod 64))"
proof -
  have m: "x mod 64 < 64" "x mod 32 < 32" "x mod 16 < 16" "x mod 8 < 8" for x :: nat by simp_all
  have two: "unat (push_bit 6 ((ucast x :: u32) AND 0x3F) OR ((ucast y :: u32) AND 0x3F))
      = unat x mod 64 * 64 + unat y mod 64" for x y :: u8
    using m(1) [of "unat x"] by (subst unat_or_shift) (simp_all add: low_bits)
  have three: "unat (push_bit 12 ((ucast x :: u32) AND 0x3F) OR push_bit 6 ((ucast y :: u32) AND 0x3F)
      OR ((ucast z :: u32) AND 0x3F)) = unat x mod 64 * 4096 + (unat y mod 64 * 64 + unat z mod 64)"
    for x y z :: u8
    using m(1) [of "unat x"] m(1) [of "unat y"] m(1) [of "unat z"]
    by (subst unat_or_shift) (simp_all only: two low_bits, simp_all)
  show "unat (push_bit 6 ((ucast b0 :: u32) AND 0x1F) OR ((ucast b1 :: u32) AND 0x3F))
      = unat b0 mod 32 * 64 + unat b1 mod 64"
    using m(2) [of "unat b0"] by (subst unat_or_shift) (simp_all add: low_bits)
  show "unat (push_bit 12 ((ucast b0 :: u32) AND 0x0F) OR push_bit 6 ((ucast b1 :: u32) AND 0x3F)
      OR ((ucast b2 :: u32) AND 0x3F)) = unat b0 mod 16 * 4096 + (unat b1 mod 64 * 64 + unat b2 mod 64)"
    using m(3) [of "unat b0"] m(1) [of "unat b1"] m(1) [of "unat b2"]
    by (subst unat_or_shift) (simp_all only: two low_bits, simp_all)
  show "unat (push_bit 18 ((ucast b0 :: u32) AND 0x07) OR push_bit 12 ((ucast b1 :: u32) AND 0x3F)
      OR push_bit 6 ((ucast b2 :: u32) AND 0x3F) OR ((ucast b3 :: u32) AND 0x3F))
      = unat b0 mod 8 * 262144 + (unat b1 mod 64 * 4096 + (unat b2 mod 64 * 64 + unat b3 mod 64))"
    using m(4) [of "unat b0"] m(1) [of "unat b1"] m(1) [of "unat b2"] m(1) [of "unat b3"]
    by (subst unat_or_shift) (simp_all only: three low_bits, simp_all)
qed

text \<open>The decoder over the byte values.\<close>

lemma utf8_decode_nat:
  "anx_utf8_decode buf =
     (if buf = [] then Inl ANX_EINVAL
      else
        let p0 = unat (buf ! 0); p1 = unat (buf ! 1); p2 = unat (buf ! 2); p3 = unat (buf ! 3) in
        if p0 < 128 then Inr (of_nat p0, 1)
        else if p0 < 192 then Inl ANX_EINVAL
        else if p0 < 224 then
          let n = p0 mod 32 * 64 + p1 mod 64 in
          if length buf < 2 \<or> p1 div 64 \<noteq> 2 \<or> n < 128 then Inl ANX_EINVAL else Inr (of_nat n, 2)
        else if p0 < 240 then
          let n = p0 mod 16 * 4096 + (p1 mod 64 * 64 + p2 mod 64) in
          if length buf < 3 \<or> p1 div 64 \<noteq> 2 \<or> p2 div 64 \<noteq> 2 \<or> n < 2048 \<or> 55296 \<le> n \<and> n \<le> 57343
          then Inl ANX_EINVAL else Inr (of_nat n, 3)
        else if p0 < 248 then
          let n = p0 mod 8 * 262144 + (p1 mod 64 * 4096 + (p2 mod 64 * 64 + p3 mod 64)) in
          if length buf < 4 \<or> p1 div 64 \<noteq> 2 \<or> p2 div 64 \<noteq> 2 \<or> p3 div 64 \<noteq> 2 \<or> n < 65536 \<or> n > 1114111
          then Inl ANX_EINVAL else Inr (of_nat n, 4)
        else Inl ANX_EINVAL)"
  unfolding anx_utf8_decode_def Let_def
  by (simp add: word_less_nat_alt word_le_nat_alt cont_byte utf8_values flip: utf8_values)

lemma cont_arith: "(0x80 + m mod 64) mod 64 = m mod (64::nat)" "(0x80 + m mod 64) div 64 = (2::nat)"
proof -
  have "m mod 64 < 64" by simp
  then show "(0x80 + m mod 64) mod 64 = m mod (64::nat)" "(0x80 + m mod 64) div 64 = (2::nat)"
    by (simp_all add: div_nat_eqI mod_nat_eqI)
qed

lemma split_sextets:
  "c div 4096 * 4096 + (c div 64 mod 64 * 64 + c mod 64) = (c :: nat)"
  "c div 262144 * 262144 + (c div 4096 mod 64 * 4096 + (c div 64 mod 64 * 64 + c mod 64)) = c"
proof -
  let ?q = "c div 64"
  have q: "?q div 64 = c div 4096" "?q div 4096 = c div 262144"
    by (simp_all flip: div_mult2_eq)
  have r: "c div 4096 div 64 = c div 262144" by (simp flip: div_mult2_eq)
  note d = div_mult_mod_eq [of c 64] div_mult_mod_eq [of ?q 64] div_mult_mod_eq [of "c div 4096" 64]
  show "c div 4096 * 4096 + (c div 64 mod 64 * 64 + c mod 64) = c"
    using d q by linarith
  show "c div 262144 * 262144 + (c div 4096 mod 64 * 4096 + (c div 64 mod 64 * 64 + c mod 64)) = c"
    using d q r by linarith
qed

lemma utf8_encode_decode:
  assumes "utf8_scalar c" "map unat bs = utf8_encode c"
  shows "anx_utf8_decode (bs @ rest) = Inr (of_nat c, length bs)"
proof -
  consider (1) "c < 0x80" | (2) "0x80 \<le> c" "c < 0x800" | (3) "0x800 \<le> c" "c < 0x10000"
    | (4) "0x10000 \<le> c" by linarith
  then show ?thesis
  proof cases
    case 1
    then obtain b0 where "bs = [b0]" "unat b0 = c"
      using assms(2) by (auto simp: utf8_encode_def)
    then show ?thesis using 1 by (simp add: utf8_decode_nat)
  next
    case 2
    then obtain b0 b1 where "bs = [b0, b1]" "unat b0 = 0xC0 + c div 64" "unat b1 = 0x80 + c mod 64"
      using assms(2) by (auto simp: utf8_encode_def map_eq_Cons_conv)
    moreover have "c div 64 < 32" using 2 by (simp add: div_less_iff_less_mult)
    then have "(0xC0 + c div 64) mod 32 = c div 64" "0xC0 + c div 64 < 224"
      by (simp_all add: mod_nat_eqI)
    ultimately show ?thesis using 2 by (simp add: utf8_decode_nat Let_def cont_arith)
  next
    case 3
    then obtain b0 b1 b2 where "bs = [b0, b1, b2]" "unat b0 = 0xE0 + c div 4096"
      "unat b1 = 0x80 + c div 64 mod 64" "unat b2 = 0x80 + c mod 64"
      using assms(2) by (auto simp: utf8_encode_def map_eq_Cons_conv)
    moreover have "c div 4096 < 16" using 3 by (simp add: div_less_iff_less_mult)
    then have "(0xE0 + c div 4096) mod 16 = c div 4096" "0xE0 + c div 4096 < 240"
      by (simp_all add: mod_nat_eqI)
    ultimately show ?thesis
      using 3 assms(1) by (simp add: utf8_decode_nat Let_def utf8_scalar_def cont_arith split_sextets)
  next
    case 4
    then obtain b0 b1 b2 b3 where "bs = [b0, b1, b2, b3]" "unat b0 = 0xF0 + c div 262144"
      "unat b1 = 0x80 + c div 4096 mod 64" "unat b2 = 0x80 + c div 64 mod 64" "unat b3 = 0x80 + c mod 64"
      using assms(2) by (auto simp: utf8_encode_def map_eq_Cons_conv)
    moreover have "c \<le> 0x10FFFF" using assms(1) by (simp add: utf8_scalar_def)
    moreover have "c div 262144 < 8" using \<open>c \<le> 0x10FFFF\<close> by (simp add: div_less_iff_less_mult)
    then have "(0xF0 + c div 262144) mod 8 = c div 262144" "0xF0 + c div 262144 < 248"
      by (simp_all add: mod_nat_eqI)
    ultimately show ?thesis
      using 4 by (simp add: utf8_decode_nat Let_def cont_arith split_sextets)
  qed
qed

lemma lead_arith:
  "192 \<le> p \<Longrightarrow> p < 224 \<Longrightarrow> p = 0xC0 + p mod (32::nat)"
  "224 \<le> p \<Longrightarrow> p < 240 \<Longrightarrow> p = 0xE0 + p mod (16::nat)"
  "240 \<le> p \<Longrightarrow> p < 248 \<Longrightarrow> p = 0xF0 + p mod (8::nat)"
  "p div 64 = 2 \<Longrightarrow> p = 0x80 + p mod (64::nat)"
  using div_mult_mod_eq [of p 32] div_nat_eqI [of 32 6 p] div_mult_mod_eq [of p 16] div_nat_eqI [of 16 14 p]
    div_mult_mod_eq [of p 8] div_nat_eqI [of 8 30 p] div_mult_mod_eq [of p 64]
  by simp_all

lemma join_sextets:
  assumes "(x::nat) < 64" "(y::nat) < 64" "(z::nat) < 64"
  shows "(a * 64 + z) div 64 = a" "(a * 64 + z) mod 64 = z"
    and "(a * 4096 + (y * 64 + z)) div 4096 = a" "(a * 4096 + (y * 64 + z)) div 64 mod 64 = y"
    "(a * 4096 + (y * 64 + z)) mod 64 = z"
    and "(a * 262144 + (x * 4096 + (y * 64 + z))) div 262144 = a"
    "(a * 262144 + (x * 4096 + (y * 64 + z))) div 4096 mod 64 = x"
    "(a * 262144 + (x * 4096 + (y * 64 + z))) div 64 mod 64 = y"
    "(a * 262144 + (x * 4096 + (y * 64 + z))) mod 64 = z"
proof -
  have s: "(k * 64 + w) div 64 = k" "(k * 64 + w) mod 64 = w" if "w < 64" for k w :: nat
    using that by simp_all
  have e: "a * 4096 + (y * 64 + z) = (a * 64 + y) * 64 + z"
    "a * 262144 + (x * 4096 + (y * 64 + z)) = ((a * 64 + x) * 64 + y) * 64 + z" by simp_all
  have d: "k div 4096 = k div 64 div 64" "k div 262144 = k div 64 div 64 div 64" for k :: nat
    by (simp_all flip: div_mult2_eq)
  show "(a * 64 + z) div 64 = a" "(a * 64 + z) mod 64 = z"
    by (rule s, rule assms)+
  show "(a * 4096 + (y * 64 + z)) div 4096 = a" "(a * 4096 + (y * 64 + z)) div 64 mod 64 = y"
    "(a * 4096 + (y * 64 + z)) mod 64 = z"
    unfolding e d by (simp_all only: s assms)
  show "(a * 262144 + (x * 4096 + (y * 64 + z))) div 262144 = a"
    "(a * 262144 + (x * 4096 + (y * 64 + z))) div 4096 mod 64 = x"
    "(a * 262144 + (x * 4096 + (y * 64 + z))) div 64 mod 64 = y"
    "(a * 262144 + (x * 4096 + (y * 64 + z))) mod 64 = z"
    unfolding e d by (simp_all only: s assms)
qed

lemma utf8_decode_strict:
  assumes "anx_utf8_decode buf = Inr (c, n)"
  shows "utf8_scalar (unat c) \<and> map unat (take n buf) = utf8_encode (unat c)"
proof -
  define p where "p k = unat (buf ! k)" for k
  let ?x = "p 1 mod 64" and ?y = "p 2 mod 64" and ?z = "p 3 mod 64"
  let ?n2 = "p 0 mod 32 * 64 + ?x" and ?n3 = "p 0 mod 16 * 4096 + (?x * 64 + ?y)"
  let ?n4 = "p 0 mod 8 * 262144 + (?x * 4096 + (?y * 64 + ?z))"
  have sext: "?x < 64" "?y < 64" "?z < 64" by simp_all
  have lead: "p 0 mod 32 < 32" "p 0 mod 16 < 16" "p 0 mod 8 < 8" by simp_all
  have u: "unat (of_nat k :: u32) = k" if "k < 2097152" for k
    using that by (intro unat_of_nat_u32) simp
  have t: "map unat (take (Suc k) buf) = map unat (take k buf) @ [p k]" if "k < length buf" for k
    using that by (simp add: take_Suc_conv_app_nth p_def)
  have one: "map unat (take (Suc 0) buf) = [p 0]" if "1 \<le> length buf"
    using t [of 0] that by (cases buf) simp_all
  have two: "map unat (take (Suc (Suc 0)) buf) = [p 0, p 1]" if "2 \<le> length buf"
    using t [of 1] one that by simp
  have three: "map unat (take (Suc (Suc (Suc 0))) buf) = [p 0, p 1, p 2]" if "3 \<le> length buf"
    using t [of 2] two that by (simp add: numeral_2_eq_2)
  have four: "map unat (take (Suc (Suc (Suc (Suc 0)))) buf) = [p 0, p 1, p 2, p 3]" if "4 \<le> length buf"
    using t [of 3] three that by (simp add: numeral_3_eq_3)
  have ne: "buf \<noteq> []" using assms by (auto simp: anx_utf8_decode_def)
  note dec = assms [unfolded utf8_decode_nat Let_def, folded p_def]
  consider (1) "p 0 < 128" | (2) "192 \<le> p 0" "p 0 < 224" | (3) "224 \<le> p 0" "p 0 < 240"
    | (4) "240 \<le> p 0" "p 0 < 248"
    using dec by (force split: if_splits)
  then show ?thesis
  proof cases
    case 1
    then show ?thesis using dec ne t [of 0] u [of "p 0"] by (simp add: utf8_encode_def utf8_scalar_def)
  next
    case 2
    then have n: "n = Suc (Suc 0)" "c = of_nat ?n2" "128 \<le> ?n2" "2 \<le> length buf" "p 1 div 64 = 2"
      using dec ne by (auto split: if_splits)
    have lt: "?n2 < 2048" using sext lead by linarith
    have "utf8_encode ?n2 = [p 0, p 1]"
      unfolding utf8_encode_def using lt n(3) lead_arith(1) [OF 2] lead_arith(4) [OF n(5)]
      by (simp only: join_sextets(1,2) [OF sext(1) sext(1) sext(1)] not_less [symmetric]) simp
    then show ?thesis using n(2) u [of ?n2] lt by (simp only: n(1) two [OF n(4)]) (simp add: utf8_scalar_def)
  next
    case 3
    then have n: "n = Suc (Suc (Suc 0))" "c = of_nat ?n3" "2048 \<le> ?n3" "3 \<le> length buf"
      "p 1 div 64 = 2" "p 2 div 64 = 2" "\<not> (55296 \<le> ?n3 \<and> ?n3 \<le> 57343)"
      using dec ne by (auto split: if_splits)
    have lt: "?n3 < 65536" using sext lead by linarith
    have "utf8_encode ?n3 = [p 0, p 1, p 2]"
      unfolding utf8_encode_def
      using lt n(3) lead_arith(2) [OF 3] lead_arith(4) [OF n(5)] lead_arith(4) [OF n(6)]
      by (simp only: join_sextets(3-5) [OF sext(1) sext(1) sext(2)] not_less [symmetric]) simp
    then show ?thesis
      using n(2,7) u [of ?n3] lt by (simp only: n(1) three [OF n(4)]) (simp add: utf8_scalar_def)
  next
    case 4
    then have n: "n = Suc (Suc (Suc (Suc 0)))" "c = of_nat ?n4" "65536 \<le> ?n4" "?n4 \<le> 1114111"
      "4 \<le> length buf" "p 1 div 64 = 2" "p 2 div 64 = 2" "p 3 div 64 = 2"
      using dec ne by (auto split: if_splits)
    have "utf8_encode ?n4 = [p 0, p 1, p 2, p 3]"
      unfolding utf8_encode_def
      using n(3) lead_arith(3) [OF 4] lead_arith(4) [OF n(6)] lead_arith(4) [OF n(7)] lead_arith(4) [OF n(8)]
      by (simp only: join_sextets(6-9) [OF sext] not_less [symmetric]) simp
    then show ?thesis
      using n(2-4) u [of ?n4] by (simp only: n(1) four [OF n(5)]) (simp add: utf8_scalar_def)
  qed
qed

subsection \<open>Properties\<close>

text \<open>C35: Base64 decoding inverts base64 encoding for every byte string, whenever the two
  output buffers are large enough (four characters per started group of three bytes, and the
  length of the data).\<close>

theorem base64_decode_encode:
  assumes "4 * ((length src + 2) div 3) \<le> enc_cap" "length src \<le> dec_cap"
  shows "anx_base64_decode (anx_base64_encode src enc_cap) dec_cap = src"
  unfolding anx_base64_encode_def anx_base64_decode_def
  using b64_roundtrip [of "[]" src dec_cap 0 enc_cap] assms by simp

theorem base64_decode_encode_witness:
  "anx_base64_decode (anx_base64_encode [1, 2, 3, 255] 8) 4 = [1, 2, 3, 255]"
  using base64_decode_encode [of "[1, 2, 3, 255]" 8 4] by simp

text \<open>The reference: a register into which the message is shifted bit by bit, the lowest bit of
  a byte first, and which is reduced by the IEEE 802.3 polynomial, given here in its normal
  form and mirrored.\<close>

definition mirror32 :: "u32 \<Rightarrow> u32" where
  "mirror32 p = horner_sum of_bool 2 (map (\<lambda>i. bit p (31 - i)) [0..<32])"

definition crc_serial :: "bool \<Rightarrow> u32 \<Rightarrow> u32" where
  "crc_serial b c = (if bit c 0 \<noteq> b then drop_bit 1 c XOR mirror32 0x04C11DB7 else drop_bit 1 c)"

definition byte_bits :: "u8 \<Rightarrow> bool list" where
  "byte_bits b = map (bit b) [0..<8]"

lemma mirror_poly: "mirror32 0x04C11DB7 = 0xEDB88320"
  by (simp add: mirror32_def upt_rec bit_numeral_rec)

lemma crc_serial_step: "crc_serial b c = crc_step (c XOR of_bool b)"
proof -
  have d: "drop_bit 1 (c XOR of_bool b) = drop_bit 1 c" by (cases b) (simp_all add: drop_bit_xor)
  have o: "bit (c XOR of_bool b) 0 \<longleftrightarrow> bit c 0 \<noteq> b" by (simp add: bit_xor_iff bit_of_bool_iff)
  show ?thesis unfolding crc_step_odd d o by (simp add: crc_serial_def mirror_poly xor.commute)
qed

lemma crc_serial_bits:
  "n \<le> 32 \<Longrightarrow> fold crc_serial (map (bit x) [0..<n]) c = (crc_step ^^ n) (c XOR take_bit n x)" for x :: u32
proof (induction n)
  case (Suc n)
  let ?b = "of_bool (bit x n) :: u32"
  have "(crc_step ^^ n) (push_bit n ?b) = drop_bit n (push_bit n ?b)" by (rule crc_pow_aligned) (simp add: bit_simps)
  also have "\<dots> = ?b" using Suc.prems by (intro bit_word_eqI) (auto simp: bit_simps)
  finally have b: "(crc_step ^^ n) (push_bit n ?b) = ?b" .
  have "take_bit (Suc n) x = take_bit n x XOR push_bit n ?b"
    using Suc.prems by (intro bit_word_eqI) (auto simp: bit_simps less_Suc_eq)
  then show ?case using Suc by (simp add: crc_serial_step crc_pow_linear b flip: xor.assoc)
qed simp

lemma crc_serial_byte: "fold crc_serial (byte_bits b) c = crc32_shift 8 (c XOR ucast b)"
proof -
  have "byte_bits b = map (bit (ucast b :: u32)) [0..<8]" by (simp add: byte_bits_def bit_simps)
  moreover have "take_bit 8 (ucast b :: u32) = ucast b" by (intro bit_word_eqI) (auto simp: bit_simps dest: bit_imp_le_length)
  ultimately show ?thesis using crc_serial_bits [of 8 "ucast b" c] by (simp add: crc32_shift_pow)
qed

lemma crc_serial_bytes: "fold crc_serial (concat (map byte_bits data)) c = crc32_bitwise data c"
  by (induction data arbitrary: c) (simp_all add: crc32_bitwise_def crc_serial_byte)

text \<open>C34: The table-driven CRC-32 equals the bit-serial division by the IEEE 802.3 polynomial, with the
  initial value and the final complement of the standard, on a fresh state and on one whose table was built
  by an earlier call, and every call leaves the table in such a state.\<close>

theorem crc32_table_correct:
  assumes "crc32_ok s"
  shows "fst (anx_crc32 s data) = NOT (fold crc_serial (concat (map byte_bits data)) (- 1))
    \<and> crc32_ok (snd (anx_crc32 s data))"
proof -
  have m: "(0xFFFFFFFF :: u32) = - 1" by simp
  show ?thesis using crc32_eq_bitwise [OF assms] unfolding crc_serial_bytes m by (simp add: xor.commute)
qed

theorem crc32_table_correct_witness:
  "fst (anx_crc32 \<lparr>crc32_table = [], crc32_ready = False\<rparr> [97])
    = NOT (fold crc_serial [True, False, False, False, False, True, True, False] (- 1))"
proof -
  have "byte_bits 97 = [True, False, False, False, False, True, True, False]" by (simp add: byte_bits_def upt_rec bit_numeral_rec)
  then show ?thesis using crc32_table_correct [of "\<lparr>crc32_table = [], crc32_ready = False\<rparr>" "[97]"] by (simp add: crc32_ok_def)
qed

text \<open>C33: The CRC detects every error burst of up to four bytes: two messages that differ
  only inside a window of at most four consecutive bytes never have the same CRC.\<close>

theorem crc32_detects_burst:
  assumes "crc32_ok s" "length v = length w" "length w \<le> 4" "v \<noteq> w"
  shows "fst (anx_crc32 s (pre @ v @ post)) \<noteq> fst (anx_crc32 s (pre @ w @ post))"
proof -
  let ?c = "crc32_bitwise pre 0xFFFFFFFF"
  have app: "crc32_bitwise (a @ b) c = crc32_bitwise b (crc32_bitwise a c)" for a b c
    by (simp add: crc32_bitwise_def)
  have win: "crc32_bitwise v ?c \<noteq> crc32_bitwise w ?c"
  proof
    assume "crc32_bitwise v ?c = crc32_bitwise w ?c"
    then have "?c XOR crc_window v = ?c XOR crc_window w"
      using assms(2,3) by (simp add: crc_bitwise_window crc_pow_inj)
    then have "crc_window v = crc_window w" by (metis xor_cancel)
    then show False using crc_window_inj [OF assms(2,3)] assms(4) by blast
  qed
  show ?thesis
    using win by (simp add: crc32_eq_bitwise(1) [OF assms(1)] app crc_bitwise_inj xor_right_inj)
qed

theorem crc32_detects_burst_witness:
  "fst (anx_crc32 \<lparr>crc32_table = [], crc32_ready = False\<rparr> ([1] @ [2, 3] @ [4]))
    \<noteq> fst (anx_crc32 \<lparr>crc32_table = [], crc32_ready = False\<rparr> ([1] @ [3, 2] @ [4]))"
  using crc32_detects_burst [of "\<lparr>crc32_table = [], crc32_ready = False\<rparr>" "[2, 3]" "[3, 2]" "[1]" "[4]"]
  by (simp add: crc32_ok_def)

text \<open>C32: The UTF-8 decoder returns a code point and a length exactly when the buffer starts
  with the shortest encoding of that code point and the code point is a Unicode scalar value:
  every valid sequence is decoded, and overlong forms, surrogates, values above U+10FFFF,
  stray continuation bytes and truncated sequences are all refused.\<close>

theorem utf8_decode_iff:
  "anx_utf8_decode buf = Inr (c, n) \<longleftrightarrow>
     utf8_scalar (unat c) \<and> n = length (utf8_encode (unat c)) \<and> map unat (take n buf) = utf8_encode (unat c)"
proof
  assume dec: "anx_utf8_decode buf = Inr (c, n)"
  note strict = utf8_decode_strict [OF dec]
  then have "anx_utf8_decode (take n buf @ drop n buf) = Inr (of_nat (unat c), length (take n buf))"
    by (intro utf8_encode_decode) simp_all
  with dec have "n = length (take n buf)" by simp
  also have "\<dots> = length (utf8_encode (unat c))" using strict by (metis length_map)
  finally show "utf8_scalar (unat c) \<and> n = length (utf8_encode (unat c))
      \<and> map unat (take n buf) = utf8_encode (unat c)"
    using strict by blast
next
  assume spec: "utf8_scalar (unat c) \<and> n = length (utf8_encode (unat c))
      \<and> map unat (take n buf) = utf8_encode (unat c)"
  then have "anx_utf8_decode (take n buf @ drop n buf) = Inr (of_nat (unat c), length (take n buf))"
    by (intro utf8_encode_decode) blast+
  moreover have "length (take n buf) = n" using spec by (metis length_map)
  ultimately show "anx_utf8_decode buf = Inr (c, n)" by simp
qed

end
