(* ===== verification/Blk.thy ===== *)
theory Blk
  imports Prelude
begin

text \<open>
  The block-device registry of \<^verbatim>\<open>kernel/drivers/storage/blk.c\<close> and the partition
  devices of \<^verbatim>\<open>part.c\<close>. A pointer to a registry entry is the index of its slot, a
  pointer into the partition pool an index of the pool, a null pointer \<open>None\<close>. A transfer
  buffer is a list of sectors. The operation table of a device, three function pointers in C,
  is a tag; what a tag stands for is an argument of the dispatching functions
  (\<open>blk_tab\<close>), because the drivers behind it are hardware.
\<close>

subsection \<open>State\<close>

type_synonym sector = "u8 list"

datatype blk_ops = OpsDriver | OpsPart | OpsMd

record anx_blk_dev =
  bd_ops :: "blk_ops option"
  bd_priv :: nat
  bd_name :: string
  bd_flags :: u32
  bd_used :: bool

record anx_part =
  p_parent :: "nat option"
  p_start_lba :: u64
  p_sectors :: u64
  p_index :: u32
  p_type_lo :: u64
  p_type_hi :: u64
  p_label :: string

record blk_state =
  blk_devs :: "anx_blk_dev list"
  active_dev :: "nat option"
  part_pool :: "anx_part list"

text \<open>One level of the dispatch: how a device in a given slot is read, written and measured.\<close>

record 's blk_io =
  io_read :: "nat \<Rightarrow> u64 \<Rightarrow> u32 \<Rightarrow> 's \<Rightarrow> (int \<times> sector list) \<times> 's"
  io_write :: "nat \<Rightarrow> u64 \<Rightarrow> u32 \<Rightarrow> sector list \<Rightarrow> 's \<Rightarrow> int \<times> 's"
  io_capacity :: "nat \<Rightarrow> 's \<Rightarrow> u64"

definition ANX_BLK_MAX_DEVS :: nat where "ANX_BLK_MAX_DEVS = 32"

definition ANX_BLK_NAME_MAX :: nat where "ANX_BLK_NAME_MAX = 16"

definition ANX_BLK_F_ARRAY :: u32 where "ANX_BLK_F_ARRAY = 1"

definition ANX_BLK_F_MEMBER :: u32 where "ANX_BLK_F_MEMBER = 2"

definition PART_MAX :: nat where "PART_MAX = ANX_BLK_MAX_DEVS * 2"

definition blk_dev_null :: anx_blk_dev where
  "blk_dev_null = \<lparr>bd_ops = None, bd_priv = 0, bd_name = [], bd_flags = 0, bd_used = False\<rparr>"

definition part_null :: anx_part where
  "part_null = \<lparr>p_parent = None, p_start_lba = 0, p_sectors = 0, p_index = 0, p_type_lo = 0,
     p_type_hi = 0, p_label = []\<rparr>"

text \<open>The static tables before the first registration.\<close>

definition blk_boot :: blk_state where
  "blk_boot = \<lparr>blk_devs = replicate ANX_BLK_MAX_DEVS blk_dev_null, active_dev = None,
     part_pool = replicate PART_MAX part_null\<rparr>"

abbreviation dev_at :: "'a blk_state_scheme \<Rightarrow> nat \<Rightarrow> anx_blk_dev" where
  "dev_at s i \<equiv> blk_devs s ! i"

definition set_dev :: "nat \<Rightarrow> anx_blk_dev \<Rightarrow> 'a blk_state_scheme \<Rightarrow> 'a blk_state_scheme" where
  "set_dev i d s = s\<lparr>blk_devs := (blk_devs s)[i := d]\<rparr>"

subsection \<open>The registry\<close>

definition name_taken :: "'a blk_state_scheme \<Rightarrow> string \<Rightarrow> bool" where
  "name_taken s n \<longleftrightarrow> list_ex (\<lambda>d. bd_used d \<and> bd_name d = n) (blk_devs s)"

definition digit :: "nat \<Rightarrow> char" where "digit k = char_of (48 + k mod 10)"

definition blk_cand :: "string \<Rightarrow> nat \<Rightarrow> string" where
  "blk_cand base n =
     (let cand = take (ANX_BLK_NAME_MAX - 1) base;
          len = (if length cand + 4 \<ge> ANX_BLK_NAME_MAX then ANX_BLK_NAME_MAX - 5 else length cand) in
      take len cand @ (if n \<ge> 100 then [digit (n div 100)] else [])
        @ (if n \<ge> 10 then [digit (n div 10)] else []) @ [digit n])"

definition blk_pick_name :: "'a blk_state_scheme \<Rightarrow> string \<Rightarrow> string" where
  "blk_pick_name s base =
     (case find (\<lambda>n. \<not> name_taken s (blk_cand base n)) [0..<1000] of
        Some n \<Rightarrow> blk_cand base n
      | None \<Rightarrow> take (ANX_BLK_NAME_MAX - 1) base)"

definition free_slot :: "'a blk_state_scheme \<Rightarrow> nat option" where
  "free_slot s = find (\<lambda>i. \<not> bd_used (dev_at s i)) [0..<length (blk_devs s)]"

definition anx_blk_dev_register ::
    "blk_ops \<Rightarrow> nat \<Rightarrow> string \<Rightarrow> 'a blk_state_scheme \<Rightarrow> nat option \<times> 'a blk_state_scheme" where
  "anx_blk_dev_register ops priv base s =
     (case free_slot s of
        None \<Rightarrow> (None, s)
      | Some i \<Rightarrow>
          let d = (dev_at s i)\<lparr>bd_ops := Some ops, bd_priv := priv, bd_flags := 0, bd_used := True\<rparr>;
              s1 = set_dev i d s;
              s2 = set_dev i (d\<lparr>bd_name := blk_pick_name s1 base\<rparr>) s1 in
          (Some i, if active_dev s2 = None then s2\<lparr>active_dev := Some i\<rparr> else s2))"

definition anx_blk_dev_find :: "string \<Rightarrow> 'a blk_state_scheme \<Rightarrow> nat option" where
  "anx_blk_dev_find n s =
     find (\<lambda>i. bd_used (dev_at s i) \<and> bd_name (dev_at s i) = n) [0..<length (blk_devs s)]"

definition anx_blk_dev_register_named ::
    "blk_ops \<Rightarrow> nat \<Rightarrow> string \<Rightarrow> 'a blk_state_scheme \<Rightarrow> nat option \<times> 'a blk_state_scheme" where
  "anx_blk_dev_register_named ops priv nm s =
     (if anx_blk_dev_find nm s \<noteq> None then (None, s)
      else case free_slot s of
        None \<Rightarrow> (None, s)
      | Some i \<Rightarrow> (Some i, set_dev i ((dev_at s i)\<lparr>bd_ops := Some ops, bd_priv := priv,
          bd_flags := 0, bd_used := True, bd_name := take (ANX_BLK_NAME_MAX - 1) nm\<rparr>) s))"

definition used_slots :: "'a blk_state_scheme \<Rightarrow> nat list" where
  "used_slots s = filter (\<lambda>i. bd_used (dev_at s i)) [0..<length (blk_devs s)]"

definition anx_blk_dev_count :: "'a blk_state_scheme \<Rightarrow> nat" where
  "anx_blk_dev_count s = length (used_slots s)"

definition anx_blk_dev_at :: "nat \<Rightarrow> 'a blk_state_scheme \<Rightarrow> nat option" where
  "anx_blk_dev_at index s = (if index < length (used_slots s) then Some (used_slots s ! index) else None)"

definition anx_blk_dev_claim :: "nat \<Rightarrow> 'a blk_state_scheme \<Rightarrow> 'a blk_state_scheme" where
  "anx_blk_dev_claim i s =
     set_dev i ((dev_at s i)\<lparr>bd_flags := bd_flags (dev_at s i) OR ANX_BLK_F_MEMBER\<rparr>) s"

definition anx_blk_dev_release :: "nat \<Rightarrow> 'a blk_state_scheme \<Rightarrow> 'a blk_state_scheme" where
  "anx_blk_dev_release i s =
     set_dev i ((dev_at s i)\<lparr>bd_flags := bd_flags (dev_at s i) AND NOT ANX_BLK_F_MEMBER\<rparr>) s"

definition anx_blk_dev_is_member :: "nat \<Rightarrow> 'a blk_state_scheme \<Rightarrow> bool" where
  "anx_blk_dev_is_member i s \<longleftrightarrow> bd_flags (dev_at s i) AND ANX_BLK_F_MEMBER \<noteq> 0"

definition anx_blk_set_active :: "nat option \<Rightarrow> 'a blk_state_scheme \<Rightarrow> 'a blk_state_scheme" where
  "anx_blk_set_active d s =
     (if (case d of Some i \<Rightarrow> \<not> bd_used (dev_at s i) | None \<Rightarrow> False) then s
      else s\<lparr>active_dev := d\<rparr>)"

definition anx_blk_active_name :: "'a blk_state_scheme \<Rightarrow> string" where
  "anx_blk_active_name s = (case active_dev s of Some i \<Rightarrow> bd_name (dev_at s i) | None \<Rightarrow> ''none'')"

subsection \<open>Dispatch\<close>

type_synonym 's blk_tab = "blk_ops \<Rightarrow> 's blk_io"

definition anx_blk_dev_read :: "'a blk_state_scheme blk_tab \<Rightarrow> nat \<Rightarrow> u64 \<Rightarrow> u32 \<Rightarrow>
    'a blk_state_scheme \<Rightarrow> (int \<times> sector list) \<times> 'a blk_state_scheme" where
  "anx_blk_dev_read tab dev lba count s =
     (if \<not> bd_used (dev_at s dev) then ((ANX_ENODEV, []), s)
      else if count = 0 then ((ANX_OK, []), s)
      else io_read (tab (the (bd_ops (dev_at s dev)))) dev lba count s)"

definition anx_blk_dev_write :: "'a blk_state_scheme blk_tab \<Rightarrow> nat \<Rightarrow> u64 \<Rightarrow> u32 \<Rightarrow> sector list \<Rightarrow>
    'a blk_state_scheme \<Rightarrow> int \<times> 'a blk_state_scheme" where
  "anx_blk_dev_write tab dev lba count buf s =
     (if \<not> bd_used (dev_at s dev) then (ANX_ENODEV, s)
      else if count = 0 then (ANX_OK, s)
      else io_write (tab (the (bd_ops (dev_at s dev)))) dev lba count buf s)"

definition anx_blk_dev_capacity :: "'a blk_state_scheme blk_tab \<Rightarrow> nat \<Rightarrow> 'a blk_state_scheme \<Rightarrow> u64" where
  "anx_blk_dev_capacity tab dev s =
     (if \<not> bd_used (dev_at s dev) then 0
      else io_capacity (tab (the (bd_ops (dev_at s dev)))) dev s)"

definition blk_io_of :: "'a blk_state_scheme blk_tab \<Rightarrow> 'a blk_state_scheme blk_io" where
  "blk_io_of tab = \<lparr>io_read = anx_blk_dev_read tab, io_write = anx_blk_dev_write tab,
     io_capacity = anx_blk_dev_capacity tab\<rparr>"

definition anx_blk_read :: "'a blk_state_scheme blk_tab \<Rightarrow> u64 \<Rightarrow> u32 \<Rightarrow>
    'a blk_state_scheme \<Rightarrow> (int \<times> sector list) \<times> 'a blk_state_scheme" where
  "anx_blk_read tab lba count s =
     (case active_dev s of None \<Rightarrow> ((ANX_EIO, []), s) | Some d \<Rightarrow> anx_blk_dev_read tab d lba count s)"

definition anx_blk_write :: "'a blk_state_scheme blk_tab \<Rightarrow> u64 \<Rightarrow> u32 \<Rightarrow> sector list \<Rightarrow>
    'a blk_state_scheme \<Rightarrow> int \<times> 'a blk_state_scheme" where
  "anx_blk_write tab lba count buf s =
     (case active_dev s of None \<Rightarrow> (ANX_EIO, s) | Some d \<Rightarrow> anx_blk_dev_write tab d lba count buf s)"

definition anx_blk_capacity :: "'a blk_state_scheme blk_tab \<Rightarrow> 'a blk_state_scheme \<Rightarrow> u64" where
  "anx_blk_capacity tab s = (case active_dev s of None \<Rightarrow> 0 | Some d \<Rightarrow> anx_blk_dev_capacity tab d s)"

definition anx_blk_ready :: "'a blk_state_scheme \<Rightarrow> bool" where
  "anx_blk_ready s \<longleftrightarrow> active_dev s \<noteq> None"

subsection \<open>Partition devices\<close>

definition part_alloc :: "'a blk_state_scheme \<Rightarrow> nat option" where
  "part_alloc s = find (\<lambda>i. p_parent (part_pool s ! i) = None) [0..<length (part_pool s)]"

definition part_of :: "'a blk_state_scheme \<Rightarrow> nat \<Rightarrow> anx_part" where
  "part_of s dev = part_pool s ! bd_priv (dev_at s dev)"

definition part_blk_read :: "'a blk_state_scheme blk_io \<Rightarrow> nat \<Rightarrow> u64 \<Rightarrow> u32 \<Rightarrow>
    'a blk_state_scheme \<Rightarrow> (int \<times> sector list) \<times> 'a blk_state_scheme" where
  "part_blk_read io dev lba count s =
     (let p = part_of s dev in
      if count = 0 then ((ANX_OK, []), s)
      else if lba \<ge> p_sectors p \<or> ucast count > p_sectors p - lba then ((ANX_ERANGE, []), s)
      else io_read io (the (p_parent p)) (p_start_lba p + lba) count s)"

definition part_blk_write :: "'a blk_state_scheme blk_io \<Rightarrow> nat \<Rightarrow> u64 \<Rightarrow> u32 \<Rightarrow> sector list \<Rightarrow>
    'a blk_state_scheme \<Rightarrow> int \<times> 'a blk_state_scheme" where
  "part_blk_write io dev lba count buf s =
     (let p = part_of s dev in
      if count = 0 then (ANX_OK, s)
      else if lba \<ge> p_sectors p \<or> ucast count > p_sectors p - lba then (ANX_ERANGE, s)
      else io_write io (the (p_parent p)) (p_start_lba p + lba) count buf s)"

definition part_blk_capacity :: "nat \<Rightarrow> 'a blk_state_scheme \<Rightarrow> u64" where
  "part_blk_capacity dev s = p_sectors (part_of s dev)"

definition part_ops :: "'a blk_state_scheme blk_io \<Rightarrow> 'a blk_state_scheme blk_io" where
  "part_ops io = \<lparr>io_read = part_blk_read io, io_write = part_blk_write io, io_capacity = part_blk_capacity\<rparr>"

definition anx_part_is_partition :: "'a blk_state_scheme \<Rightarrow> nat \<Rightarrow> bool" where
  "anx_part_is_partition s dev \<longleftrightarrow> bd_ops (dev_at s dev) = Some OpsPart"

definition part_name :: "string \<Rightarrow> u32 \<Rightarrow> string" where
  "part_name parent index =
     (let dst = take (ANX_BLK_NAME_MAX - 1) parent; i = unat index;
          len = (if length dst + 4 \<ge> ANX_BLK_NAME_MAX then ANX_BLK_NAME_MAX - 5 else length dst) in
      take len dst @ ''p'' @ (if i \<ge> 10 then [digit (i div 10)] else []) @ [digit i])"

text \<open>An entry of the partition table that the GPT reader returns.\<close>

record anx_gpt_partition =
  e_index :: u32
  e_type_lo :: u64
  e_type_hi :: u64
  e_guid_lo :: u64
  e_guid_hi :: u64
  e_start_lba :: u64
  e_end_lba :: u64
  e_attributes :: u64
  e_name :: string

definition ANX_PART_LABEL_MAX :: nat where "ANX_PART_LABEL_MAX = 36"

definition set_part :: "nat \<Rightarrow> anx_part \<Rightarrow> 'a blk_state_scheme \<Rightarrow> 'a blk_state_scheme" where
  "set_part k p s = s\<lparr>part_pool := (part_pool s)[k := p]\<rparr>"

text \<open>The pool entry for an accepted table entry.\<close>

definition scan_entry :: "nat \<Rightarrow> anx_gpt_partition \<Rightarrow> anx_part" where
  "scan_entry dev e = \<lparr>p_parent = Some dev, p_start_lba = e_start_lba e,
     p_sectors = e_end_lba e - e_start_lba e + 1, p_index = e_index e,
     p_type_lo = e_type_lo e, p_type_hi = e_type_hi e,
     p_label = take (ANX_PART_LABEL_MAX - 1) (e_name e)\<rparr>"

fun part_scan_loop :: "nat \<Rightarrow> u64 \<Rightarrow> anx_gpt_partition list \<Rightarrow> int \<Rightarrow> 'a blk_state_scheme \<Rightarrow>
    int \<times> 'a blk_state_scheme" where
  "part_scan_loop dev parent_sectors [] registered s = (registered, s)"
| "part_scan_loop dev parent_sectors (e # es) registered s =
     (if e_start_lba e = 0 \<or> e_end_lba e < e_start_lba e \<or> e_end_lba e \<ge> parent_sectors
      then part_scan_loop dev parent_sectors es registered s
      else case part_alloc s of
        None \<Rightarrow> (registered, s)
      | Some k \<Rightarrow>
          let p = scan_entry dev e;
              s1 = set_part k p s in
          case anx_blk_dev_register_named OpsPart k (part_name (bd_name (dev_at s1 dev)) (e_index e)) s1 of
            (None, s2) \<Rightarrow> (registered, set_part k (p\<lparr>p_parent := None\<rparr>) s2)
          | (Some _, s2) \<Rightarrow> part_scan_loop dev parent_sectors es (registered + 1) s2)"

text \<open>\<open>gpt_read\<close> is the GPT reader; \<open>alloc_ok\<close> whether the buffer for the table was
  allocated.\<close>

definition anx_part_scan :: "'a blk_state_scheme blk_tab \<Rightarrow>
    (nat \<Rightarrow> 'a blk_state_scheme \<Rightarrow> int \<times> anx_gpt_partition list) \<Rightarrow> bool \<Rightarrow> nat \<Rightarrow>
    'a blk_state_scheme \<Rightarrow> int \<times> 'a blk_state_scheme" where
  "anx_part_scan tab gpt_read alloc_ok dev s =
     (if \<not> bd_used (dev_at s dev) then (ANX_ENODEV, s)
      else if anx_part_is_partition s dev then (0, s)
      else
        let parent_sectors = anx_blk_dev_capacity tab dev s in
        if parent_sectors = 0 then (0, s)
        else if \<not> alloc_ok then (ANX_ENOMEM, s)
        else case gpt_read dev s of (ret, entries) \<Rightarrow>
          if ret \<noteq> ANX_OK then (0, s)
          else part_scan_loop dev parent_sectors entries 0 s)"

definition anx_part_scan_all :: "'a blk_state_scheme blk_tab \<Rightarrow>
    (nat \<Rightarrow> 'a blk_state_scheme \<Rightarrow> int \<times> anx_gpt_partition list) \<Rightarrow> bool \<Rightarrow>
    'a blk_state_scheme \<Rightarrow> 'a blk_state_scheme" where
  "anx_part_scan_all tab gpt_read alloc_ok s =
     fold (\<lambda>i s. case anx_blk_dev_at i s of
         None \<Rightarrow> s
       | Some dev \<Rightarrow> if anx_part_is_partition s dev then s
                     else snd (anx_part_scan tab gpt_read alloc_ok dev s))
       [0..<anx_blk_dev_count s] s"

subsection \<open>Removal\<close>

text \<open>The part of the unregistration that clears the slot; a partition has no children, so
  for a partition it is the whole function.\<close>

definition blk_drop :: "nat \<Rightarrow> 'a blk_state_scheme \<Rightarrow> 'a blk_state_scheme" where
  "blk_drop dev s =
     set_dev dev ((dev_at s dev)\<lparr>bd_used := False, bd_ops := None, bd_priv := 0, bd_flags := 0,
       bd_name := []\<rparr>)
       (if active_dev s = Some dev then s\<lparr>active_dev := None\<rparr> else s)"

definition forget_part :: "nat \<Rightarrow> nat \<Rightarrow> 'a blk_state_scheme \<Rightarrow> 'a blk_state_scheme" where
  "forget_part parent k s =
     (if p_parent (part_pool s ! k) \<noteq> Some parent then s
      else
        let s1 = (case find (\<lambda>dev. bd_priv (dev_at s dev) = k \<and> anx_part_is_partition s dev) (used_slots s) of
                    None \<Rightarrow> s | Some dev \<Rightarrow> blk_drop dev s) in
        set_part k ((part_pool s1 ! k)\<lparr>p_parent := None\<rparr>) s1)"

definition anx_part_forget_children :: "nat \<Rightarrow> 'a blk_state_scheme \<Rightarrow> 'a blk_state_scheme" where
  "anx_part_forget_children parent s = fold (forget_part parent) [0..<length (part_pool s)] s"

definition anx_blk_dev_unregister :: "nat \<Rightarrow> 'a blk_state_scheme \<Rightarrow> 'a blk_state_scheme" where
  "anx_blk_dev_unregister dev s =
     (if \<not> bd_used (dev_at s dev) then s
      else blk_drop dev (if \<not> anx_part_is_partition s dev then anx_part_forget_children dev s else s))"

subsection \<open>Frames\<close>

named_theorems blk_simps

lemma set_dev_simps [blk_simps, simp]:
  "length (blk_devs (set_dev j d s)) = length (blk_devs s)"
  "part_pool (set_dev j d s) = part_pool s" "active_dev (set_dev j d s) = active_dev s"
  "blk_state.more (set_dev j d s) = blk_state.more s"
  by (simp_all add: set_dev_def)

lemma dev_at_set_dev [simp]:
  "j < length (blk_devs s) \<Longrightarrow> dev_at (set_dev j d s) i = (if i = j then d else dev_at s i)"
  by (simp add: set_dev_def nth_list_update)

lemma set_part_simps [blk_simps, simp]:
  "blk_devs (set_part k p s) = blk_devs s" "length (part_pool (set_part k p s)) = length (part_pool s)"
  "active_dev (set_part k p s) = active_dev s"
  "k < length (part_pool s) \<Longrightarrow> part_pool (set_part k p s) ! i = (if i = k then p else part_pool s ! i)"
  by (simp_all add: set_part_def nth_list_update)

lemma find_upt_Some: "find P [0..<n] = Some i \<Longrightarrow> i < n \<and> P i"
  by (auto simp: find_Some_iff)

lemma find_upt_None: "find P [0..<n] = None \<longleftrightarrow> (\<forall>i<n. \<not> P i)"
  by (auto simp: find_None_iff)

lemma free_slot_Some: "free_slot s = Some i \<Longrightarrow> i < length (blk_devs s) \<and> \<not> bd_used (dev_at s i)"
  unfolding free_slot_def by (rule find_upt_Some)

lemma part_alloc_Some: "part_alloc s = Some k \<Longrightarrow> k < length (part_pool s) \<and> p_parent (part_pool s ! k) = None"
  unfolding part_alloc_def by (rule find_upt_Some)

lemma name_taken_iff:
  "name_taken s n \<longleftrightarrow> (\<exists>i<length (blk_devs s). bd_used (dev_at s i) \<and> bd_name (dev_at s i) = n)"
  by (auto simp: name_taken_def list_ex_length)

lemma dev_find_None: "anx_blk_dev_find n s = None \<longleftrightarrow> \<not> name_taken s n"
  unfolding anx_blk_dev_find_def find_upt_None name_taken_iff by blast

subsection \<open>Candidate names\<close>

definition digit_val :: "char \<Rightarrow> nat" where "digit_val c = of_char c - 48"

lemma digit_val_digit [simp]: "digit_val (digit k) = k mod 10"
  by (simp add: digit_val_def digit_def)

lemma digit_eq [simp]: "digit a = digit b \<longleftrightarrow> a mod 10 = b mod 10"
  by (metis digit_def digit_val_digit)

lemma blk_cand_inj:
  assumes "m < 1000" "n < 1000" "blk_cand base m = blk_cand base n"
  shows "m = n"
proof -
  have e: "(if m \<ge> 100 then [digit (m div 100)] else []) @ (if m \<ge> 10 then [digit (m div 10)] else []) @ [digit m]
    = (if n \<ge> 100 then [digit (n div 100)] else []) @ (if n \<ge> 10 then [digit (n div 10)] else []) @ [digit n]"
    using assms(3) by (simp add: blk_cand_def Let_def)
  have dec: "k = k div 100 mod 10 * 100 + k div 10 mod 10 * 10 + k mod 10" if "k < 1000" for k :: nat
  proof -
    have "k div 100 < 10" using that by (simp add: div_less_iff_less_mult)
    then have "k div 100 mod 10 = k div 100" by simp
    moreover have "k div 10 div 10 = k div 100" by (simp flip: div_mult2_eq)
    ultimately show ?thesis
      using div_mult_mod_eq [of k 10] div_mult_mod_eq [of "k div 10" 10] by linarith
  qed
  have small: "k div 100 = 0" "k div 10 = 0 \<or> 10 \<le> k" if "k < 100" for k :: nat using that by auto
  have "m div 100 mod 10 = n div 100 mod 10 \<and> m div 10 mod 10 = n div 10 mod 10 \<and> m mod 10 = n mod 10"
    using e small(1) [of m] small(1) [of n]
    by (cases "m \<ge> 100"; cases "n \<ge> 100"; cases "m \<ge> 10"; cases "n \<ge> 10") (auto simp: not_le)
  then show ?thesis using dec [OF assms(1)] dec [OF assms(2)] by metis
qed

lemma blk_cand_length: "length (blk_cand base n) < ANX_BLK_NAME_MAX" "blk_cand base n \<noteq> []"
  by (auto simp: blk_cand_def Let_def ANX_BLK_NAME_MAX_def)

text \<open>The registry has fewer slots than there are candidate names, so the search for a free
  name always succeeds.\<close>

lemma pick_name_free:
  assumes "length (blk_devs s) < 1000"
  shows "\<not> name_taken s (blk_pick_name s base) \<and> length (blk_pick_name s base) < ANX_BLK_NAME_MAX"
proof -
  have "\<exists>n<1000. \<not> name_taken s (blk_cand base n)"
  proof (rule ccontr)
    assume "\<not> ?thesis"
    then have sub: "blk_cand base ` {..<1000} \<subseteq> set (map bd_name (blk_devs s))"
      by (auto simp: name_taken_def list_ex_iff) (metis image_eqI)
    have "inj_on (blk_cand base) {..<1000}" using blk_cand_inj by (auto intro: inj_onI)
    then have "card (blk_cand base ` {..<1000}) = 1000" by (simp add: card_image)
    moreover have "card (blk_cand base ` {..<1000}) \<le> length (blk_devs s)"
      using card_mono [OF _ sub] card_length [of "map bd_name (blk_devs s)"] by simp
    ultimately show False using assms by simp
  qed
  then obtain n where "find (\<lambda>n. \<not> name_taken s (blk_cand base n)) [0..<1000] = Some n"
    by (metis find_upt_None option.exhaust)
  then show ?thesis
    using find_upt_Some [of "\<lambda>n. \<not> name_taken s (blk_cand base n)" 1000 n] blk_cand_length
    by (simp add: blk_pick_name_def)
qed

subsection \<open>The registry invariant\<close>

abbreviation is_part :: "'a blk_state_scheme \<Rightarrow> nat \<Rightarrow> bool" where
  "is_part \<equiv> anx_part_is_partition"

definition wf_names :: "'a blk_state_scheme \<Rightarrow> bool" where
  "wf_names s \<longleftrightarrow> (\<forall>i<ANX_BLK_MAX_DEVS. \<forall>j<ANX_BLK_MAX_DEVS.
       bd_used (dev_at s i) \<and> bd_used (dev_at s j) \<and> bd_name (dev_at s i) = bd_name (dev_at s j) \<longrightarrow> i = j)"

definition wf_ops :: "'a blk_state_scheme \<Rightarrow> bool" where
  "wf_ops s \<longleftrightarrow> (\<forall>i<ANX_BLK_MAX_DEVS. bd_used (dev_at s i) \<longleftrightarrow> bd_ops (dev_at s i) \<noteq> None)
     \<and> (\<forall>i<ANX_BLK_MAX_DEVS. length (bd_name (dev_at s i)) < ANX_BLK_NAME_MAX)"

text \<open>A partition device: its pool entry, its parent, and a window that does not wrap.\<close>

definition wf_part :: "'a blk_state_scheme \<Rightarrow> nat \<Rightarrow> bool" where
  "wf_part s i \<longleftrightarrow> bd_priv (dev_at s i) < PART_MAX
     \<and> (\<exists>p<ANX_BLK_MAX_DEVS. p_parent (part_of s i) = Some p \<and> bd_used (dev_at s p) \<and> \<not> is_part s p)
     \<and> unat (p_start_lba (part_of s i)) + unat (p_sectors (part_of s i)) < 2 ^ 64"

definition wf_parts :: "'a blk_state_scheme \<Rightarrow> bool" where
  "wf_parts s \<longleftrightarrow> (\<forall>i<ANX_BLK_MAX_DEVS. is_part s i \<longrightarrow> wf_part s i)
     \<and> (\<forall>i<ANX_BLK_MAX_DEVS. \<forall>j<ANX_BLK_MAX_DEVS. is_part s i \<and> is_part s j
          \<and> bd_priv (dev_at s i) = bd_priv (dev_at s j) \<longrightarrow> i = j)"

definition wf_active :: "'a blk_state_scheme \<Rightarrow> bool" where
  "wf_active s \<longleftrightarrow> (\<forall>i. active_dev s = Some i \<longrightarrow> i < ANX_BLK_MAX_DEVS \<and> bd_used (dev_at s i))"

definition blk_wf :: "'a blk_state_scheme \<Rightarrow> bool" where
  "blk_wf s \<longleftrightarrow> length (blk_devs s) = ANX_BLK_MAX_DEVS \<and> length (part_pool s) = PART_MAX
     \<and> wf_names s \<and> wf_ops s \<and> wf_parts s \<and> wf_active s"

lemma blk_wf_lengths:
  "blk_wf s \<Longrightarrow> length (blk_devs s) = ANX_BLK_MAX_DEVS" "blk_wf s \<Longrightarrow> length (part_pool s) = PART_MAX"
  by (simp_all add: blk_wf_def)

lemma blk_wf_names:
  "blk_wf s \<Longrightarrow> i < ANX_BLK_MAX_DEVS \<Longrightarrow> j < ANX_BLK_MAX_DEVS \<Longrightarrow> bd_used (dev_at s i) \<Longrightarrow> bd_used (dev_at s j)
    \<Longrightarrow> bd_name (dev_at s i) = bd_name (dev_at s j) \<Longrightarrow> i = j"
  by (simp add: blk_wf_def wf_names_def)

lemma blk_wf_boot: "blk_wf blk_boot"
  by (simp add: blk_wf_def blk_boot_def blk_dev_null_def anx_part_is_partition_def ANX_BLK_NAME_MAX_def
    wf_names_def wf_ops_def wf_parts_def wf_active_def)

text \<open>A slot becomes used under a free name.\<close>

lemma blk_wf_fill:
  assumes wf: "blk_wf s" and i: "i < ANX_BLK_MAX_DEVS" "\<not> bd_used (dev_at s i)"
    and d: "bd_used d" "bd_ops d = Some ops" "length (bd_name d) < ANX_BLK_NAME_MAX"
      "\<not> name_taken s (bd_name d)"
    and part: "ops = OpsPart \<Longrightarrow> bd_priv d < PART_MAX
        \<and> (\<exists>p<ANX_BLK_MAX_DEVS. p_parent (part_pool s ! bd_priv d) = Some p \<and> bd_used (dev_at s p) \<and> \<not> is_part s p)
        \<and> unat (p_start_lba (part_pool s ! bd_priv d)) + unat (p_sectors (part_pool s ! bd_priv d)) < 2 ^ 64
        \<and> (\<forall>j<ANX_BLK_MAX_DEVS. is_part s j \<longrightarrow> bd_priv (dev_at s j) \<noteq> bd_priv d)"
  shows "blk_wf (set_dev i d s)"
proof -
  have len: "length (blk_devs s) = ANX_BLK_MAX_DEVS" using wf by (rule blk_wf_lengths)
  have at [simp]: "dev_at (set_dev i d s) j = (if j = i then d else dev_at s j)" for j
    using i len by simp
  have np: "\<not> is_part s i" using wf i by (auto simp: blk_wf_def wf_ops_def anx_part_is_partition_def)
  have pa: "is_part (set_dev i d s) j \<longleftrightarrow> (if j = i then ops = OpsPart else is_part s j)" for j
    using d(2) by (auto simp: anx_part_is_partition_def)
  have nm: "bd_name (dev_at s j) \<noteq> bd_name d" if "j < ANX_BLK_MAX_DEVS" "bd_used (dev_at s j)" for j
    using d(4) that by (simp add: name_taken_iff len)
  have "wf_names (set_dev i d s)"
    unfolding wf_names_def
  proof (intro allI impI)
    fix j k
    assume "j < ANX_BLK_MAX_DEVS" "k < ANX_BLK_MAX_DEVS" and
      "bd_used (dev_at (set_dev i d s) j) \<and> bd_used (dev_at (set_dev i d s) k)
       \<and> bd_name (dev_at (set_dev i d s) j) = bd_name (dev_at (set_dev i d s) k)"
    then show "j = k" using blk_wf_names [OF wf] nm [of j] nm [of k] by (auto split: if_splits)
  qed
  moreover have "wf_ops (set_dev i d s)" using wf d by (simp add: blk_wf_def wf_ops_def)
  moreover have "wf_parts (set_dev i d s)"
    unfolding wf_parts_def
  proof (intro conjI allI impI)
    fix j
    assume j: "j < ANX_BLK_MAX_DEVS" "is_part (set_dev i d s) j"
    show "wf_part (set_dev i d s) j"
    proof (cases "j = i")
      case True
      with j have "ops = OpsPart" by (simp add: pa)
      from part [OF this] obtain p where "p < ANX_BLK_MAX_DEVS" "p_parent (part_pool s ! bd_priv d) = Some p"
        "bd_used (dev_at s p)" "\<not> is_part s p" by blast
      then show ?thesis
        using part [OF \<open>ops = OpsPart\<close>] True i np by (auto simp: wf_part_def part_of_def pa)
    next
      case False
      with j have "wf_part s j" using wf by (simp add: pa blk_wf_def wf_parts_def)
      then obtain p where "p < ANX_BLK_MAX_DEVS" "p_parent (part_of s j) = Some p"
        "bd_used (dev_at s p)" "\<not> is_part s p" by (auto simp: wf_part_def)
      moreover from this have "p \<noteq> i" using i by auto
      ultimately show ?thesis
        using \<open>wf_part s j\<close> False by (auto simp: wf_part_def part_of_def pa)
    qed
  next
    fix j k
    assume "j < ANX_BLK_MAX_DEVS" "k < ANX_BLK_MAX_DEVS" and
      "is_part (set_dev i d s) j \<and> is_part (set_dev i d s) k
       \<and> bd_priv (dev_at (set_dev i d s) j) = bd_priv (dev_at (set_dev i d s) k)"
    then show "j = k"
      using wf part by (auto simp: pa blk_wf_def wf_parts_def split: if_splits)
  qed
  moreover have "wf_active (set_dev i d s)" using wf i d by (auto simp: blk_wf_def wf_active_def)
  ultimately show ?thesis using wf by (simp add: blk_wf_def)
qed

lemma set_dev_set_dev [simp]: "set_dev i d (set_dev i e s) = set_dev i d s"
  by (simp add: set_dev_def)

lemma blk_wf_active: "blk_wf s \<Longrightarrow> i < ANX_BLK_MAX_DEVS \<Longrightarrow> bd_used (dev_at s i) \<Longrightarrow> blk_wf (s\<lparr>active_dev := Some i\<rparr>)"
  and blk_wf_inactive: "blk_wf s \<Longrightarrow> blk_wf (s\<lparr>active_dev := None\<rparr>)"
  by (simp_all add: blk_wf_def wf_names_def wf_ops_def wf_parts_def wf_part_def wf_active_def
      part_of_def anx_part_is_partition_def)

lemma dev_register_wf:
  assumes wf: "blk_wf s" and "ops \<noteq> OpsPart"
  shows "blk_wf (snd (anx_blk_dev_register ops priv base s))"
proof (cases "free_slot s")
  case None
  then show ?thesis using wf by (simp add: anx_blk_dev_register_def)
next
  case (Some i)
  let ?d = "(dev_at s i)\<lparr>bd_ops := Some ops, bd_priv := priv, bd_flags := 0, bd_used := True\<rparr>"
  let ?n = "blk_pick_name (set_dev i ?d s) base"
  let ?s2 = "set_dev i (?d\<lparr>bd_name := ?n\<rparr>) s"
  have len: "length (blk_devs s) = ANX_BLK_MAX_DEVS" using wf by (rule blk_wf_lengths)
  have i: "i < ANX_BLK_MAX_DEVS" "\<not> bd_used (dev_at s i)" using free_slot_Some [OF Some] len by simp_all
  have n: "\<not> name_taken (set_dev i ?d s) ?n" "length ?n < ANX_BLK_NAME_MAX"
    using pick_name_free [of "set_dev i ?d s" base] len by (simp_all add: ANX_BLK_MAX_DEVS_def)
  have "\<not> name_taken s ?n"
    using n(1) i len unfolding name_taken_iff by (metis dev_at_set_dev set_dev_simps(1))
  then have wf2: "blk_wf ?s2"
    using assms i n(2) by (intro blk_wf_fill [OF wf, where ops = ops]) simp_all
  have "blk_wf (?s2\<lparr>active_dev := Some i\<rparr>)"
    using wf2 i len by (intro blk_wf_active) simp_all
  with wf2 show ?thesis using Some by (simp add: anx_blk_dev_register_def Let_def)
qed

lemma dev_register_named_wf:
  assumes wf: "blk_wf s" and nm: "length nm < ANX_BLK_NAME_MAX"
    and part: "ops = OpsPart \<Longrightarrow> priv < PART_MAX
        \<and> (\<exists>p<ANX_BLK_MAX_DEVS. p_parent (part_pool s ! priv) = Some p \<and> bd_used (dev_at s p) \<and> \<not> is_part s p)
        \<and> unat (p_start_lba (part_pool s ! priv)) + unat (p_sectors (part_pool s ! priv)) < 2 ^ 64
        \<and> (\<forall>j<ANX_BLK_MAX_DEVS. is_part s j \<longrightarrow> bd_priv (dev_at s j) \<noteq> priv)"
  shows "blk_wf (snd (anx_blk_dev_register_named ops priv nm s))"
proof (cases "anx_blk_dev_find nm s \<noteq> None \<or> free_slot s = None")
  case True
  then show ?thesis using wf by (auto simp: anx_blk_dev_register_named_def)
next
  case False
  then obtain i where i: "free_slot s = Some i" by blast
  have "i < ANX_BLK_MAX_DEVS" "\<not> bd_used (dev_at s i)"
    using free_slot_Some [OF i] wf by (simp_all add: blk_wf_def)
  moreover have "take (ANX_BLK_NAME_MAX - 1) nm = nm" using nm by simp
  moreover have "\<not> name_taken s nm" using False dev_find_None by blast
  ultimately show ?thesis
    using False i nm part
    by (auto simp: anx_blk_dev_register_named_def intro!: blk_wf_fill [OF wf, where ops = ops])
qed

lemma blk_wf_flags:
  assumes "blk_wf s" "i < ANX_BLK_MAX_DEVS"
  shows "blk_wf (set_dev i ((dev_at s i)\<lparr>bd_flags := f\<rparr>) s)"
proof -
  let ?t = "set_dev i ((dev_at s i)\<lparr>bd_flags := f\<rparr>) s"
  have len: "length (blk_devs s) = ANX_BLK_MAX_DEVS" using assms(1) by (rule blk_wf_lengths)
  have e: "bd_used (dev_at ?t j) = bd_used (dev_at s j)" "bd_name (dev_at ?t j) = bd_name (dev_at s j)"
    "bd_ops (dev_at ?t j) = bd_ops (dev_at s j)" "bd_priv (dev_at ?t j) = bd_priv (dev_at s j)" for j
    using assms(2) len by simp_all
  have p: "is_part ?t j = is_part s j" "part_of ?t j = part_of s j" for j
    by (simp_all only: anx_part_is_partition_def part_of_def e set_dev_simps)
  have w: "wf_part ?t j = wf_part s j" for j by (simp only: wf_part_def e p)
  show ?thesis
    using assms(1) unfolding blk_wf_def wf_names_def wf_ops_def wf_parts_def wf_active_def
    by (simp only: e p w set_dev_simps) blast
qed

lemma blk_wf_pool:
  assumes wf: "blk_wf s" and k: "k < PART_MAX" and free: "\<And>j. j < ANX_BLK_MAX_DEVS \<Longrightarrow> is_part s j \<Longrightarrow> bd_priv (dev_at s j) \<noteq> k"
  shows "blk_wf (set_part k p s)"
proof -
  let ?t = "set_part k p s"
  have len: "length (part_pool s) = PART_MAX" using wf by (rule blk_wf_lengths)
  have a: "is_part ?t j = is_part s j" for j by (simp add: anx_part_is_partition_def)
  have "wf_part ?t j" if "j < ANX_BLK_MAX_DEVS" "is_part s j" for j
    using wf that free [OF that] k len
    by (auto simp: blk_wf_def wf_parts_def wf_part_def part_of_def a)
  then show ?thesis
    using wf unfolding blk_wf_def wf_names_def wf_ops_def wf_parts_def wf_active_def
    by (simp only: a set_part_simps) blast
qed

lemma part_name_length: "length (part_name parent index) < ANX_BLK_NAME_MAX"
  by (auto simp: part_name_def Let_def ANX_BLK_NAME_MAX_def)

lemma wf_free_pool:
  assumes "blk_wf s" "p_parent (part_pool s ! k) = None" "j < ANX_BLK_MAX_DEVS" "is_part s j"
  shows "bd_priv (dev_at s j) \<noteq> k"
  using assms by (auto simp: blk_wf_def wf_parts_def wf_part_def part_of_def)

text \<open>A registration changes one free slot and nothing else.\<close>

lemma register_named_frame:
  assumes "anx_blk_dev_register_named ops priv nm s = (Some i, t)"
  shows "i < length (blk_devs s)" "\<not> bd_used (dev_at s i)" "part_pool t = part_pool s"
    "bd_ops (dev_at t i) = Some ops" "bd_priv (dev_at t i) = priv" "bd_used (dev_at t i)"
    "\<And>j. j \<noteq> i \<Longrightarrow> dev_at t j = dev_at s j"
  using assms free_slot_Some [of s i]
  by (auto simp: anx_blk_dev_register_named_def split: if_splits option.splits)

lemma register_named_None: "anx_blk_dev_register_named ops priv nm s = (None, t) \<Longrightarrow> t = s"
  by (auto simp: anx_blk_dev_register_named_def split: if_splits option.splits)

lemma window_bounds:
  fixes a b c :: u64
  assumes "a \<le> b" "b < c"
  shows "unat a + unat (b - a + 1) = unat b + 1" and "unat a + unat (b - a + 1) \<le> unat c"
proof -
  have "unat (b - a) = unat b - unat a" using assms(1) by (rule unat_sub_u64)
  moreover have "unat a \<le> unat b" "unat b < unat c"
    using assms by (simp_all add: word_le_nat_alt word_less_nat_alt)
  moreover have "unat c < 2 ^ 64" by (simp add: unat_u64_bound)
  moreover from calculation have "unat (b - a + 1) = unat b - unat a + 1"
    by (subst unat_add_u64) (simp_all del: unat_u64_bound)
  ultimately show "unat a + unat (b - a + 1) = unat b + 1" "unat a + unat (b - a + 1) \<le> unat c"
    by linarith+
qed

lemma is_part_set_part [simp]: "is_part (set_part k p s) j = is_part s j"
  by (simp add: anx_part_is_partition_def)

lemma part_scan_loop_wf:
  assumes "blk_wf s" "dev < ANX_BLK_MAX_DEVS" "bd_used (dev_at s dev)" "\<not> is_part s dev"
  shows "blk_wf (snd (part_scan_loop dev sectors es n s))"
  using assms
proof (induction dev sectors es n s rule: part_scan_loop.induct)
  case (2 dev sectors e es n s)
  show ?case
  proof (cases "e_start_lba e = 0 \<or> e_end_lba e < e_start_lba e \<or> e_end_lba e \<ge> sectors")
    case True
    then show ?thesis using "2.IH"(1) "2.prems" by simp
  next
    case ok: False
    show ?thesis
    proof (cases "part_alloc s")
      case None
      then show ?thesis using ok "2.prems" by simp
    next
      case (Some k)
      let ?p = "scan_entry dev e"
      let ?s1 = "set_part k ?p s"
      let ?r = "anx_blk_dev_register_named OpsPart k (part_name (bd_name (dev_at ?s1 dev)) (e_index e)) ?s1"
      have len: "length (part_pool s) = PART_MAX" using "2.prems"(1) by (rule blk_wf_lengths)
      have k: "k < PART_MAX" "p_parent (part_pool s ! k) = None"
        using part_alloc_Some [OF Some] len by simp_all
      have free: "bd_priv (dev_at s j) \<noteq> k" if "j < ANX_BLK_MAX_DEVS" "is_part s j" for j
        using wf_free_pool [OF "2.prems"(1) k(2) that] .
      have wf1: "blk_wf ?s1" using "2.prems"(1) k free by (intro blk_wf_pool) simp_all
      have win: "unat (e_start_lba e) + unat (e_end_lba e - e_start_lba e + 1) < 2 ^ 64"
        using window_bounds(1) [of "e_start_lba e" "e_end_lba e" sectors] ok
          unat_u64_bound [of sectors]
        by (simp add: not_less not_le word_less_nat_alt word_le_nat_alt del: unat_u64_bound)
      have wf2: "blk_wf (snd ?r)"
        using "2.prems" k free win len
        by (intro dev_register_named_wf [OF wf1 part_name_length]) (auto simp: scan_entry_def)
      show ?thesis
      proof (cases ?r)
        case (Pair i t)
        show ?thesis
        proof (cases i)
          case None
          then have "t = ?s1" using Pair register_named_None by blast
          moreover have "blk_wf (set_part k (?p\<lparr>p_parent := None\<rparr>) ?s1)"
            using free by (intro blk_wf_pool [OF wf1 k(1)]) simp
          ultimately show ?thesis using ok Some None Pair by (simp add: Let_def)
        next
          case (Some j)
          note fr = register_named_frame [OF Pair [unfolded Some]]
          have "j \<noteq> dev" using fr(2) "2.prems"(3) by auto
          then have "dev_at t dev = dev_at s dev" using fr(7) by simp
          moreover from this have "\<not> is_part t dev" using "2.prems"(4) by (simp add: anx_part_is_partition_def)
          moreover have "blk_wf t" using wf2 Pair by simp
          ultimately show ?thesis
            using ok \<open>part_alloc s = Some k\<close> Some Pair "2.IH"(2) "2.prems" by (simp add: Let_def)
        qed
      qed
    qed
  qed
qed simp

lemma blk_drop_simps [simp]:
  "length (blk_devs (blk_drop dev s)) = length (blk_devs s)" "part_pool (blk_drop dev s) = part_pool s"
  by (simp_all add: blk_drop_def set_dev_def)

lemma dev_at_blk_drop:
  assumes "dev < length (blk_devs s)"
  shows "dev_at (blk_drop dev s) i = (if i = dev then (dev_at s dev)\<lparr>bd_used := False, bd_ops := None,
    bd_priv := 0, bd_flags := 0, bd_name := []\<rparr> else dev_at s i)"
  using assms by (simp add: blk_drop_def set_dev_def nth_list_update)

text \<open>A slot that no partition sits on can be cleared.\<close>

lemma blk_drop_wf:
  assumes wf: "blk_wf s" and dev: "dev < ANX_BLK_MAX_DEVS"
    and none: "\<And>i. i < ANX_BLK_MAX_DEVS \<Longrightarrow> is_part s i \<Longrightarrow> i \<noteq> dev \<Longrightarrow> p_parent (part_of s i) \<noteq> Some dev"
  shows "blk_wf (blk_drop dev s)"
proof -
  let ?t = "blk_drop dev s"
  have len: "length (blk_devs s) = ANX_BLK_MAX_DEVS" using wf by (rule blk_wf_lengths)
  have at: "dev_at ?t i = (if i = dev then (dev_at s dev)\<lparr>bd_used := False, bd_ops := None,
      bd_priv := 0, bd_flags := 0, bd_name := []\<rparr> else dev_at s i)" for i
    using dev len by (intro dev_at_blk_drop) simp
  have pa: "is_part ?t i \<longleftrightarrow> i \<noteq> dev \<and> is_part s i" for i
    by (simp add: anx_part_is_partition_def at)
  have "wf_names ?t" using wf by (auto simp: blk_wf_def wf_names_def at)
  moreover have "wf_ops ?t" using wf by (auto simp: blk_wf_def wf_ops_def at ANX_BLK_NAME_MAX_def)
  moreover have "wf_part ?t i" if i: "i < ANX_BLK_MAX_DEVS" "is_part s i" "i \<noteq> dev" for i
  proof -
    have "wf_part s i" using wf i by (simp add: blk_wf_def wf_parts_def)
    moreover from this none [OF i] obtain p where "p < ANX_BLK_MAX_DEVS" "p_parent (part_of s i) = Some p"
      "bd_used (dev_at s p)" "\<not> is_part s p" "p \<noteq> dev" by (auto simp: wf_part_def)
    ultimately show ?thesis using i(3) by (auto simp: wf_part_def part_of_def at pa)
  qed
  then have "wf_parts ?t" using wf by (auto simp: blk_wf_def wf_parts_def pa at)
  moreover have "wf_active ?t"
    using wf by (auto simp: blk_wf_def wf_active_def at) (simp_all add: blk_drop_def split: if_splits)
  ultimately show ?thesis using wf by (simp add: blk_wf_def)
qed

lemma used_slots_iff: "i \<in> set (used_slots s) \<longleftrightarrow> i < length (blk_devs s) \<and> bd_used (dev_at s i)"
  by (auto simp: used_slots_def)

text \<open>What a slot holds once its device is gone.\<close>

definition cleared :: "anx_blk_dev \<Rightarrow> anx_blk_dev" where
  "cleared d = d\<lparr>bd_used := False, bd_ops := None, bd_priv := 0, bd_flags := 0, bd_name := []\<rparr>"

lemma cleared_simps [simp]: "bd_used (cleared d) = False" "bd_ops (cleared d) = None" "bd_priv (cleared d) = 0"
  by (simp_all add: cleared_def)

text \<open>The slot holds a partition of \<open>parent\<close>, described by one of the given entries of the pool.\<close>

definition child_in :: "'a blk_state_scheme \<Rightarrow> nat \<Rightarrow> nat set \<Rightarrow> nat \<Rightarrow> bool" where
  "child_in s parent K i \<longleftrightarrow> is_part s i \<and> bd_priv (dev_at s i) \<in> K \<and> p_parent (part_of s i) = Some parent"

definition keep_active :: "(nat \<Rightarrow> bool) \<Rightarrow> nat option \<Rightarrow> nat option" where
  "keep_active gone a = (case a of None \<Rightarrow> None | Some i \<Rightarrow> if gone i then None else Some i)"

definition unparent :: "nat \<Rightarrow> nat set \<Rightarrow> nat \<Rightarrow> anx_part \<Rightarrow> anx_part" where
  "unparent parent K j p = (if j \<in> K \<and> p_parent p = Some parent then p\<lparr>p_parent := None\<rparr> else p)"

text \<open>The state after the partitions of \<open>parent\<close> described by the entries \<open>K\<close> are removed: an
  equation for every slot, every entry of the pool and the active device.\<close>

definition forgotten :: "'a blk_state_scheme \<Rightarrow> nat \<Rightarrow> nat set \<Rightarrow> 'a blk_state_scheme \<Rightarrow> bool" where
  "forgotten s parent K t \<longleftrightarrow>
     (\<forall>i<ANX_BLK_MAX_DEVS. dev_at t i = (if child_in s parent K i then cleared (dev_at s i) else dev_at s i)) \<and>
     (\<forall>j<PART_MAX. part_pool t ! j = unparent parent K j (part_pool s ! j)) \<and>
     active_dev t = keep_active (child_in s parent K) (active_dev s)"

lemma forgotten_part: "forgotten s parent K t \<Longrightarrow> i < ANX_BLK_MAX_DEVS \<Longrightarrow> is_part t i \<longleftrightarrow> is_part s i \<and> \<not> child_in s parent K i"
  by (auto simp: forgotten_def anx_part_is_partition_def)

lemma keep_active_comp: "keep_active Q (keep_active P a) = keep_active (\<lambda>i. P i \<or> Q i) a"
  by (simp add: keep_active_def split: option.split)

lemma keep_active_cong: "(\<And>i. a = Some i \<Longrightarrow> P i = Q i) \<Longrightarrow> keep_active P a = keep_active Q a"
  by (simp add: keep_active_def split: option.split)

lemma forget_part_step:
  fixes s :: "'a blk_state_scheme" and k parent :: nat
  assumes wf: "blk_wf s" and k: "k < PART_MAX"
  defines "t \<equiv> forget_part parent k s"
  shows "blk_wf t \<and> forgotten s parent {k} t"
proof (cases "p_parent (part_pool s ! k) = Some parent")
  case False
  then have "\<not> child_in s parent {k} i" for i by (auto simp: child_in_def part_of_def)
  then show ?thesis using wf False by (auto simp: t_def forget_part_def forgotten_def unparent_def keep_active_def split: option.split)
next
  case True
  have len: "length (blk_devs s) = ANX_BLK_MAX_DEVS" "length (part_pool s) = PART_MAX"
    using wf by (simp_all add: blk_wf_def)
  have child: "child_in s parent {k} i \<longleftrightarrow> is_part s i \<and> bd_priv (dev_at s i) = k" for i
    using True by (auto simp: child_in_def part_of_def)
  have pool: "part_pool (set_part k ((part_pool s ! k)\<lparr>p_parent := None\<rparr>) u) ! j = unparent parent {k} j (part_pool s ! j)"
    if "part_pool u = part_pool s" for u :: "'a blk_state_scheme" and j
    using that True k len by (simp add: unparent_def)
  show ?thesis
  proof (cases "find (\<lambda>dev. bd_priv (dev_at s dev) = k \<and> is_part s dev) (used_slots s)")
    case None
    then have t: "t = set_part k ((part_pool s ! k)\<lparr>p_parent := None\<rparr>) s"
      using True by (simp add: t_def forget_part_def)
    have no: "bd_priv (dev_at s j) \<noteq> k" if "j < ANX_BLK_MAX_DEVS" "is_part s j" for j
    proof -
      have "bd_used (dev_at s j)" using wf that by (auto simp: blk_wf_def wf_ops_def anx_part_is_partition_def)
      then show ?thesis using None that by (auto simp: find_None_iff used_slots_iff len)
    qed
    then have "blk_wf t" unfolding t using wf k by (intro blk_wf_pool)
    moreover have "active_dev s = keep_active (child_in s parent {k}) (active_dev s)"
      using wf no by (auto simp: keep_active_def child blk_wf_def wf_active_def split: option.split)
    ultimately show ?thesis using no pool [of s] by (auto simp: t forgotten_def child)
  next
    case (Some dev)
    then have d: "dev < ANX_BLK_MAX_DEVS" "bd_priv (dev_at s dev) = k" "is_part s dev"
      using nth_mem [of _ "used_slots s"] by (auto simp: find_Some_iff used_slots_iff len)
    let ?u = "blk_drop dev s"
    have t: "t = set_part k ((part_pool s ! k)\<lparr>p_parent := None\<rparr>) ?u"
      using True Some by (simp add: t_def forget_part_def)
    have at: "dev_at ?u i = (if i = dev then cleared (dev_at s dev) else dev_at s i)" for i
      unfolding cleared_def using d len by (intro dev_at_blk_drop) simp
    have pa: "is_part ?u i \<longleftrightarrow> i \<noteq> dev \<and> is_part s i" for i
      by (simp add: anx_part_is_partition_def at)
    have only: "child_in s parent {k} i \<longleftrightarrow> i = dev" if "i < ANX_BLK_MAX_DEVS" for i
      using wf that d by (auto simp: child blk_wf_def wf_parts_def)
    have "blk_wf ?u"
    proof (rule blk_drop_wf [OF wf d(1)])
      fix i assume "i < ANX_BLK_MAX_DEVS" "is_part s i"
      then have "wf_part s i" using wf by (simp add: blk_wf_def wf_parts_def)
      then show "p_parent (part_of s i) \<noteq> Some dev" using d(3) by (auto simp: wf_part_def)
    qed
    moreover have "bd_priv (dev_at ?u j) \<noteq> k" if "j < ANX_BLK_MAX_DEVS" "is_part ?u j" for j
      using only [OF that(1)] that by (auto simp: at pa child)
    ultimately have "blk_wf t" unfolding t using k by (intro blk_wf_pool) simp_all
    moreover have "active_dev t = keep_active (child_in s parent {k}) (active_dev s)"
      using wf only by (auto simp: t keep_active_def blk_drop_def blk_wf_def wf_active_def split: option.split)
    ultimately show ?thesis using only pool [of ?u] at by (auto simp: t forgotten_def)
  qed
qed

lemma forgotten_step:
  assumes wf: "blk_wf s" and s1: "forgotten s parent {k} s1" and t: "forgotten s1 parent K t"
  shows "forgotten s parent (insert k K) t"
proof -
  have priv: "bd_priv (dev_at s i) < PART_MAX" if "i < ANX_BLK_MAX_DEVS" "is_part s i" for i
    using wf that by (simp add: blk_wf_def wf_parts_def wf_part_def)
  have child: "child_in s parent (insert k K) i \<longleftrightarrow> child_in s parent {k} i \<or> child_in s1 parent K i" if i: "i < ANX_BLK_MAX_DEVS" for i
  proof (cases "is_part s i \<and> \<not> child_in s parent {k} i")
    case True
    then have e: "dev_at s1 i = dev_at s i" "is_part s1 i" using s1 i forgotten_part [OF s1 i] by (simp_all add: forgotten_def)
    have "part_of s1 i = part_of s i"
      using s1 priv [OF i] True by (auto simp: part_of_def e forgotten_def unparent_def child_in_def)
    then show ?thesis using e True by (auto simp: child_in_def)
  next
    case False
    then show ?thesis using forgotten_part [OF s1 i] by (auto simp: child_in_def)
  qed
  have "unparent parent K j (unparent parent {k} j p) = unparent parent (insert k K) j p" for j p
    by (simp add: unparent_def)
  moreover have "cleared (cleared d) = cleared d" for d by (simp add: cleared_def)
  moreover have "keep_active (child_in s parent (insert k K)) (active_dev s) =
      keep_active (\<lambda>i. child_in s parent {k} i \<or> child_in s1 parent K i) (active_dev s)"
    using wf child by (intro keep_active_cong) (simp add: blk_wf_def wf_active_def)
  ultimately show ?thesis using s1 t child by (auto simp: forgotten_def keep_active_comp)
qed

lemma forget_children_fold:
  "blk_wf s \<Longrightarrow> set ks \<subseteq> {..<PART_MAX} \<Longrightarrow>
     blk_wf (fold (forget_part parent) ks s) \<and> forgotten s parent (set ks) (fold (forget_part parent) ks s)"
proof (induction ks arbitrary: s)
  case Nil
  then show ?case by (simp add: forgotten_def child_in_def unparent_def keep_active_def split: option.split)
next
  case (Cons k ks)
  then have st: "blk_wf (forget_part parent k s)" "forgotten s parent {k} (forget_part parent k s)"
    using forget_part_step [of s k parent] by simp_all
  then show ?case using Cons.IH [OF st(1)] Cons.prems forgotten_step [OF Cons.prems(1) st(2)] by simp
qed

lemma forget_children:
  assumes "blk_wf s"
  shows "blk_wf (anx_part_forget_children parent s)" "forgotten s parent {..<PART_MAX} (anx_part_forget_children parent s)"
  using forget_children_fold [OF assms, of "[0..<PART_MAX]" parent]
  by (simp_all add: anx_part_forget_children_def blk_wf_lengths [OF assms] lessThan_atLeast0)

text \<open>After a parent's partitions are forgotten, no partition device names it.\<close>

lemma forget_children_none:
  assumes "blk_wf s" "i < ANX_BLK_MAX_DEVS" "is_part (anx_part_forget_children parent s) i"
  shows "p_parent (part_of (anx_part_forget_children parent s) i) \<noteq> Some parent"
proof -
  let ?t = "anx_part_forget_children parent s"
  have "bd_priv (dev_at ?t i) < PART_MAX"
    using forget_children(1) [OF assms(1)] assms(2,3) by (simp add: blk_wf_def wf_parts_def wf_part_def)
  then show ?thesis using forget_children(2) [OF assms(1), of parent] by (simp add: part_of_def forgotten_def unparent_def)
qed

lemma unregister_wf:
  assumes wf: "blk_wf s" and dev: "dev < ANX_BLK_MAX_DEVS"
  shows "blk_wf (anx_blk_dev_unregister dev s)"
proof (cases "bd_used (dev_at s dev)")
  case False
  then show ?thesis using wf by (simp add: anx_blk_dev_unregister_def)
next
  case used: True
  show ?thesis
  proof (cases "is_part s dev")
    case True
    have "blk_wf (blk_drop dev s)"
    proof (rule blk_drop_wf [OF wf dev])
      fix i assume "i < ANX_BLK_MAX_DEVS" "is_part s i"
      then have "wf_part s i" using wf by (simp add: blk_wf_def wf_parts_def)
      then show "p_parent (part_of s i) \<noteq> Some dev" using True by (auto simp: wf_part_def)
    qed
    then show ?thesis using used True by (simp add: anx_blk_dev_unregister_def)
  next
    case False
    have "blk_wf (blk_drop dev (anx_part_forget_children dev s))"
      using forget_children_none [OF wf] by (intro blk_drop_wf forget_children(1) wf dev) blast
    then show ?thesis using used False by (simp add: anx_blk_dev_unregister_def)
  qed
qed

lemma part_scan_wf:
  assumes "blk_wf s" "dev < ANX_BLK_MAX_DEVS"
  shows "blk_wf (snd (anx_part_scan tab gpt_read alloc_ok dev s))"
  using assms part_scan_loop_wf [OF assms]
  by (auto simp: anx_part_scan_def Let_def split: prod.splits)

lemma dev_at_bound: "anx_blk_dev_at i s = Some dev \<Longrightarrow> dev < length (blk_devs s)"
  using nth_mem [of i "used_slots s"] by (auto simp: anx_blk_dev_at_def used_slots_def split: if_splits)

lemma part_scan_all_wf:
  assumes "blk_wf s"
  shows "blk_wf (anx_part_scan_all tab gpt_read alloc_ok s)"
proof -
  have "blk_wf (fold (\<lambda>i s. case anx_blk_dev_at i s of None \<Rightarrow> s
       | Some dev \<Rightarrow> if is_part s dev then s else snd (anx_part_scan tab gpt_read alloc_ok dev s)) is s)"
    if "blk_wf s" for "is" and s :: "'a blk_state_scheme"
    using that
  proof (induction "is" arbitrary: s)
    case (Cons i "is")
    then show ?case
      using part_scan_wf [OF Cons.prems] dev_at_bound [of i s] blk_wf_lengths [OF Cons.prems]
      by (auto split: option.splits)
  qed simp
  then show ?thesis using assms by (simp add: anx_part_scan_all_def)
qed

text \<open>The states the registry goes through.\<close>

inductive blk_reach :: "blk_state \<Rightarrow> bool" where
  boot: "blk_reach blk_boot"
| register: "blk_reach s \<Longrightarrow> ops \<noteq> OpsPart \<Longrightarrow> blk_reach (snd (anx_blk_dev_register ops priv base s))"
| register_named: "blk_reach s \<Longrightarrow> ops \<noteq> OpsPart \<Longrightarrow> length nm < ANX_BLK_NAME_MAX \<Longrightarrow> blk_reach (snd (anx_blk_dev_register_named ops priv nm s))"
| scan: "blk_reach s \<Longrightarrow> dev < ANX_BLK_MAX_DEVS \<Longrightarrow> blk_reach (snd (anx_part_scan tab gpt_read alloc_ok dev s))"
| scan_all: "blk_reach s \<Longrightarrow> blk_reach (anx_part_scan_all tab gpt_read alloc_ok s)"
| unregister: "blk_reach s \<Longrightarrow> dev < ANX_BLK_MAX_DEVS \<Longrightarrow> blk_reach (anx_blk_dev_unregister dev s)"
| forget: "blk_reach s \<Longrightarrow> blk_reach (anx_part_forget_children dev s)"
| claim: "blk_reach s \<Longrightarrow> dev < ANX_BLK_MAX_DEVS \<Longrightarrow> blk_reach (anx_blk_dev_claim dev s)"
| release: "blk_reach s \<Longrightarrow> dev < ANX_BLK_MAX_DEVS \<Longrightarrow> blk_reach (anx_blk_dev_release dev s)"
| active: "blk_reach s \<Longrightarrow> dev < ANX_BLK_MAX_DEVS \<Longrightarrow> blk_reach (anx_blk_set_active (Some dev) s)"
| inactive: "blk_reach s \<Longrightarrow> blk_reach (anx_blk_set_active None s)"

lemma set_active_wf:
  "blk_wf s \<Longrightarrow> dev < ANX_BLK_MAX_DEVS \<Longrightarrow> blk_wf (anx_blk_set_active (Some dev) s)"
  "blk_wf s \<Longrightarrow> blk_wf (anx_blk_set_active None s)"
  by (auto simp: anx_blk_set_active_def blk_wf_active blk_wf_inactive)

lemma blk_reach_wf: "blk_reach s \<Longrightarrow> blk_wf s"
  by (induction rule: blk_reach.induct)
    (auto simp: anx_blk_dev_claim_def anx_blk_dev_release_def
      intro: blk_wf_boot dev_register_wf dev_register_named_wf forget_children(1) part_scan_wf part_scan_all_wf unregister_wf blk_wf_flags set_active_wf)

subsection \<open>Containment of partition requests\<close>

lemma part_range:
  fixes lba sectors start :: u64 and count :: u32
  assumes "\<not> (lba \<ge> sectors \<or> ucast count > sectors - lba)" "unat start + unat sectors < 2 ^ 64"
  shows "unat (start + lba) = unat start + unat lba" and "unat lba + unat count \<le> unat sectors"
proof -
  have lt: "unat lba < unat sectors" using assms(1) by (simp add: word_less_nat_alt not_le)
  show "unat (start + lba) = unat start + unat lba"
    using lt assms(2) by (intro unat_add_u64) linarith
  have "unat (ucast count :: u64) = unat count"
    by (simp add: unsigned_ucast_eq take_bit_nat_eq_self less_trans [OF unat_u32_bound])
  moreover have "(ucast count :: u64) \<le> sectors - lba" using assms(1) by (simp add: not_less)
  moreover have "unat (sectors - lba) = unat sectors - unat lba"
    using lt by (intro unat_sub_u64) (simp add: word_le_nat_alt)
  ultimately show "unat lba + unat count \<le> unat sectors"
    using lt by (simp add: word_le_nat_alt)
qed

text \<open>One entry of a scan.\<close>

lemma part_scan_loop_cases:
  obtains (skip) "part_scan_loop dev sectors (e # es) n s = part_scan_loop dev sectors es n s"
  | (stop) "blk_devs (snd (part_scan_loop dev sectors (e # es) n s)) = blk_devs s"
      "\<And>k. p_parent (part_pool s ! k) \<noteq> None \<Longrightarrow> part_pool (snd (part_scan_loop dev sectors (e # es) n s)) ! k = part_pool s ! k"
  | (add) j k t where "part_scan_loop dev sectors (e # es) n s = part_scan_loop dev sectors es (n + 1) t"
      "e_start_lba e \<noteq> 0" "e_start_lba e \<le> e_end_lba e" "e_end_lba e < sectors"
      "k < length (part_pool s)" "p_parent (part_pool s ! k) = None"
      "j < length (blk_devs s)" "\<not> bd_used (dev_at s j)"
      "part_pool t = (part_pool s)[k := scan_entry dev e]" "bd_used (dev_at t j)"
      "bd_ops (dev_at t j) = Some OpsPart" "bd_priv (dev_at t j) = k" "\<And>i. i \<noteq> j \<Longrightarrow> dev_at t i = dev_at s i"
proof (cases "e_start_lba e = 0 \<or> e_end_lba e < e_start_lba e \<or> e_end_lba e \<ge> sectors")
  case True
  then show thesis by (intro skip) simp
next
  case ok: False
  show thesis
  proof (cases "part_alloc s")
    case None
    then show thesis using ok by (intro stop) simp_all
  next
    case (Some k)
    note k = part_alloc_Some [OF Some]
    let ?s1 = "set_part k (scan_entry dev e) s"
    let ?r = "anx_blk_dev_register_named OpsPart k (part_name (bd_name (dev_at ?s1 dev)) (e_index e)) ?s1"
    show thesis
    proof (cases ?r)
      case (Pair r t)
      show thesis
      proof (cases r)
        case None
        then have "t = ?s1" using Pair register_named_None by blast
        then have "snd (part_scan_loop dev sectors (e # es) n s)
            = set_part k ((scan_entry dev e)\<lparr>p_parent := None\<rparr>) ?s1"
          using ok Some None Pair by (simp add: Let_def)
        then show thesis using k by (intro stop) (auto simp: set_part_def nth_list_update simp del: part_scan_loop.simps)
      next
        case (Some j)
        have "part_scan_loop dev sectors (e # es) n s = part_scan_loop dev sectors es (n + 1) t"
          using ok \<open>part_alloc s = Some k\<close> Some Pair by (simp add: Let_def)
        then show thesis
          using add [of t k j] ok k register_named_frame [OF Pair [unfolded Some]]
          by (auto simp: set_part_def not_less not_le simp del: part_scan_loop.simps)
      qed
    qed
  qed
qed

declare part_scan_loop.simps(2) [simp del]

lemma part_scan_loop_frame:
  "(bd_used (dev_at s i) \<longrightarrow> dev_at (snd (part_scan_loop dev sectors es n s)) i = dev_at s i)
   \<and> (p_parent (part_pool s ! k) \<noteq> None \<longrightarrow> part_pool (snd (part_scan_loop dev sectors es n s)) ! k = part_pool s ! k)"
proof (induction es arbitrary: n s)
  case (Cons e es)
  show ?case
  proof (cases rule: part_scan_loop_cases [of dev sectors e es n s])
    case skip
    then show ?thesis using Cons.IH by simp
  next
    case stop
    then show ?thesis by simp
  next
    case (add j k' t)
    have "bd_used (dev_at s i) \<Longrightarrow> dev_at t i = dev_at s i"
      using add(8,13) by (cases "i = j") simp_all
    moreover have "p_parent (part_pool s ! k) \<noteq> None \<Longrightarrow> part_pool t ! k = part_pool s ! k"
      using add(6,9) by (cases "k = k'") simp_all
    ultimately show ?thesis using Cons.IH [of t "n + 1"] add(1) by simp
  qed
qed simp

lemma part_scan_loop_new:
  assumes "\<not> bd_used (dev_at s i)" "bd_used (dev_at (snd (part_scan_loop dev sectors es n s)) i)"
  shows "let t = snd (part_scan_loop dev sectors es n s); p = part_of t i in is_part t i \<and> p_parent p = Some dev
    \<and> 0 < unat (p_start_lba p) \<and> unat (p_start_lba p) + unat (p_sectors p) \<le> unat sectors"
  using assms
proof (induction es arbitrary: n s)
  case (Cons e es)
  show ?case
  proof (cases rule: part_scan_loop_cases [of dev sectors e es n s])
    case skip
    then show ?thesis using Cons by simp
  next
    case stop
    then show ?thesis using Cons.prems by simp
  next
    case (add j k t)
    show ?thesis
    proof (cases "i = j")
      case True
      let ?u = "snd (part_scan_loop dev sectors es (n + 1) t)"
      have "part_pool t ! k = scan_entry dev e" using add by simp
      then have "part_pool ?u ! k = scan_entry dev e" "dev_at ?u i = dev_at t i"
        using part_scan_loop_frame [of t i dev sectors es "n + 1" k] add True
        by (simp_all add: scan_entry_def)
      then have "is_part ?u i" "part_of ?u i = scan_entry dev e"
        using add True by (simp_all add: anx_part_is_partition_def part_of_def)
      then show ?thesis
        using window_bounds(2) [OF add(3,4)] add(1,2) by (simp add: scan_entry_def unat_gt_0)
    next
      case False
      then have "\<not> bd_used (dev_at t i)" using add Cons.prems by simp
      then show ?thesis using Cons add(1) by simp
    qed
  qed
qed simp

subsection \<open>Properties\<close>

text \<open>C23: In every reachable state of the registry the names of the devices in use are
  pairwise different, so a lookup by name is unambiguous; the search for the lowest free
  index never runs out.\<close>

theorem blk_names_unique:
  assumes "blk_reach s" "i < length (blk_devs s)" "bd_used (dev_at s i)"
  shows "anx_blk_dev_find (bd_name (dev_at s i)) s = Some i"
proof -
  have wf: "blk_wf s" using assms(1) by (rule blk_reach_wf)
  have "name_taken s (bd_name (dev_at s i))" using assms(2,3) by (auto simp: name_taken_iff)
  then obtain j where j: "anx_blk_dev_find (bd_name (dev_at s i)) s = Some j"
    using dev_find_None by fastforce
  then have "j < length (blk_devs s)" "bd_used (dev_at s j)" "bd_name (dev_at s j) = bd_name (dev_at s i)"
    unfolding anx_blk_dev_find_def by (auto dest: find_upt_Some)
  then have "j = i" using blk_wf_names [OF wf, of j i] assms(2,3) blk_wf_lengths [OF wf] by simp
  with j show ?thesis by simp
qed

text \<open>C22: Unregistering a device removes exactly that device and the partitions that sit on it. In
  every reachable state, the slot of the device and the slots of its partitions are cleared
  and every other slot, partitions of other drives included, keeps its device; the pool entries
  of a drive's partitions are given back and no other entry changes; the active device is
  unset when it was one of the removed ones and kept otherwise. So no registered partition is
  left whose parent is gone.\<close>

theorem unregister_no_dangling:
  assumes "blk_reach s" "dev < ANX_BLK_MAX_DEVS" "bd_used (dev_at s dev)" "i < ANX_BLK_MAX_DEVS" "j < PART_MAX"
  defines "t \<equiv> anx_blk_dev_unregister dev s"
    and "gone \<equiv> \<lambda>i. i = dev \<or> (is_part s i \<and> p_parent (part_of s i) = Some dev)"
  shows "dev_at t i = (if gone i then cleared (dev_at s i) else dev_at s i)
    \<and> part_pool t ! j = (if \<not> is_part s dev \<and> p_parent (part_pool s ! j) = Some dev
                         then (part_pool s ! j)\<lparr>p_parent := None\<rparr> else part_pool s ! j)
    \<and> active_dev t = (case active_dev s of None \<Rightarrow> None | Some a \<Rightarrow> if gone a then None else Some a)
    \<and> (is_part t i \<longrightarrow> p_parent (part_of t i) \<noteq> Some dev)"
proof -
  have wf: "blk_wf s" using assms(1) by (rule blk_reach_wf)
  have wft: "blk_wf t" unfolding t_def using wf assms(2) by (rule unregister_wf)
  define K where "K = (if is_part s dev then {} else {..<PART_MAX})"
  define u where "u = (if \<not> is_part s dev then anx_part_forget_children dev s else s)"
  have u: "forgotten s dev K u"
    using forget_children(2) [OF wf, of dev]
    by (auto simp: u_def K_def forgotten_def child_in_def unparent_def keep_active_def split: option.split)
  have gone: "gone x \<longleftrightarrow> x = dev \<or> child_in s dev K x" if "x < ANX_BLK_MAX_DEVS" for x
    using wf that by (auto simp: gone_def child_in_def K_def blk_wf_def wf_parts_def wf_part_def)
  have "length (blk_devs u) = ANX_BLK_MAX_DEVS" using blk_wf_lengths [OF wf] blk_wf_lengths [OF forget_children(1) [OF wf]] by (simp add: u_def)
  moreover have t: "t = blk_drop dev u" using assms(3) by (simp add: t_def u_def anx_blk_dev_unregister_def)
  ultimately have at: "dev_at t x = (if x = dev then cleared (dev_at u dev) else dev_at u x)" for x
    unfolding t cleared_def using assms(2) by (intro dev_at_blk_drop) simp
  have "cleared (cleared d) = cleared d" for d by (simp add: cleared_def)
  then have 1: "dev_at t i = (if gone i then cleared (dev_at s i) else dev_at s i)"
    using u assms(2,4) gone [OF assms(4)] by (auto simp: at forgotten_def)
  have 2: "part_pool t ! j = unparent dev K j (part_pool s ! j)" using u assms(5) by (simp add: t forgotten_def)
  have "active_dev t = keep_active (\<lambda>x. x = dev) (active_dev u)"
    by (auto simp: t blk_drop_def keep_active_def split: option.split)
  also have "\<dots> = keep_active gone (active_dev s)"
    using u wf gone by (auto simp: forgotten_def keep_active_comp blk_wf_def wf_active_def intro!: keep_active_cong)
  finally have 3: "active_dev t = keep_active gone (active_dev s)" .
  have "\<not> bd_used (dev_at t dev)" by (simp add: at)
  then have "p_parent (part_of t i) \<noteq> Some dev" if "is_part t i"
    using wft that assms(4) by (auto simp: blk_wf_def wf_parts_def wf_part_def)
  then show ?thesis using 1 2 3 assms(5) by (auto simp: unparent_def K_def keep_active_def)
qed

text \<open>C20: A partition never reaches outside its window. Whatever sector and count a caller
  passes, a read or write of a registered partition either stops with the state untouched or
  becomes one request to the parent that lies entirely inside the partition's own sectors,
  with no wrap-around of the sector arithmetic.\<close>

theorem partition_requests_contained:
  assumes "blk_reach s" "i < ANX_BLK_MAX_DEVS" "is_part s i"
  defines "p \<equiv> part_of s i"
  shows "(\<exists>r. part_blk_write io i lba count buf s = (r, s) \<and> part_blk_read io i lba count s = ((r, []), s)) \<or>
    (\<exists>parent start. p_parent p = Some parent \<and> parent \<noteq> i
      \<and> part_blk_write io i lba count buf s = io_write io parent start count buf s
      \<and> part_blk_read io i lba count s = io_read io parent start count s
      \<and> unat (p_start_lba p) \<le> unat start
      \<and> unat start + unat count \<le> unat (p_start_lba p) + unat (p_sectors p))"
proof -
  have "wf_part s i" using blk_reach_wf [OF assms(1)] assms(2,3) by (simp add: blk_wf_def wf_parts_def)
  then obtain parent where par: "p_parent p = Some parent" "parent \<noteq> i"
    and fit: "unat (p_start_lba p) + unat (p_sectors p) < 2 ^ 64"
    using assms(3) by (auto simp: wf_part_def p_def)
  show ?thesis
  proof (cases "count = 0 \<or> lba \<ge> p_sectors p \<or> ucast count > p_sectors p - lba")
    case True
    then show ?thesis
      unfolding part_blk_write_def part_blk_read_def Let_def p_def [symmetric] by auto
  next
    case False
    then have ok: "\<not> (lba \<ge> p_sectors p \<or> ucast count > p_sectors p - lba)" by simp
    note r = part_range [OF ok fit]
    have "part_blk_write io i lba count buf s = io_write io parent (p_start_lba p + lba) count buf s"
      "part_blk_read io i lba count s = io_read io parent (p_start_lba p + lba) count s"
      using False par unfolding part_blk_write_def part_blk_read_def Let_def p_def [symmetric] by simp_all
    moreover have "unat (p_start_lba p) \<le> unat (p_start_lba p + lba)"
      "unat (p_start_lba p + lba) + unat count \<le> unat (p_start_lba p) + unat (p_sectors p)"
      using r by simp_all
    ultimately show ?thesis using par by blast
  qed
qed

text \<open>C21: A scan of a drive registers a partition only for table entries that lie inside the
  drive, whatever a malformed or hostile table says: every device it adds is a partition of
  that drive whose window starts after sector 0 and ends within the drive's capacity.\<close>

theorem scan_registers_inside:
  assumes "\<not> bd_used (dev_at s i)" "bd_used (dev_at (snd (anx_part_scan tab gpt_read alloc_ok dev s)) i)"
  shows "let t = snd (anx_part_scan tab gpt_read alloc_ok dev s); p = part_of t i in
    is_part t i \<and> p_parent p = Some dev \<and> 0 < unat (p_start_lba p)
    \<and> unat (p_start_lba p) + unat (p_sectors p) \<le> unat (anx_blk_dev_capacity tab dev s)"
  using assms part_scan_loop_new [OF assms(1), of dev "anx_blk_dev_capacity tab dev s" "snd (gpt_read dev s)" 0]
  by (auto simp: anx_part_scan_def Let_def split: if_splits prod.splits)

subsection \<open>A concrete registry\<close>

text \<open>One drive whose capacity is 100 sectors, with a table of one good entry and two that
  reach outside the drive.\<close>

definition ex_tab :: "blk_state blk_tab" where
  "ex_tab ops = \<lparr>io_read = (\<lambda>d lba n s. ((ANX_EIO, []), s)), io_write = (\<lambda>d lba n b s. (ANX_EIO, s)),
     io_capacity = (\<lambda>d s. 100)\<rparr>"

definition ex_gpt :: "nat \<Rightarrow> blk_state \<Rightarrow> int \<times> anx_gpt_partition list" where
  "ex_gpt dev s = (ANX_OK,
     [\<lparr>e_index = 1, e_type_lo = 0, e_type_hi = 0, e_guid_lo = 0, e_guid_hi = 0, e_start_lba = 90, e_end_lba = 120, e_attributes = 0, e_name = []\<rparr>,
      \<lparr>e_index = 2, e_type_lo = 0, e_type_hi = 0, e_guid_lo = 0, e_guid_hi = 0, e_start_lba = 10, e_end_lba = 19, e_attributes = 0, e_name = []\<rparr>,
      \<lparr>e_index = 3, e_type_lo = 0, e_type_hi = 0, e_guid_lo = 0, e_guid_hi = 0, e_start_lba = 20, e_end_lba = 19, e_attributes = 0, e_name = []\<rparr>])"

definition ex_drive :: blk_state where
  "ex_drive = snd (anx_blk_dev_register OpsDriver 0 ''nvme'' blk_boot)"

definition ex_scanned :: blk_state where
  "ex_scanned = snd (anx_part_scan ex_tab ex_gpt True 0 ex_drive)"

lemma ex_reach: "blk_reach ex_drive" "blk_reach ex_scanned"
  by (auto simp: ex_drive_def ex_scanned_def ANX_BLK_MAX_DEVS_def intro!: blk_reach.intros)

lemma find_upt_step:
  "find P [i..<n] = (if i < n then if P i then Some i else find P [Suc i..<n] else None)"
  by (simp add: upt_rec)

lemma replicate_32: "replicate 32 x = x # x # replicate 30 x" "replicate 30 x = x # replicate 29 x"
  "replicate 64 y = y # replicate 63 y"
  by (simp_all add: numeral_eq_Suc)

lemma update_two: "(x # y # z # xs)[2 := v] = x # y # v # xs" "(x # y # z # xs)[Suc (Suc 0) := v] = x # y # v # xs"
  by (simp_all add: numeral_2_eq_2)

lemma list_ex_rep: "list_ex P (replicate n x) \<longleftrightarrow> n \<noteq> 0 \<and> P x"
  by (induction n) auto

lemmas blk_eval = anx_blk_dev_register_def anx_blk_dev_register_named_def blk_boot_def free_slot_def
  ANX_BLK_MAX_DEVS_def PART_MAX_def blk_dev_null_def part_null_def set_dev_def set_part_def Let_def
  blk_pick_name_def find_upt_step name_taken_def blk_cand_def ANX_BLK_NAME_MAX_def digit_def
  replicate_32 anx_part_scan_def anx_part_is_partition_def anx_blk_dev_capacity_def
  part_alloc_def part_of_def anx_blk_dev_find_def part_name_def list_ex_rep char_of_def bit_0

lemma ex_drive_eq: "ex_drive = blk_boot\<lparr>blk_devs := \<lparr>bd_ops = Some OpsDriver, bd_priv = 0,
    bd_name = ''nvme0'', bd_flags = 0, bd_used = True\<rparr> # blk_dev_null # replicate 30 blk_dev_null, active_dev := Some 0\<rparr>"
  by (simp add: ex_drive_def blk_eval)

lemma ex_scanned_eq: "ex_scanned = ex_drive\<lparr>blk_devs := (blk_devs ex_drive)[1 := \<lparr>bd_ops = Some OpsPart, bd_priv = 0,
    bd_name = ''nvme0p2'', bd_flags = 0, bd_used = True\<rparr>],
    part_pool := (part_pool ex_drive)[0 := \<lparr>p_parent = Some 0, p_start_lba = 10, p_sectors = 10, p_index = 2,
      p_type_lo = 0, p_type_hi = 0, p_label = []\<rparr>]\<rparr>"
  by (simp add: ex_scanned_def ex_drive_eq ex_gpt_def ex_tab_def blk_eval part_scan_loop.simps scan_entry_def
    ANX_PART_LABEL_MAX_def)

lemma ex_scanned_dev: "bd_used (dev_at ex_scanned 0)" "is_part ex_scanned 1" "bd_used (dev_at ex_scanned 1)"
  "\<not> bd_used (dev_at ex_drive 1)" "bd_name (dev_at ex_scanned 1) = ''nvme0p2''" "length (blk_devs ex_scanned) = 32"
  "part_of ex_scanned 1 = \<lparr>p_parent = Some 0, p_start_lba = 10, p_sectors = 10, p_index = 2,
      p_type_lo = 0, p_type_hi = 0, p_label = []\<rparr>"
  by (simp_all add: ex_scanned_eq ex_drive_eq blk_eval)

lemma ex_scanned_parent: "\<not> is_part ex_scanned 0" "p_parent (part_pool ex_scanned ! 0) = Some 0"
  by (simp_all add: ex_scanned_eq ex_drive_eq blk_boot_def anx_part_is_partition_def PART_MAX_def ANX_BLK_MAX_DEVS_def)

theorem blk_names_unique_witness: "anx_blk_dev_find ''nvme0p2'' ex_scanned = Some 1"
  using blk_names_unique [OF ex_reach(2), of 1] ex_scanned_dev by simp

theorem unregister_no_dangling_witness:
  "\<not> bd_used (dev_at (anx_blk_dev_unregister 0 ex_scanned) 0) \<and> \<not> bd_used (dev_at (anx_blk_dev_unregister 0 ex_scanned) 1)
   \<and> p_parent (part_pool (anx_blk_dev_unregister 0 ex_scanned) ! 0) = None
   \<and> dev_at (anx_blk_dev_unregister 1 ex_scanned) 0 = dev_at ex_scanned 0"
  using unregister_no_dangling [OF ex_reach(2), of 0 0 0] unregister_no_dangling [OF ex_reach(2), of 0 1 0]
    unregister_no_dangling [OF ex_reach(2), of 1 0 0] ex_scanned_dev ex_scanned_parent
  by (simp add: ANX_BLK_MAX_DEVS_def PART_MAX_def)

theorem partition_requests_contained_witness:
  "(\<exists>parent start. p_parent (part_of ex_scanned 1) = Some parent
      \<and> part_blk_read (ex_tab OpsDriver) 1 4 6 ex_scanned = io_read (ex_tab OpsDriver) parent start 6 ex_scanned
      \<and> unat start + 6 \<le> 20)
   \<or> (\<exists>r. part_blk_read (ex_tab OpsDriver) 1 4 6 ex_scanned = ((r, []), ex_scanned))"
  using partition_requests_contained [OF ex_reach(2), of 1 "ex_tab OpsDriver" 4 6 "[]"] ex_scanned_dev(2,7)
  by (auto simp: ANX_BLK_MAX_DEVS_def)

theorem scan_registers_inside_witness:
  "p_parent (part_of ex_scanned 1) = Some 0 \<and> unat (p_start_lba (part_of ex_scanned 1))
     + unat (p_sectors (part_of ex_scanned 1)) \<le> unat (anx_blk_dev_capacity ex_tab 0 ex_drive)"
  using scan_registers_inside [of ex_drive 1 ex_tab ex_gpt True 0] ex_scanned_dev(3,4)
  by (simp add: ex_scanned_def [symmetric] Let_def)

text \<open>Two drives with a free slot between them, as an unregistered drive leaves it.\<close>

definition ex_gap :: blk_state where
  "ex_gap = anx_blk_dev_unregister 1 (snd (anx_blk_dev_register OpsDriver 2 ''nvme''
     (snd (anx_blk_dev_register OpsDriver 1 ''nvme'' ex_drive))))"

lemma forget_part_none: "p_parent (part_pool s ! k) \<noteq> Some parent \<Longrightarrow> forget_part parent k s = s"
  by (simp add: forget_part_def)

lemma forget_children_idle:
  "(\<And>k. k < length (part_pool s) \<Longrightarrow> p_parent (part_pool s ! k) \<noteq> Some parent) \<Longrightarrow> anx_part_forget_children parent s = s"
proof -
  assume none: "\<And>k. k < length (part_pool s) \<Longrightarrow> p_parent (part_pool s ! k) \<noteq> Some parent"
  have "fold (forget_part parent) ks s = s" if "set ks \<subseteq> {..<length (part_pool s)}" for ks
    using that by (induction ks) (auto simp: forget_part_none none)
  then show ?thesis by (simp add: anx_part_forget_children_def lessThan_atLeast0)
qed

lemma ex_gap_eq: "ex_gap = ex_drive\<lparr>blk_devs := (blk_devs ex_drive)[2 := \<lparr>bd_ops = Some OpsDriver, bd_priv = 2,
    bd_name = ''nvme2'', bd_flags = 0, bd_used = True\<rparr>]\<rparr>"
proof -
  let ?two = "snd (anx_blk_dev_register OpsDriver 1 ''nvme'' ex_drive)"
  let ?three = "snd (anx_blk_dev_register OpsDriver 2 ''nvme'' ?two)"
  have three: "?three = ex_drive\<lparr>blk_devs := (blk_devs ex_drive)[1 := \<lparr>bd_ops = Some OpsDriver, bd_priv = 1,
      bd_name = ''nvme1'', bd_flags = 0, bd_used = True\<rparr>, 2 := \<lparr>bd_ops = Some OpsDriver, bd_priv = 2,
      bd_name = ''nvme2'', bd_flags = 0, bd_used = True\<rparr>]\<rparr>"
    by (simp add: ex_drive_eq blk_eval update_two)
  have "anx_part_forget_children 1 ?three = ?three"
    unfolding three
    by (rule forget_children_idle) (simp add: ex_drive_eq blk_boot_def PART_MAX_def ANX_BLK_MAX_DEVS_def part_null_def)
  then show ?thesis
    unfolding ex_gap_def three
    by (simp add: anx_blk_dev_unregister_def anx_part_is_partition_def)
      (simp add: ex_drive_eq blk_drop_def set_dev_def blk_dev_null_def replicate_32 update_two)
qed

definition ex_gap_scanned :: blk_state where
  "ex_gap_scanned = ex_gap\<lparr>blk_devs := (blk_devs ex_gap)[1 := \<lparr>bd_ops = Some OpsPart, bd_priv = 0,
    bd_name = ''nvme0p2'', bd_flags = 0, bd_used = True\<rparr>],
    part_pool := (part_pool ex_gap)[0 := \<lparr>p_parent = Some 0, p_start_lba = 10, p_sectors = 10, p_index = 2,
      p_type_lo = 0, p_type_hi = 0, p_label = []\<rparr>]\<rparr>"

lemma ex_gap_scan0: "anx_part_scan ex_tab ex_gpt True 0 ex_gap = (1, ex_gap_scanned)"
  by (simp add: ex_gap_scanned_def ex_gap_eq ex_drive_eq ex_gpt_def ex_tab_def blk_eval update_two part_scan_loop.simps
    scan_entry_def ANX_PART_LABEL_MAX_def)

lemma ex_gap_scan2: "fst (anx_part_scan ex_tab ex_gpt True 2 ex_gap) = 1"
  by (simp add: ex_gap_eq ex_drive_eq ex_gpt_def ex_tab_def blk_eval update_two part_scan_loop.simps
    scan_entry_def ANX_PART_LABEL_MAX_def)

lemma nth_three: "i \<ge> 3 \<Longrightarrow> i < 32 \<Longrightarrow> (x # y # z # replicate 29 w) ! i = w"
  by (auto simp: nth_Cons' numeral_eq_Suc)

lemma ex_gap_dev: "dev_at ex_gap 0 = \<lparr>bd_ops = Some OpsDriver, bd_priv = 0, bd_name = ''nvme0'', bd_flags = 0, bd_used = True\<rparr>"
  "dev_at ex_gap (Suc 0) = blk_dev_null" "bd_ops (dev_at ex_gap 2) = Some OpsDriver" "bd_used (dev_at ex_gap 2)"
  "i \<ge> 3 \<Longrightarrow> i < 32 \<Longrightarrow> dev_at ex_gap i = blk_dev_null" "length (blk_devs ex_gap) = 32" "length (part_pool ex_gap) = 64"
  by (simp_all add: ex_gap_eq ex_drive_eq replicate_32 update_two nth_three blk_boot_def PART_MAX_def ANX_BLK_MAX_DEVS_def)

lemma upt_32: "[0..<32] = [0, 1, 2] @ [3..<32]"
  using upt_add_eq_append [of 0 3 29] by (simp add: upt_rec)

lemma ex_gap_used: "used_slots ex_gap = [0, 2]" "used_slots ex_gap_scanned = [0, 1, 2]"
proof -
  have n: "filter (\<lambda>i. bd_used (dev_at ex_gap i)) [3..<32] = []"
    "filter (\<lambda>i. bd_used (dev_at ex_gap_scanned i)) [3..<32] = []"
    by (auto simp: filter_empty_conv ex_gap_dev ex_gap_scanned_def blk_dev_null_def)
  show "used_slots ex_gap = [0, 2]" "used_slots ex_gap_scanned = [0, 1, 2]"
    using n by (simp_all add: used_slots_def upt_32 ex_gap_dev ex_gap_scanned_def blk_dev_null_def)
qed

lemma ex_gap_scan_all: "anx_part_scan_all ex_tab ex_gpt True ex_gap = ex_gap_scanned"
proof -
  have "is_part ex_gap_scanned 1" "\<not> is_part ex_gap 0"
    by (simp_all add: anx_part_is_partition_def ex_gap_scanned_def ex_gap_dev)
  then show ?thesis
    by (simp add: anx_part_scan_all_def anx_blk_dev_count_def anx_blk_dev_at_def ex_gap_used ex_gap_scan0
      upt_rec)
qed

text \<open>C24: Scanning every drive can miss one. With a free slot below a drive, the first
  partition registered takes that slot, the position of the later drive in the registry's
  enumeration moves past the count taken at the start, and the drive is never scanned, although
  a scan of it alone registers a partition.\<close>

theorem scan_all_misses_drive:
  "blk_reach ex_gap \<and> bd_used (dev_at ex_gap 2) \<and> \<not> is_part ex_gap 2
   \<and> fst (anx_part_scan ex_tab ex_gpt True 2 ex_gap) = 1
   \<and> filter (is_part (anx_part_scan_all ex_tab ex_gpt True ex_gap)) [0..<ANX_BLK_MAX_DEVS] = [1]
   \<and> p_parent (part_of (anx_part_scan_all ex_tab ex_gpt True ex_gap) 1) = Some 0"
proof -
  have "blk_reach ex_gap"
    unfolding ex_gap_def using ex_reach(1)
    by (intro blk_reach.unregister blk_reach.register) (simp_all add: ANX_BLK_MAX_DEVS_def)
  moreover have "filter (is_part ex_gap_scanned) [3..<32] = []"
    by (auto simp: filter_empty_conv anx_part_is_partition_def ex_gap_dev ex_gap_scanned_def blk_dev_null_def)
  then have "filter (is_part ex_gap_scanned) [0..<ANX_BLK_MAX_DEVS] = [1]"
    by (simp add: ANX_BLK_MAX_DEVS_def upt_32 anx_part_is_partition_def ex_gap_scanned_def ex_gap_dev)
  moreover have "p_parent (part_of ex_gap_scanned 1) = Some 0"
    by (simp add: part_of_def ex_gap_scanned_def ex_gap_dev)
  ultimately show ?thesis
    using ex_gap_scan2 by (simp add: ex_gap_scan_all ex_gap_dev anx_part_is_partition_def)
qed

end
