(* ===== verification/Md.thy ===== *)
theory Md
  imports Blk
begin

text \<open>
  The software RAID layer of \<^verbatim>\<open>kernel/core/md\<close>: array table and lifecycle
  (\<^verbatim>\<open>md.c\<close>), striping (\<^verbatim>\<open>md_raid0.c\<close>), mirroring and rebuild
  (\<^verbatim>\<open>md_raid1.c\<close>) and the on-disk superblock (\<^verbatim>\<open>md_super.c\<close>). The state
  extends the registry of \<open>Blk\<close> by the static table of arrays and by the contents of the
  drives, which only the operation tables touch. A pointer to an array is its index in the
  table. Requests to member devices go through \<open>io\<close>, the dispatch of the registry.
\<close>

subsection \<open>Constants and state\<close>

definition ANX_MD_MAGIC :: u32 where "ANX_MD_MAGIC = 0x414E5852"
definition ANX_MD_SB_VERSION :: u32 where "ANX_MD_SB_VERSION = 1"
definition ANX_MD_MAX_MEMBERS :: nat where "ANX_MD_MAX_MEMBERS = 8"
definition ANX_MD_MAX_ARRAYS :: nat where "ANX_MD_MAX_ARRAYS = 4"
definition ANX_MD_SB_SECTOR_HEAD :: u64 where "ANX_MD_SB_SECTOR_HEAD = 8"
definition ANX_MD_DATA_OFFSET :: u64 where "ANX_MD_DATA_OFFSET = 2048"
definition ANX_MD_SB_TAIL_BACK :: u64 where "ANX_MD_SB_TAIL_BACK = 8"
definition ANX_MD_DEFAULT_CHUNK :: u32 where "ANX_MD_DEFAULT_CHUNK = 128"
definition ANX_MD_SB_TAIL :: u32 where "ANX_MD_SB_TAIL = 1"
definition ANX_MD_LEVEL_RAID0 :: u32 where "ANX_MD_LEVEL_RAID0 = 0"
definition ANX_MD_LEVEL_RAID1 :: u32 where "ANX_MD_LEVEL_RAID1 = 1"
definition ANX_MD_MEMBER_EMPTY :: u32 where "ANX_MD_MEMBER_EMPTY = 0"
definition ANX_MD_MEMBER_ACTIVE :: u32 where "ANX_MD_MEMBER_ACTIVE = 1"
definition ANX_MD_MEMBER_FAULTY :: u32 where "ANX_MD_MEMBER_FAULTY = 2"
definition ANX_MD_MEMBER_SPARE :: u32 where "ANX_MD_MEMBER_SPARE = 3"
definition ANX_MD_ARRAY_CLEAN :: u32 where "ANX_MD_ARRAY_CLEAN = 0"
definition ANX_MD_ARRAY_DEGRADED :: u32 where "ANX_MD_ARRAY_DEGRADED = 1"
definition ANX_MD_ARRAY_REBUILDING :: u32 where "ANX_MD_ARRAY_REBUILDING = 2"
definition ANX_MD_ARRAY_FAILED :: u32 where "ANX_MD_ARRAY_FAILED = 3"
definition RAID1_RESYNC_CHUNK :: u32 where "RAID1_RESYNC_CHUNK = 128"

lemmas md_consts = ANX_MD_MAGIC_def ANX_MD_SB_VERSION_def ANX_MD_LEVEL_RAID0_def ANX_MD_LEVEL_RAID1_def
  ANX_MD_MEMBER_EMPTY_def ANX_MD_MEMBER_ACTIVE_def ANX_MD_MEMBER_FAULTY_def ANX_MD_MEMBER_SPARE_def
  ANX_MD_SB_TAIL_def

record anx_md_member =
  m_dev :: "nat option"
  m_data_offset :: u64
  m_state :: u32
  m_events :: u64

record anx_md_array =
  a_used :: bool
  a_name :: string
  a_uuid :: "u8 list"
  a_level :: u32
  a_chunk_sectors :: u32
  a_member_count :: u32
  a_member_sectors :: u64
  a_array_sectors :: u64
  a_events :: u64
  a_created :: u64
  a_tail_meta :: bool
  a_read_cursor :: u32
  a_resync_offset :: u64
  a_members :: "anx_md_member list"
  a_bdev :: "nat option"

record 'd storage = blk_state +
  md_arrays :: "anx_md_array list"
  drives :: 'd

definition md_member_null :: anx_md_member where
  "md_member_null = \<lparr>m_dev = None, m_data_offset = 0, m_state = 0, m_events = 0\<rparr>"

definition md_array_null :: anx_md_array where
  "md_array_null = \<lparr>a_used = False, a_name = [], a_uuid = replicate 16 0, a_level = 0, a_chunk_sectors = 0,
     a_member_count = 0, a_member_sectors = 0, a_array_sectors = 0, a_events = 0, a_created = 0,
     a_tail_meta = False, a_read_cursor = 0, a_resync_offset = 0,
     a_members = replicate ANX_MD_MAX_MEMBERS md_member_null, a_bdev = None\<rparr>"

abbreviation arr :: "('d, 'a) storage_scheme \<Rightarrow> nat \<Rightarrow> anx_md_array" where
  "arr s a \<equiv> md_arrays s ! a"

abbreviation memb :: "('d, 'a) storage_scheme \<Rightarrow> nat \<Rightarrow> nat \<Rightarrow> anx_md_member" where
  "memb s a i \<equiv> a_members (arr s a) ! i"

abbreviation mcount :: "('d, 'a) storage_scheme \<Rightarrow> nat \<Rightarrow> nat" where
  "mcount s a \<equiv> unat (a_member_count (arr s a))"

definition set_arr :: "nat \<Rightarrow> anx_md_array \<Rightarrow> 'd storage \<Rightarrow> 'd storage" where
  "set_arr a x s = s\<lparr>md_arrays := (md_arrays s)[a := x]\<rparr>"

definition set_memb :: "nat \<Rightarrow> nat \<Rightarrow> anx_md_member \<Rightarrow> 'd storage \<Rightarrow> 'd storage" where
  "set_memb a i m s = set_arr a ((arr s a)\<lparr>a_members := (a_members (arr s a))[i := m]\<rparr>) s"

subsection \<open>The array table and state reporting\<close>

definition anx_md_alloc_array :: "'d storage \<Rightarrow> nat option \<times> 'd storage" where
  "anx_md_alloc_array s =
     (case find (\<lambda>i. \<not> a_used (arr s i)) [0..<ANX_MD_MAX_ARRAYS] of
        None \<Rightarrow> (None, s)
      | Some i \<Rightarrow> (Some i, set_arr i (md_array_null\<lparr>a_used := True\<rparr>) s))"

definition anx_md_free_array :: "nat \<Rightarrow> 'd storage \<Rightarrow> 'd storage" where
  "anx_md_free_array a s = set_arr a md_array_null s"

definition md_used_slots :: "'d storage \<Rightarrow> nat list" where
  "md_used_slots s = filter (\<lambda>i. a_used (arr s i)) [0..<ANX_MD_MAX_ARRAYS]"

definition anx_md_count :: "'d storage \<Rightarrow> nat" where
  "anx_md_count s = length (md_used_slots s)"

definition anx_md_at :: "nat \<Rightarrow> 'd storage \<Rightarrow> nat option" where
  "anx_md_at index s = (if index < length (md_used_slots s) then Some (md_used_slots s ! index) else None)"

definition anx_md_find :: "string \<Rightarrow> 'd storage \<Rightarrow> nat option" where
  "anx_md_find nm s = find (\<lambda>i. a_used (arr s i) \<and> a_name (arr s i) = nm) [0..<ANX_MD_MAX_ARRAYS]"

definition count_state :: "anx_md_array \<Rightarrow> u32 \<Rightarrow> nat" where
  "count_state x st = length (filter (\<lambda>i. m_dev (a_members x ! i) \<noteq> None \<and> m_state (a_members x ! i) = st)
     [0..<unat (a_member_count x)])"

definition anx_md_state :: "anx_md_array \<Rightarrow> u32" where
  "anx_md_state x =
     (if \<not> a_used x then ANX_MD_ARRAY_FAILED
      else
        let active = count_state x ANX_MD_MEMBER_ACTIVE; spare = count_state x ANX_MD_MEMBER_SPARE in
        if a_level x = ANX_MD_LEVEL_RAID0 then
          (if active = unat (a_member_count x) then ANX_MD_ARRAY_CLEAN else ANX_MD_ARRAY_FAILED)
        else if active = 0 then ANX_MD_ARRAY_FAILED
        else if spare > 0 then ANX_MD_ARRAY_REBUILDING
        else if active < unat (a_member_count x) then ANX_MD_ARRAY_DEGRADED
        else ANX_MD_ARRAY_CLEAN)"

definition anx_md_state_name :: "u32 \<Rightarrow> string" where
  "anx_md_state_name st =
     (if st = ANX_MD_ARRAY_CLEAN then ''clean'' else if st = ANX_MD_ARRAY_DEGRADED then ''degraded''
      else if st = ANX_MD_ARRAY_REBUILDING then ''rebuilding'' else ''failed'')"

definition anx_md_level_name :: "u32 \<Rightarrow> string" where
  "anx_md_level_name l =
     (if l = ANX_MD_LEVEL_RAID0 then ''raid0'' else if l = ANX_MD_LEVEL_RAID1 then ''raid1'' else ''unknown'')"

definition anx_md_member_state_name :: "u32 \<Rightarrow> string" where
  "anx_md_member_state_name st =
     (if st = ANX_MD_MEMBER_ACTIVE then ''active'' else if st = ANX_MD_MEMBER_FAULTY then ''faulty''
      else if st = ANX_MD_MEMBER_SPARE then ''spare'' else ''missing'')"

definition anx_md_parse_level :: "string \<Rightarrow> int" where
  "anx_md_parse_level t =
     (if t = ''0'' \<or> t = ''raid0'' then uint ANX_MD_LEVEL_RAID0
      else if t = ''1'' \<or> t = ''raid1'' then uint ANX_MD_LEVEL_RAID1
      else ANX_EINVAL)"

subsection \<open>The superblock\<close>

record anx_md_super =
  sb_magic :: u32
  sb_version :: u32
  sb_level :: u32
  sb_chunk_sectors :: u32
  sb_uuid :: "u8 list"
  sb_name :: "u8 list"
  sb_member_count :: u32
  sb_member_index :: u32
  sb_data_offset :: u64
  sb_member_sectors :: u64
  sb_array_sectors :: u64
  sb_events :: u64
  sb_member_state :: u32
  sb_sb_flags :: u32
  sb_resync_offset :: u64
  sb_created :: u64
  sb_checksum :: u32
  sb_pad :: "u8 list"

text \<open>The packed little-endian layout of the structure.\<close>

definition le32 :: "u32 \<Rightarrow> u8 list" where "le32 w = le_bytes 4 (unat w)"
definition le64 :: "u64 \<Rightarrow> u8 list" where "le64 w = le_bytes 8 (unat w)"

definition get32 :: "u8 list \<Rightarrow> nat \<Rightarrow> u32" where "get32 bs off = of_nat (le_value (take 4 (drop off bs)))"
definition get64 :: "u8 list \<Rightarrow> nat \<Rightarrow> u64" where "get64 bs off = of_nat (le_value (take 8 (drop off bs)))"

definition sb_bytes :: "anx_md_super \<Rightarrow> u8 list" where
  "sb_bytes sb =
     le32 (sb_magic sb) @ le32 (sb_version sb) @ le32 (sb_level sb) @ le32 (sb_chunk_sectors sb)
     @ sb_uuid sb @ sb_name sb @ le32 (sb_member_count sb) @ le32 (sb_member_index sb)
     @ le64 (sb_data_offset sb) @ le64 (sb_member_sectors sb) @ le64 (sb_array_sectors sb)
     @ le64 (sb_events sb) @ le32 (sb_member_state sb) @ le32 (sb_sb_flags sb)
     @ le64 (sb_resync_offset sb) @ le64 (sb_created sb) @ le32 (sb_checksum sb) @ sb_pad sb"

definition sb_of_bytes :: "u8 list \<Rightarrow> anx_md_super" where
  "sb_of_bytes bs = \<lparr>sb_magic = get32 bs 0, sb_version = get32 bs 4, sb_level = get32 bs 8,
     sb_chunk_sectors = get32 bs 12, sb_uuid = take 16 (drop 16 bs), sb_name = take 16 (drop 32 bs),
     sb_member_count = get32 bs 48, sb_member_index = get32 bs 52, sb_data_offset = get64 bs 56,
     sb_member_sectors = get64 bs 64, sb_array_sectors = get64 bs 72, sb_events = get64 bs 80,
     sb_member_state = get32 bs 88, sb_sb_flags = get32 bs 92, sb_resync_offset = get64 bs 96,
     sb_created = get64 bs 104, sb_checksum = get32 bs 112, sb_pad = drop 116 bs\<rparr>"

definition md_checksum :: "anx_md_super \<Rightarrow> u32" where
  "md_checksum sb = fold (\<lambda>b hash. (hash XOR ucast b) * 16777619) (sb_bytes (sb\<lparr>sb_checksum := 0\<rparr>)) 2166136261"

definition md_super_sector :: "'d storage blk_io \<Rightarrow> nat \<Rightarrow> bool \<Rightarrow> 'd storage \<Rightarrow> int + u64" where
  "md_super_sector io dev tail s =
     (let cap = io_capacity io dev s in
      if \<not> tail then
        if cap \<le> ANX_MD_DATA_OFFSET then Inl ANX_EINVAL else Inr ANX_MD_SB_SECTOR_HEAD
      else if cap \<le> ANX_MD_SB_TAIL_BACK then Inl ANX_EINVAL
      else Inr (cap - ANX_MD_SB_TAIL_BACK))"

definition md_super_valid :: "bool \<Rightarrow> anx_md_super \<Rightarrow> int" where
  "md_super_valid tail sb =
     (if sb_magic sb \<noteq> ANX_MD_MAGIC then ANX_ENOENT
      else if sb_version sb \<noteq> ANX_MD_SB_VERSION then ANX_ENOTSUP
      else if sb_checksum sb \<noteq> md_checksum sb then ANX_EIO
      else if sb_member_count sb = 0 \<or> unat (sb_member_count sb) > ANX_MD_MAX_MEMBERS
              \<or> sb_member_index sb \<ge> sb_member_count sb then ANX_EINVAL
      else if sb_level sb \<noteq> ANX_MD_LEVEL_RAID0 \<and> sb_level sb \<noteq> ANX_MD_LEVEL_RAID1 then ANX_ENOTSUP
      else if (sb_sb_flags sb AND ANX_MD_SB_TAIL \<noteq> 0) \<noteq> tail then ANX_EINVAL
      else ANX_OK)"

definition md_super_read_at :: "'d storage blk_io \<Rightarrow> nat \<Rightarrow> bool \<Rightarrow> 'd storage \<Rightarrow>
    (int \<times> anx_md_super) \<times> 'd storage" where
  "md_super_read_at io dev tail s =
     (case md_super_sector io dev tail s of
        Inl ret \<Rightarrow> ((ret, sb_of_bytes []), s)
      | Inr sector \<Rightarrow>
          (case io_read io dev sector 1 s of ((ret, data), s1) \<Rightarrow>
             let sb = sb_of_bytes (concat data) in
             if ret \<noteq> ANX_OK then ((ret, sb), s1) else ((md_super_valid tail sb, sb), s1)))"

definition md_super_read :: "'d storage blk_io \<Rightarrow> nat \<Rightarrow> 'd storage \<Rightarrow>
    (int \<times> anx_md_super) \<times> 'd storage" where
  "md_super_read io dev s =
     (case md_super_read_at io dev False s of ((ret, sb), s1) \<Rightarrow>
        if ret = ANX_OK then ((ANX_OK, sb), s1) else md_super_read_at io dev True s1)"

definition md_super_of :: "anx_md_array \<Rightarrow> nat \<Rightarrow> anx_md_super" where
  "md_super_of x idx =
     (let m = a_members x ! idx; nm = map of_char (take 15 (a_name x));
          sb = \<lparr>sb_magic = ANX_MD_MAGIC, sb_version = ANX_MD_SB_VERSION, sb_level = a_level x,
            sb_chunk_sectors = a_chunk_sectors x, sb_uuid = a_uuid x,
            sb_name = nm @ replicate (16 - length nm) 0, sb_member_count = a_member_count x,
            sb_member_index = of_nat idx, sb_data_offset = m_data_offset m,
            sb_member_sectors = a_member_sectors x, sb_array_sectors = a_array_sectors x,
            sb_events = a_events x, sb_member_state = m_state m,
            sb_sb_flags = (if a_tail_meta x then ANX_MD_SB_TAIL else 0),
            sb_resync_offset = a_resync_offset x, sb_created = a_created x, sb_checksum = 0,
            sb_pad = replicate 396 0\<rparr> in
      sb\<lparr>sb_checksum := md_checksum sb\<rparr>)"

definition anx_md_super_write :: "'d storage blk_io \<Rightarrow> nat \<Rightarrow> nat \<Rightarrow> 'd storage \<Rightarrow> int \<times> 'd storage" where
  "anx_md_super_write io a idx s =
     (if idx \<ge> mcount s a then (ANX_EINVAL, s)
      else case m_dev (memb s a idx) of
        None \<Rightarrow> (ANX_ENODEV, s)
      | Some dev \<Rightarrow>
          (case md_super_sector io dev (a_tail_meta (arr s a)) s of
             Inl ret \<Rightarrow> (ret, s)
           | Inr sector \<Rightarrow>
               let sb = md_super_of (arr s a) idx;
                   s1 = set_memb a idx ((memb s a idx)\<lparr>m_events := a_events (arr s a)\<rparr>) s in
               io_write io dev sector 1 [sb_bytes sb] s1))"

fun super_sync_loop :: "'d storage blk_io \<Rightarrow> nat \<Rightarrow> nat list \<Rightarrow> int \<Rightarrow> 'd storage \<Rightarrow> int \<times> 'd storage" where
  "super_sync_loop io a [] ret s = (ret, s)"
| "super_sync_loop io a (i # is) ret s =
     (if m_dev (memb s a i) = None then super_sync_loop io a is ret s
      else case anx_md_super_write io a i s of (r, s1) \<Rightarrow>
        super_sync_loop io a is (if r \<noteq> ANX_OK then r else ret) s1)"

definition anx_md_super_sync :: "'d storage blk_io \<Rightarrow> nat \<Rightarrow> 'd storage \<Rightarrow> int \<times> 'd storage" where
  "anx_md_super_sync io a s =
     super_sync_loop io a [0..<mcount s a] ANX_OK
       (set_arr a ((arr s a)\<lparr>a_events := a_events (arr s a) + 1\<rparr>) s)"

definition anx_md_zero_super :: "'d storage blk_io \<Rightarrow> nat \<Rightarrow> 'd storage \<Rightarrow> int \<times> 'd storage" where
  "anx_md_zero_super io dev s =
     (if anx_blk_dev_is_member dev s then (ANX_EBUSY, s)
      else case md_super_read_at io dev False s of ((r0, _), s1) \<Rightarrow>
        (case (if r0 = ANX_OK then (Some False, s1)
               else case md_super_read_at io dev True s1 of ((r1, _), s2) \<Rightarrow>
                 (if r1 = ANX_OK then Some True else None, s2)) of
           (None, s3) \<Rightarrow> (ANX_ENOENT, s3)
         | (Some tail, s3) \<Rightarrow>
             (case md_super_sector io dev tail s3 of
                Inl ret \<Rightarrow> (ret, s3)
              | Inr sector \<Rightarrow> io_write io dev sector 1 [replicate 512 0] s3)))"

subsection \<open>Member requests\<close>

definition anx_md_member_read :: "'d storage blk_io \<Rightarrow> nat \<Rightarrow> nat \<Rightarrow> u64 \<Rightarrow> u32 \<Rightarrow> 'd storage \<Rightarrow>
    (int \<times> sector list) \<times> 'd storage" where
  "anx_md_member_read io a idx lba count s =
     (if idx \<ge> mcount s a then ((ANX_EINVAL, []), s)
      else
        let m = memb s a idx in
        if m_dev m = None \<or> m_state m = ANX_MD_MEMBER_FAULTY then ((ANX_ENODEV, []), s)
        else if lba + ucast count > a_member_sectors (arr s a) then ((ANX_EINVAL, []), s)
        else io_read io (the (m_dev m)) (m_data_offset m + lba) count s)"

definition anx_md_member_write :: "'d storage blk_io \<Rightarrow> nat \<Rightarrow> nat \<Rightarrow> u64 \<Rightarrow> u32 \<Rightarrow> sector list \<Rightarrow>
    'd storage \<Rightarrow> int \<times> 'd storage" where
  "anx_md_member_write io a idx lba count buf s =
     (if idx \<ge> mcount s a then (ANX_EINVAL, s)
      else
        let m = memb s a idx in
        if m_dev m = None \<or> m_state m = ANX_MD_MEMBER_FAULTY then (ANX_ENODEV, s)
        else if lba + ucast count > a_member_sectors (arr s a) then (ANX_EINVAL, s)
        else io_write io (the (m_dev m)) (m_data_offset m + lba) count buf s)"

definition anx_md_member_fault :: "'d storage blk_io \<Rightarrow> nat \<Rightarrow> nat \<Rightarrow> 'd storage \<Rightarrow> 'd storage" where
  "anx_md_member_fault io a idx s =
     (if idx \<ge> mcount s a then s
      else
        let m = memb s a idx in
        if m_dev m = None \<or> m_state m = ANX_MD_MEMBER_FAULTY then s
        else snd (anx_md_super_sync io a (set_memb a idx (m\<lparr>m_state := ANX_MD_MEMBER_FAULTY\<rparr>) s)))"

subsection \<open>Striping\<close>

text \<open>The pass over one chunk: the member, the sector on it and the length of the run.\<close>

definition raid0_idx :: "u64 \<Rightarrow> u32 \<Rightarrow> u32 \<Rightarrow> nat" where
  "raid0_idx lba chunk n = unat (ucast (lba div ucast chunk mod ucast n) :: u32)"

definition raid0_member_lba :: "u64 \<Rightarrow> u32 \<Rightarrow> u32 \<Rightarrow> u64" where
  "raid0_member_lba lba chunk n =
     lba div ucast chunk div ucast n * ucast chunk + ucast (ucast (lba mod ucast chunk) :: u32)"

definition raid0_run :: "u64 \<Rightarrow> u32 \<Rightarrow> u32 \<Rightarrow> u32" where
  "raid0_run lba chunk count =
     (let run = chunk - ucast (lba mod ucast chunk) in if run > count then count else run)"

lemma ucast_mod_chunk: "chunk \<noteq> 0 \<Longrightarrow> unat (ucast (lba mod ucast chunk :: u64) :: u32) = unat lba mod unat (chunk :: u32)"
proof -
  assume "chunk \<noteq> 0"
  then have pos: "0 < unat chunk" by (simp add: unat_gt_0)
  have c: "unat (ucast chunk :: u64) = unat chunk"
    by (simp add: unsigned_ucast_eq take_bit_nat_eq_self less_trans [OF unat_u32_bound])
  have "unat (lba mod ucast chunk :: u64) = unat lba mod unat chunk" by (simp add: unat_mod c)
  moreover have "unat lba mod unat chunk < 2 ^ 32"
    using pos unat_u32_bound [of chunk] by (simp add: less_trans [OF mod_less_divisor])
  ultimately show ?thesis by (simp add: unsigned_ucast_eq take_bit_nat_eq_self)
qed

lemma raid0_run_pos: "chunk \<noteq> 0 \<Longrightarrow> count \<noteq> 0 \<Longrightarrow> raid0_run lba chunk count \<noteq> 0 \<and> raid0_run lba chunk count \<le> count"
proof -
  assume "chunk \<noteq> 0" "count \<noteq> 0"
  have "(ucast (lba mod ucast chunk) :: u32) < chunk"
    using \<open>chunk \<noteq> 0\<close> by (simp add: word_less_nat_alt ucast_mod_chunk unat_gt_0)
  then have "chunk - ucast (lba mod ucast chunk) \<noteq> 0" by auto
  then show ?thesis using \<open>count \<noteq> 0\<close> by (auto simp: raid0_run_def Let_def not_less)
qed

function raid0_loop :: "'d storage blk_io \<Rightarrow> nat \<Rightarrow> u32 \<Rightarrow> u64 \<Rightarrow> u32 \<Rightarrow> sector list \<Rightarrow> bool \<Rightarrow>
    'd storage \<Rightarrow> (int \<times> sector list) \<times> 'd storage" where
  "raid0_loop io a chunk lba count buf write s =
     (if count = 0 \<or> chunk = 0 then ((ANX_OK, []), s)
      else
        let n = a_member_count (arr s a);
            idx = raid0_idx lba chunk n;
            member_lba = raid0_member_lba lba chunk n;
            run = raid0_run lba chunk count in
        (case (if write then
                 (case anx_md_member_write io a idx member_lba run (take (unat run) buf) s of
                    (ret, s1) \<Rightarrow> ((ret, []), s1))
               else anx_md_member_read io a idx member_lba run s) of
           ((ret, data), s1) \<Rightarrow>
             if ret \<noteq> ANX_OK then ((ret, data), anx_md_member_fault io a idx s1)
             else
               (case raid0_loop io a chunk (lba + ucast run) (count - run) (drop (unat run) buf) write s1 of
                  ((r, rest), s2) \<Rightarrow> ((r, data @ rest), s2))))"
  by pat_completeness auto
termination
proof (relation "measure (\<lambda>(io, a, chunk, lba, count, buf, write, s). unat count)", goal_cases)
  case (2 io a chunk lba count buf wr s n idx member_lba run)
  then have "run \<noteq> 0" "run \<le> count" using raid0_run_pos by simp_all
  then have "unat (count - run) < unat count"
    by (simp add: unat_sub word_le_nat_alt unat_gt_0 [symmetric])
  then show ?case by simp
qed auto

declare raid0_loop.simps [simp del]

definition raid0_io :: "'d storage blk_io \<Rightarrow> nat \<Rightarrow> u64 \<Rightarrow> u32 \<Rightarrow> sector list \<Rightarrow> bool \<Rightarrow>
    'd storage \<Rightarrow> (int \<times> sector list) \<times> 'd storage" where
  "raid0_io io a lba count buf write s =
     (let chunk = a_chunk_sectors (arr s a) in
      if chunk = 0 \<or> a_member_count (arr s a) = 0 then ((ANX_EINVAL, []), s)
      else raid0_loop io a chunk lba count buf write s)"

definition anx_md_raid0_read :: "'d storage blk_io \<Rightarrow> nat \<Rightarrow> u64 \<Rightarrow> u32 \<Rightarrow> 'd storage \<Rightarrow>
    (int \<times> sector list) \<times> 'd storage" where
  "anx_md_raid0_read io a lba count s = raid0_io io a lba count [] False s"

definition anx_md_raid0_write :: "'d storage blk_io \<Rightarrow> nat \<Rightarrow> u64 \<Rightarrow> u32 \<Rightarrow> sector list \<Rightarrow> 'd storage \<Rightarrow>
    int \<times> 'd storage" where
  "anx_md_raid0_write io a lba count buf s =
     (case raid0_io io a lba count buf True s of ((ret, _), s1) \<Rightarrow> (ret, s1))"

subsection \<open>Mirroring\<close>

definition raid1_readable :: "'d storage \<Rightarrow> nat \<Rightarrow> nat \<Rightarrow> bool" where
  "raid1_readable s a idx \<longleftrightarrow> m_dev (memb s a idx) \<noteq> None \<and> m_state (memb s a idx) = ANX_MD_MEMBER_ACTIVE"

fun raid1_read_loop :: "'d storage blk_io \<Rightarrow> nat \<Rightarrow> u64 \<Rightarrow> u32 \<Rightarrow> nat list \<Rightarrow> int \<Rightarrow> 'd storage \<Rightarrow>
    (int \<times> sector list) \<times> 'd storage" where
  "raid1_read_loop io a lba count [] ret s = ((ret, []), s)"
| "raid1_read_loop io a lba count (tried # rest) ret s =
     (let n = a_member_count (arr s a);
          idx = unat ((a_read_cursor (arr s a) + of_nat tried) mod n) in
      if \<not> raid1_readable s a idx then raid1_read_loop io a lba count rest ret s
      else case anx_md_member_read io a idx lba count s of ((r, data), s1) \<Rightarrow>
        if r = ANX_OK then
          ((ANX_OK, data), set_arr a ((arr s1 a)\<lparr>a_read_cursor := (of_nat idx + 1) mod a_member_count (arr s1 a)\<rparr>) s1)
        else raid1_read_loop io a lba count rest r (anx_md_member_fault io a idx s1))"

definition anx_md_raid1_read :: "'d storage blk_io \<Rightarrow> nat \<Rightarrow> u64 \<Rightarrow> u32 \<Rightarrow> 'd storage \<Rightarrow>
    (int \<times> sector list) \<times> 'd storage" where
  "anx_md_raid1_read io a lba count s =
     (if a_member_count (arr s a) = 0 then ((ANX_EINVAL, []), s)
      else raid1_read_loop io a lba count [0..<mcount s a] ANX_ENODEV s)"

fun raid1_write_loop :: "'d storage blk_io \<Rightarrow> nat \<Rightarrow> u64 \<Rightarrow> u32 \<Rightarrow> sector list \<Rightarrow> nat list \<Rightarrow> nat \<Rightarrow> int \<Rightarrow>
    'd storage \<Rightarrow> int \<times> 'd storage" where
  "raid1_write_loop io a lba count buf [] ok ret s = (if ok > 0 then ANX_OK else ret, s)"
| "raid1_write_loop io a lba count buf (i # is) ok ret s =
     (let m = memb s a i in
      if m_dev m = None \<or> m_state m = ANX_MD_MEMBER_FAULTY then
        raid1_write_loop io a lba count buf is ok ret s
      else if m_state m = ANX_MD_MEMBER_SPARE \<and> lba \<ge> a_resync_offset (arr s a) then
        raid1_write_loop io a lba count buf is ok ret s
      else case anx_md_member_write io a i lba count buf s of (r, s1) \<Rightarrow>
        if r = ANX_OK then
          raid1_write_loop io a lba count buf is
            (if m_state (memb s1 a i) = ANX_MD_MEMBER_ACTIVE then ok + 1 else ok) ret s1
        else raid1_write_loop io a lba count buf is ok r (anx_md_member_fault io a i s1))"

definition anx_md_raid1_write :: "'d storage blk_io \<Rightarrow> nat \<Rightarrow> u64 \<Rightarrow> u32 \<Rightarrow> sector list \<Rightarrow> 'd storage \<Rightarrow>
    int \<times> 'd storage" where
  "anx_md_raid1_write io a lba count buf s = raid1_write_loop io a lba count buf [0..<mcount s a] 0 ANX_ENODEV s"

definition raid1_spare :: "'d storage \<Rightarrow> nat \<Rightarrow> nat" where
  "raid1_spare s a =
     (case find (\<lambda>i. m_dev (memb s a i) \<noteq> None \<and> m_state (memb s a i) = ANX_MD_MEMBER_SPARE) [0..<mcount s a] of
        Some i \<Rightarrow> i | None \<Rightarrow> ANX_MD_MAX_MEMBERS)"

definition anx_md_resync_step :: "'d storage blk_io \<Rightarrow> nat \<Rightarrow> u32 \<Rightarrow> 'd storage \<Rightarrow> int \<times> 'd storage" where
  "anx_md_resync_step io a max_sectors s =
     (if \<not> a_used (arr s a) then (ANX_EINVAL, s)
      else if a_level (arr s a) \<noteq> ANX_MD_LEVEL_RAID1 then (ANX_ENOTSUP, s)
      else
        let spare = raid1_spare s a in
        if spare = ANX_MD_MAX_MEMBERS then (ANX_ENOENT, s)
        else if a_resync_offset (arr s a) \<ge> a_member_sectors (arr s a) then (0, s)
        else
          let off = a_resync_offset (arr s a);
              run0 = (if max_sectors \<noteq> 0 \<and> RAID1_RESYNC_CHUNK > max_sectors then max_sectors
                      else RAID1_RESYNC_CHUNK);
              left = a_member_sectors (arr s a) - off;
              run = (if ucast run0 > left then ucast left else run0) in
          (case anx_md_raid1_read io a off run s of ((ret, buf), s1) \<Rightarrow>
             if ret \<noteq> ANX_OK then (ret, s1)
             else
               (case anx_md_member_write io a spare (a_resync_offset (arr s1 a)) run buf s1 of (ret2, s2) \<Rightarrow>
                  if ret2 \<noteq> ANX_OK then (ret2, anx_md_member_fault io a spare s2)
                  else
                    let x = (arr s2 a)\<lparr>a_resync_offset := a_resync_offset (arr s2 a) + ucast run\<rparr>;
                        s3 = set_arr a x s2 in
                    (uint run,
                     if a_resync_offset x \<ge> a_member_sectors x then
                       snd (anx_md_super_sync io a
                         (set_memb a spare ((memb s3 a spare)\<lparr>m_state := ANX_MD_MEMBER_ACTIVE\<rparr>) s3))
                     else s3))))"

text \<open>The rebuild loop; \<open>None\<close> means that \<open>fuel\<close> passes were not enough.\<close>

fun resync_loop :: "'d storage blk_io \<Rightarrow> nat \<Rightarrow> nat \<Rightarrow> 'd storage \<Rightarrow> (int \<times> 'd storage) option" where
  "resync_loop io a 0 s = None"
| "resync_loop io a (Suc fuel) s =
     (if raid1_spare s a = ANX_MD_MAX_MEMBERS then Some (ANX_OK, s)
      else case anx_md_resync_step io a 0 s of (ret, s1) \<Rightarrow>
        if ret < 0 then Some (ret, s1)
        else if ret = 0 then Some (ANX_OK, s1)
        else resync_loop io a fuel s1)"

definition anx_md_resync :: "'d storage blk_io \<Rightarrow> nat \<Rightarrow> nat \<Rightarrow> 'd storage \<Rightarrow> (int \<times> 'd storage) option" where
  "anx_md_resync io a fuel s =
     (if \<not> a_used (arr s a) then Some (ANX_EINVAL, s)
      else if a_level (arr s a) \<noteq> ANX_MD_LEVEL_RAID1 then Some (ANX_ENOTSUP, s)
      else if raid1_spare s a = ANX_MD_MAX_MEMBERS then Some (ANX_ENOENT, s)
      else resync_loop io a fuel s)"

subsection \<open>The array as a block device\<close>

definition md_read :: "'d storage blk_io \<Rightarrow> nat \<Rightarrow> u64 \<Rightarrow> u32 \<Rightarrow> 'd storage \<Rightarrow>
    (int \<times> sector list) \<times> 'd storage" where
  "md_read io a lba count s =
     (if \<not> a_used (arr s a) then ((ANX_ENODEV, []), s)
      else if lba + ucast count > a_array_sectors (arr s a) then ((ANX_EINVAL, []), s)
      else if a_level (arr s a) = ANX_MD_LEVEL_RAID0 then anx_md_raid0_read io a lba count s
      else anx_md_raid1_read io a lba count s)"

definition md_write :: "'d storage blk_io \<Rightarrow> nat \<Rightarrow> u64 \<Rightarrow> u32 \<Rightarrow> sector list \<Rightarrow> 'd storage \<Rightarrow>
    int \<times> 'd storage" where
  "md_write io a lba count buf s =
     (if \<not> a_used (arr s a) then (ANX_ENODEV, s)
      else if lba + ucast count > a_array_sectors (arr s a) then (ANX_EINVAL, s)
      else if a_level (arr s a) = ANX_MD_LEVEL_RAID0 then anx_md_raid0_write io a lba count buf s
      else anx_md_raid1_write io a lba count buf s)"

definition md_blk_read :: "'d storage blk_io \<Rightarrow> nat \<Rightarrow> u64 \<Rightarrow> u32 \<Rightarrow> 'd storage \<Rightarrow>
    (int \<times> sector list) \<times> 'd storage" where
  "md_blk_read io dev lba count s = md_read io (bd_priv (dev_at s dev)) lba count s"

definition md_blk_write :: "'d storage blk_io \<Rightarrow> nat \<Rightarrow> u64 \<Rightarrow> u32 \<Rightarrow> sector list \<Rightarrow> 'd storage \<Rightarrow>
    int \<times> 'd storage" where
  "md_blk_write io dev lba count buf s = md_write io (bd_priv (dev_at s dev)) lba count buf s"

definition md_blk_capacity :: "nat \<Rightarrow> 'd storage \<Rightarrow> u64" where
  "md_blk_capacity dev s =
     (let x = arr s (bd_priv (dev_at s dev)) in if a_used x then a_array_sectors x else 0)"

definition md_ops :: "'d storage blk_io \<Rightarrow> 'd storage blk_io" where
  "md_ops io = \<lparr>io_read = md_blk_read io, io_write = md_blk_write io, io_capacity = md_blk_capacity\<rparr>"

text \<open>The operation tables tied together: devices stacked at most \<open>n\<close> deep on drivers.\<close>

fun blk_tab_of :: "'d storage blk_io \<Rightarrow> nat \<Rightarrow> 'd storage blk_tab" where
  "blk_tab_of drv 0 ops = drv"
| "blk_tab_of drv (Suc n) ops =
     (case ops of OpsDriver \<Rightarrow> drv
      | OpsPart \<Rightarrow> part_ops (blk_io_of (blk_tab_of drv n))
      | OpsMd \<Rightarrow> md_ops (blk_io_of (blk_tab_of drv n)))"

subsection \<open>Lifecycle\<close>

definition array_devs :: "anx_md_array \<Rightarrow> nat list" where
  "array_devs x = List.map_filter (\<lambda>i. m_dev (a_members x ! i)) [0..<unat (a_member_count x)]"

definition anx_md_start_array :: "nat \<Rightarrow> 'd storage \<Rightarrow> int \<times> 'd storage" where
  "anx_md_start_array a s =
     (let active = active_dev s in
      if \<not> a_used (arr s a) then (ANX_EINVAL, s)
      else if a_array_sectors (arr s a) = 0 then (ANX_EINVAL, s)
      else
        let takeover = list_ex (\<lambda>d. active = Some d) (array_devs (arr s a)) in
        case anx_blk_dev_register OpsMd a ''md'' s of
          (None, s1) \<Rightarrow> (ANX_EFULL, set_arr a ((arr s1 a)\<lparr>a_bdev := None\<rparr>) s1)
        | (Some b, s1) \<Rightarrow>
            let s2 = set_arr a ((arr s1 a)\<lparr>a_bdev := Some b\<rparr>) s1;
                s3 = set_dev b ((dev_at s2 b)\<lparr>bd_flags := bd_flags (dev_at s2 b) OR ANX_BLK_F_ARRAY\<rparr>) s2;
                s4 = set_arr a ((arr s3 a)\<lparr>a_name := bd_name (dev_at s3 b)\<rparr>) s3;
                s5 = fold anx_blk_dev_claim (array_devs (arr s4 a)) s4 in
            (ANX_OK, if takeover \<or> active = None then anx_blk_set_active (Some b) s5 else s5))"

definition anx_md_stop :: "'d storage blk_io \<Rightarrow> nat \<Rightarrow> 'd storage \<Rightarrow> int \<times> 'd storage" where
  "anx_md_stop io a s =
     (if \<not> a_used (arr s a) then (ANX_EINVAL, s)
      else if a_bdev (arr s a) \<noteq> None \<and> active_dev s = a_bdev (arr s a) then (ANX_EBUSY, s)
      else
        let s1 = snd (anx_md_super_sync io a s);
            s2 = fold anx_blk_dev_release (array_devs (arr s1 a)) s1;
            s3 = (case a_bdev (arr s2 a) of None \<Rightarrow> s2 | Some b \<Rightarrow> anx_blk_dev_unregister b s2) in
        (ANX_OK, anx_md_free_array a s3))"

definition md_round_chunks :: "u64 \<Rightarrow> u32 \<Rightarrow> u64" where
  "md_round_chunks sectors chunk =
     (if chunk = 0 then sectors else sectors div ucast chunk * ucast chunk)"

fun create_check :: "nat option list \<Rightarrow> 'd storage \<Rightarrow> int" where
  "create_check [] s = ANX_OK"
| "create_check (None # ms) s = ANX_EINVAL"
| "create_check (Some d # ms) s =
     (if anx_blk_dev_is_member d s then ANX_EBUSY
      else if bd_flags (dev_at s d) AND ANX_BLK_F_ARRAY \<noteq> 0 then ANX_EINVAL
      else if Some d \<in> set ms then ANX_EINVAL
      else create_check ms s)"

definition md_usable :: "bool \<Rightarrow> u64 \<Rightarrow> u64 option" where
  "md_usable tail cap =
     (let back = (if tail then ANX_MD_SB_TAIL_BACK else ANX_MD_DATA_OFFSET) in
      if cap \<le> back then None else Some (cap - back))"

fun create_smallest :: "'d storage blk_io \<Rightarrow> bool \<Rightarrow> nat list \<Rightarrow> u64 \<Rightarrow> 'd storage \<Rightarrow> u64 option" where
  "create_smallest io tail [] smallest s = Some smallest"
| "create_smallest io tail (d # ds) smallest s =
     (case md_usable tail (io_capacity io d s) of
        None \<Rightarrow> None
      | Some usable \<Rightarrow>
          create_smallest io tail ds (if smallest = 0 \<or> usable < smallest then usable else smallest) s)"

fun create_write :: "'d storage blk_io \<Rightarrow> nat \<Rightarrow> nat list \<Rightarrow> 'd storage \<Rightarrow> int \<times> 'd storage" where
  "create_write io a [] s = (ANX_OK, s)"
| "create_write io a (i # is) s =
     (case anx_md_super_write io a i s of (ret, s1) \<Rightarrow>
        if ret \<noteq> ANX_OK then (ret, snd (anx_md_stop io a s1)) else create_write io a is s1)"

text \<open>\<open>now\<close> is the clock reading and \<open>uuid\<close> the generated identity.\<close>

definition anx_md_create :: "'d storage blk_io \<Rightarrow> u64 \<Rightarrow> u8 list \<Rightarrow> u32 \<Rightarrow> u32 \<Rightarrow> nat option list \<Rightarrow> bool \<Rightarrow>
    'd storage \<Rightarrow> (int \<times> nat option) \<times> 'd storage" where
  "anx_md_create io now uuid level chunk0 members tail s =
     (let count = length members in
      if count < 2 \<or> count > ANX_MD_MAX_MEMBERS then ((ANX_EINVAL, None), s)
      else if level \<noteq> ANX_MD_LEVEL_RAID0 \<and> level \<noteq> ANX_MD_LEVEL_RAID1 then ((ANX_ENOTSUP, None), s)
      else
        let chunk = (if level = ANX_MD_LEVEL_RAID0 then
                       (if chunk0 = 0 then ANX_MD_DEFAULT_CHUNK else chunk0) else 0) in
        if level = ANX_MD_LEVEL_RAID0 \<and> chunk AND (chunk - 1) \<noteq> 0 then ((ANX_EINVAL, None), s)
        else if create_check members s \<noteq> ANX_OK then ((create_check members s, None), s)
        else case create_smallest io tail (map the members) 0 s of
          None \<Rightarrow> ((ANX_EINVAL, None), s)
        | Some small \<Rightarrow>
            let smallest = md_round_chunks small chunk in
            if smallest = 0 then ((ANX_EINVAL, None), s)
            else case anx_md_alloc_array s of
              (None, s1) \<Rightarrow> ((ANX_EFULL, None), s1)
            | (Some a, s1) \<Rightarrow>
                let m = (\<lambda>d. \<lparr>m_dev = Some d, m_data_offset = (if tail then 0 else ANX_MD_DATA_OFFSET),
                          m_state = ANX_MD_MEMBER_ACTIVE, m_events = 1\<rparr>);
                    x = (arr s1 a)\<lparr>a_level := level, a_chunk_sectors := chunk, a_member_count := of_nat count,
                          a_member_sectors := smallest,
                          a_array_sectors := (if level = ANX_MD_LEVEL_RAID0 then smallest * of_nat count else smallest),
                          a_tail_meta := tail, a_created := now, a_events := 1, a_resync_offset := 0,
                          a_uuid := uuid,
                          a_members := map (m \<circ> the) members @ drop count (a_members (arr s1 a))\<rparr> in
                (case anx_md_start_array a (set_arr a x s1) of (ret, s2) \<Rightarrow>
                   if ret \<noteq> ANX_OK then ((ret, None), anx_md_free_array a s2)
                   else case create_write io a [0..<count] s2 of (ret2, s3) \<Rightarrow>
                     if ret2 \<noteq> ANX_OK then ((ret2, None), s3) else ((ANX_OK, Some a), s3)))"

definition anx_md_fail :: "'d storage blk_io \<Rightarrow> nat \<Rightarrow> nat \<Rightarrow> 'd storage \<Rightarrow> int \<times> 'd storage" where
  "anx_md_fail io a idx s =
     (if \<not> a_used (arr s a) \<or> idx \<ge> mcount s a then (ANX_EINVAL, s)
      else if m_dev (memb s a idx) = None then (ANX_ENODEV, s)
      else (ANX_OK, anx_md_member_fault io a idx s))"

definition anx_md_add :: "'d storage blk_io \<Rightarrow> nat \<Rightarrow> nat \<Rightarrow> 'd storage \<Rightarrow> int \<times> 'd storage" where
  "anx_md_add io a dev s =
     (if \<not> a_used (arr s a) then (ANX_EINVAL, s)
      else if a_level (arr s a) \<noteq> ANX_MD_LEVEL_RAID1 then (ANX_ENOTSUP, s)
      else if anx_blk_dev_is_member dev s \<or> bd_flags (dev_at s dev) AND ANX_BLK_F_ARRAY \<noteq> 0 then (ANX_EBUSY, s)
      else case find (\<lambda>i. m_dev (memb s a i) = None \<or> m_state (memb s a i) = ANX_MD_MEMBER_FAULTY) [0..<mcount s a] of
        None \<Rightarrow> (ANX_EFULL, s)
      | Some slot \<Rightarrow>
          let tail = a_tail_meta (arr s a);
              usable = (case md_usable tail (io_capacity io dev s) of None \<Rightarrow> 0 | Some u \<Rightarrow> u) in
          if usable < a_member_sectors (arr s a) then (ANX_EINVAL, s)
          else
            let s1 = (case m_dev (memb s a slot) of None \<Rightarrow> s | Some old \<Rightarrow> anx_blk_dev_release old s);
                m = (memb s1 a slot)\<lparr>m_dev := Some dev, m_data_offset := (if tail then 0 else ANX_MD_DATA_OFFSET),
                      m_state := ANX_MD_MEMBER_SPARE\<rparr>;
                s2 = set_memb a slot m s1;
                s3 = set_arr a ((arr s2 a)\<lparr>a_resync_offset := 0\<rparr>) s2;
                s4 = anx_blk_dev_claim dev s3 in
            (ANX_OK, snd (anx_md_super_sync io a s4)))"

subsection \<open>Assembly\<close>

type_synonym md_cand = "nat \<times> anx_md_super"

definition bytes_name :: "u8 list \<Rightarrow> string" where
  "bytes_name bs = take 15 (map (\<lambda>b. char_of (unat b)) (takeWhile (\<lambda>b. b \<noteq> 0) bs))"

text \<open>The first pass over the candidates of one array: fill the member slots.\<close>

definition assemble_member :: "md_cand \<Rightarrow> anx_md_array \<Rightarrow> anx_md_array" where
  "assemble_member cand x =
     (case cand of (dev, sb) \<Rightarrow>
        let i = unat (sb_member_index sb); m = a_members x ! i in
        if sb_member_index sb \<ge> a_member_count x then x
        else if m_dev m \<noteq> None then x
        else if sb_member_state sb = ANX_MD_MEMBER_FAULTY then x
        else
          let y = x\<lparr>a_members := (a_members x)[i := \<lparr>m_dev = Some dev, m_data_offset = sb_data_offset sb,
                     m_state = sb_member_state sb, m_events = sb_events sb\<rparr>]\<rparr> in
          if sb_events sb > a_events x
          then y\<lparr>a_events := sb_events sb, a_resync_offset := sb_resync_offset sb\<rparr> else y)"

text \<open>The second pass: drop the members whose event counter lags.\<close>

definition drop_stale :: "anx_md_array \<Rightarrow> anx_md_array" where
  "drop_stale x = x\<lparr>a_members := map (\<lambda>(i, m).
     if i < unat (a_member_count x) \<and> m_dev m \<noteq> None \<and> m_events m \<noteq> a_events x
     then m\<lparr>m_dev := None, m_state := ANX_MD_MEMBER_EMPTY\<rparr> else m)
       (zip [0..<length (a_members x)] (a_members x))\<rparr>"

definition assemble_array :: "md_cand list \<Rightarrow> anx_md_array \<Rightarrow> anx_md_array" where
  "assemble_array cands x =
     (let ref = snd (hd cands) in
      drop_stale (fold assemble_member cands
        (x\<lparr>a_name := bytes_name (sb_name ref), a_uuid := sb_uuid ref, a_level := sb_level ref,
           a_chunk_sectors := sb_chunk_sectors ref, a_member_count := sb_member_count ref,
           a_member_sectors := sb_member_sectors ref, a_array_sectors := sb_array_sectors ref,
           a_created := sb_created ref, a_tail_meta := (sb_sb_flags ref AND ANX_MD_SB_TAIL \<noteq> 0),
           a_events := 0, a_resync_offset := sb_resync_offset ref\<rparr>)))"

definition md_assemble_one :: "md_cand list \<Rightarrow> 'd storage \<Rightarrow> int \<times> 'd storage" where
  "md_assemble_one cands s =
     (case anx_md_alloc_array s of
        (None, s1) \<Rightarrow> (ANX_EFULL, s1)
      | (Some a, s1) \<Rightarrow>
          let x = assemble_array cands (arr s1 a); present = length (array_devs x) in
          if a_level x = ANX_MD_LEVEL_RAID0 \<and> present \<noteq> unat (a_member_count x)
          then (ANX_ENODEV, anx_md_free_array a s1)
          else if present = 0 then (ANX_ENODEV, anx_md_free_array a s1)
          else case anx_md_start_array a (set_arr a x s1) of (ret, s2) \<Rightarrow>
            if ret \<noteq> ANX_OK then (ret, anx_md_free_array a s2) else (ANX_OK, s2))"

fun md_collect :: "'d storage blk_io \<Rightarrow> nat list \<Rightarrow> md_cand list \<Rightarrow> 'd storage \<Rightarrow> md_cand list \<times> 'd storage" where
  "md_collect io [] found s = (found, s)"
| "md_collect io (i # is) found s =
     (if i \<ge> anx_blk_dev_count s then (found, s)
      else case anx_blk_dev_at i s of
        None \<Rightarrow> md_collect io is found s
      | Some dev \<Rightarrow>
          if anx_blk_dev_is_member dev s \<or> bd_flags (dev_at s dev) AND ANX_BLK_F_ARRAY \<noteq> 0
          then md_collect io is found s
          else case md_super_read io dev s of ((ret, sb), s1) \<Rightarrow>
            md_collect io is (if ret \<noteq> ANX_OK then found else found @ [(dev, sb)]) s1)"

function md_start_groups :: "md_cand list \<Rightarrow> int \<Rightarrow> 'd storage \<Rightarrow> int \<times> 'd storage" where
  "md_start_groups [] started s = (started, s)"
| "md_start_groups (c # cs) started s =
     (let same = (\<lambda>d. sb_uuid (snd d) = sb_uuid (snd c));
          group = take ANX_MD_MAX_MEMBERS (c # filter same cs) in
      case md_assemble_one group s of (ret, s1) \<Rightarrow>
        md_start_groups (filter (\<lambda>d. \<not> same d) cs) (if ret = ANX_OK then started + 1 else started) s1)"
  by pat_completeness auto
termination by (relation "measure (\<lambda>(cs, started, s). length cs)") (auto simp: le_imp_less_Suc)

definition anx_md_assemble :: "'d storage blk_io \<Rightarrow> 'd storage \<Rightarrow> int \<times> 'd storage" where
  "anx_md_assemble io s =
     (case md_collect io [0..<ANX_BLK_MAX_DEVS] [] s of (found, s1) \<Rightarrow> md_start_groups found 0 s1)"

definition anx_md_init :: "'d storage blk_io \<Rightarrow> 'd storage \<Rightarrow> 'd storage" where
  "anx_md_init io s = snd (anx_md_assemble io s)"

subsection \<open>Superblock bytes\<close>

lemma length_le32 [simp]: "length (le32 w) = 4" and length_le64 [simp]: "length (le64 v) = 8"
  by (simp_all add: le32_def le64_def)

lemma get32_le32 [simp]: "length p = off \<Longrightarrow> get32 (p @ le32 w @ r) off = w"
  using unat_u32_bound [of w] by (simp add: get32_def le32_def le_value_le_bytes)

lemma get64_le64 [simp]: "length p = off \<Longrightarrow> get64 (p @ le64 w @ r) off = w"
  using unat_u64_bound [of w] by (simp add: get64_def le64_def le_value_le_bytes)

definition sb_wf :: "anx_md_super \<Rightarrow> bool" where
  "sb_wf sb \<longleftrightarrow> length (sb_uuid sb) = 16 \<and> length (sb_name sb) = 16 \<and> length (sb_pad sb) = 396"

lemma get32_skip: "length p \<le> off \<Longrightarrow> get32 (p @ r) off = get32 r (off - length p)"
  and get64_skip: "length p \<le> off \<Longrightarrow> get64 (p @ r) off = get64 r (off - length p)"
  by (simp_all add: get32_def get64_def)

lemma get32_here: "get32 (le32 w @ r) 0 = w" and get64_here: "get64 (le64 v @ r) 0 = v"
  using get32_le32 [of "[]" 0 w r] get64_le64 [of "[]" 0 v r] by simp_all

lemma sb_of_bytes_sb_bytes:
  assumes "sb_wf sb"
  shows "sb_of_bytes (sb_bytes sb) = sb"
  using assms
  by (intro anx_md_super.equality)
    (simp_all add: sb_of_bytes_def sb_bytes_def sb_wf_def get32_skip get64_skip get32_here get64_here)

lemma length_sb_bytes: "sb_wf sb \<Longrightarrow> length (sb_bytes sb) = 512"
  by (simp add: sb_bytes_def sb_wf_def)

lemma md_super_of_wf: "length (a_uuid x) = 16 \<Longrightarrow> sb_wf (md_super_of x idx)"
  by (simp add: sb_wf_def md_super_of_def Let_def)

lemma md_checksum_ignores: "md_checksum (sb\<lparr>sb_checksum := c\<rparr>) = md_checksum sb"
  by (simp add: md_checksum_def)

lemma md_super_of_checksum: "sb_checksum (md_super_of x idx) = md_checksum (md_super_of x idx)"
  unfolding md_super_of_def Let_def md_checksum_ignores by simp

lemma md_super_of_simps:
  "sb_magic (md_super_of x idx) = ANX_MD_MAGIC" "sb_version (md_super_of x idx) = ANX_MD_SB_VERSION"
  "sb_level (md_super_of x idx) = a_level x" "sb_member_count (md_super_of x idx) = a_member_count x"
  "sb_member_index (md_super_of x idx) = of_nat idx"
  "sb_sb_flags (md_super_of x idx) = (if a_tail_meta x then ANX_MD_SB_TAIL else 0)"
  "sb_member_state (md_super_of x idx) = m_state (a_members x ! idx)" "sb_events (md_super_of x idx) = a_events x"
  "sb_resync_offset (md_super_of x idx) = a_resync_offset x" "sb_uuid (md_super_of x idx) = a_uuid x"
  by (simp_all add: md_super_of_def Let_def)

lemma md_super_of_valid:
  assumes "idx < unat (a_member_count x)" "unat (a_member_count x) \<le> ANX_MD_MAX_MEMBERS"
    "a_level x = ANX_MD_LEVEL_RAID0 \<or> a_level x = ANX_MD_LEVEL_RAID1"
  shows "md_super_valid (a_tail_meta x) (md_super_of x idx) = ANX_OK"
proof -
  have "idx < 2 ^ 32" using less_trans [OF assms(1) unat_u32_bound] by simp
  then have "of_nat idx < a_member_count x"
    using assms(1) by (simp add: word_less_nat_alt unat_of_nat_u32)
  moreover have "a_member_count x \<noteq> 0" using assms(1) by auto
  ultimately show ?thesis
    using assms(2,3)
    by (auto simp: md_super_valid_def md_super_of_simps ANX_MD_SB_TAIL_def not_le
      simp flip: md_super_of_checksum)
qed

subsection \<open>Assembly\<close>

text \<open>A superblock is usable in an array of \<open>n\<close> members when it claims one of its slots and does
  not mark its member faulty.\<close>

definition usable :: "u32 \<Rightarrow> md_cand \<Rightarrow> bool" where
  "usable n c \<longleftrightarrow> sb_member_index (snd c) < n \<and> sb_member_state (snd c) \<noteq> ANX_MD_MEMBER_FAULTY"

definition member_of :: "md_cand \<Rightarrow> anx_md_member" where
  "member_of c = \<lparr>m_dev = Some (fst c), m_data_offset = sb_data_offset (snd c),
     m_state = sb_member_state (snd c), m_events = sb_events (snd c)\<rparr>"

abbreviation cand_idx :: "md_cand \<Rightarrow> nat" where
  "cand_idx c \<equiv> unat (sb_member_index (snd c))"

lemma assemble_member_frame [simp]:
  "a_member_count (assemble_member c x) = a_member_count x" "length (a_members (assemble_member c x)) = length (a_members x)"
  "a_level (assemble_member c x) = a_level x" "a_tail_meta (assemble_member c x) = a_tail_meta x"
  by (auto simp: assemble_member_def Let_def split: prod.splits)

text \<open>The superblocks that count: for every slot the first usable one that claims it; and the
  newest event counter among them.\<close>

definition slot_claims :: "u32 \<Rightarrow> md_cand list \<Rightarrow> md_cand list" where
  "slot_claims n cands = fold (\<lambda>c acc. if usable n c \<and> cand_idx c \<notin> cand_idx ` set acc then acc @ [c] else acc) cands []"

definition newest :: "md_cand list \<Rightarrow> u64" where
  "newest cs = foldl max 0 (map (sb_events \<circ> snd) cs)"

definition claim_of :: "nat \<Rightarrow> md_cand list \<Rightarrow> md_cand option" where
  "claim_of i cs = find (\<lambda>c. cand_idx c = i) cs"

lemma slot_claims_snoc:
  "slot_claims n (cs @ [c]) = (let acc = slot_claims n cs in if usable n c \<and> cand_idx c \<notin> cand_idx ` set acc then acc @ [c] else acc)"
  by (simp add: slot_claims_def Let_def)

lemma claim_of_snoc: "claim_of i (cs @ [c]) = (case claim_of i cs of Some d \<Rightarrow> Some d | None \<Rightarrow> if cand_idx c = i then Some c else None)"
  by (induction cs) (auto simp: claim_of_def)

lemma claim_of_None: "claim_of i cs = None \<longleftrightarrow> i \<notin> cand_idx ` set cs"
  unfolding claim_of_def find_None_iff by force

lemma claim_of_mem: "distinct (map cand_idx cs) \<Longrightarrow> c \<in> set cs \<Longrightarrow> claim_of (cand_idx c) cs = Some c"
  by (induction cs) (auto simp: claim_of_def)

lemma slot_claims_ok: "distinct (map cand_idx (slot_claims n cs)) \<and> (\<forall>c\<in>set (slot_claims n cs). usable n c)"
  by (induction cs rule: rev_induct) (simp_all add: slot_claims_def)

lemma newest_ge: "c \<in> set cs \<Longrightarrow> sb_events (snd c) \<le> newest cs"
proof -
  have "x \<le> foldl max x xs" "e \<in> set xs \<Longrightarrow> e \<le> foldl max x xs" for x e :: u64 and xs
    by (induction xs arbitrary: x) (auto intro: order_trans [OF max.cobounded1] order_trans [OF max.cobounded2])
  then show "c \<in> set cs \<Longrightarrow> sb_events (snd c) \<le> newest cs" by (simp add: newest_def)
qed

lemma newest_in:
  assumes "cs \<noteq> []"
  shows "\<exists>c\<in>set cs. sb_events (snd c) = newest cs"
proof (cases "newest cs = 0")
  case True
  then have "sb_events (snd (hd cs)) = newest cs" using newest_ge [of "hd cs" cs] assms by simp
  then show ?thesis using assms by (intro bexI [of _ "hd cs"]) simp_all
next
  case False
  have "foldl max x xs = x \<or> foldl max x xs \<in> set xs" for x :: u64 and xs
    by (induction xs arbitrary: x) (auto simp: max_def)
  from this [of 0 "map (sb_events \<circ> snd) cs"] show ?thesis using False by (force simp: newest_def)
qed

text \<open>The first pass keeps the claims and their newest counter.\<close>

lemma assemble_fold:
  assumes "length (a_members x) = ANX_MD_MAX_MEMBERS" "unat (a_member_count x) \<le> ANX_MD_MAX_MEMBERS" "a_events x = 0"
    and "\<And>i. i < unat (a_member_count x) \<Longrightarrow> a_members x ! i = md_member_null"
  defines "y \<equiv> \<lambda>cs. fold assemble_member cs x" and "claims \<equiv> slot_claims (a_member_count x)"
  shows "a_member_count (y cs) = a_member_count x \<and> length (a_members (y cs)) = ANX_MD_MAX_MEMBERS \<and> a_events (y cs) = newest (claims cs)
    \<and> (\<forall>i<unat (a_member_count x). a_members (y cs) ! i = (case claim_of i (claims cs) of None \<Rightarrow> md_member_null | Some c \<Rightarrow> member_of c))"
proof (induction cs rule: rev_induct)
  case Nil
  then show ?case using assms(1-4) by (simp add: y_def claims_def slot_claims_def newest_def claim_of_def)
next
  case (snoc c cs)
  let ?n = "a_member_count x" and ?y = "y cs"
  have y: "y (cs @ [c]) = assemble_member c ?y" by (simp add: y_def)
  note snoc_claims = slot_claims_snoc [of ?n cs c, folded claims_def]
  show ?case
  proof (cases "usable ?n c")
    case False
    then have "y (cs @ [c]) = ?y" using snoc.IH unfolding y by (auto simp: assemble_member_def usable_def Let_def split: prod.splits)
    then show ?thesis using snoc.IH False by (simp add: snoc_claims Let_def)
  next
    case True
    then have i: "cand_idx c < unat ?n" by (simp add: usable_def word_less_nat_alt)
    then have m: "a_members ?y ! cand_idx c = (case claim_of (cand_idx c) (claims cs) of None \<Rightarrow> md_member_null | Some c \<Rightarrow> member_of c)"
      using snoc.IH by blast
    show ?thesis
    proof (cases "claim_of (cand_idx c) (claims cs)")
      case None
      have "a_members (assemble_member c ?y) = (a_members ?y)[cand_idx c := member_of c]"
        "a_events (assemble_member c ?y) = max (a_events ?y) (sb_events (snd c))"
        using True None m snoc.IH
        by (auto simp: assemble_member_def usable_def member_of_def md_member_null_def Let_def max_def split: prod.splits)
      then show ?thesis using snoc.IH None True i assms(2) claim_of_None [of "cand_idx c" "claims cs"]
        by (auto simp: y snoc_claims Let_def claim_of_snoc newest_def nth_list_update split: option.split)
    next
      case (Some d)
      then have "assemble_member c ?y = ?y" using m by (auto simp: assemble_member_def member_of_def Let_def split: prod.splits)
      then show ?thesis using snoc.IH Some claim_of_None [of "cand_idx c" "claims cs"] by (auto simp: y snoc_claims Let_def)
    qed
  qed
qed

lemma drop_stale_memb:
  "i < length (a_members x) \<Longrightarrow> a_members (drop_stale x) ! i =
     (let m = a_members x ! i in if i < unat (a_member_count x) \<and> m_dev m \<noteq> None \<and> m_events m \<noteq> a_events x
      then m\<lparr>m_dev := None, m_state := ANX_MD_MEMBER_EMPTY\<rparr> else m)"
  by (simp add: drop_stale_def Let_def)

lemma drop_stale_frame [simp]:
  "a_events (drop_stale x) = a_events x" "a_member_count (drop_stale x) = a_member_count x"
  "length (a_members (drop_stale x)) = length (a_members x)" "a_level (drop_stale x) = a_level x"
  by (simp_all add: drop_stale_def)

subsection \<open>Properties of the metadata\<close>

text \<open>C25: The superblock of a member survives the trip through its 512-byte sector: decoding
  the encoded bytes gives the superblock back, it fills exactly one sector, and the reader's
  checks (magic, version, checksum, member index, level, placement) all accept it.\<close>

theorem superblock_roundtrip:
  assumes "length (a_uuid x) = 16" "idx < unat (a_member_count x)"
    "unat (a_member_count x) \<le> ANX_MD_MAX_MEMBERS"
    "a_level x = ANX_MD_LEVEL_RAID0 \<or> a_level x = ANX_MD_LEVEL_RAID1"
  shows "sb_of_bytes (sb_bytes (md_super_of x idx)) = md_super_of x idx
    \<and> length (sb_bytes (md_super_of x idx)) = 512
    \<and> md_super_valid (a_tail_meta x) (sb_of_bytes (sb_bytes (md_super_of x idx))) = ANX_OK"
  using md_super_of_wf [OF assms(1)] md_super_of_valid [OF assms(2-4)]
  by (simp add: sb_of_bytes_sb_bytes length_sb_bytes)

definition ex_array :: anx_md_array where
  "ex_array = md_array_null\<lparr>a_used := True, a_level := ANX_MD_LEVEL_RAID1, a_member_count := 2,
     a_member_sectors := 100, a_array_sectors := 100\<rparr>"

theorem superblock_roundtrip_witness:
  "sb_of_bytes (sb_bytes (md_super_of ex_array 1)) = md_super_of ex_array 1
   \<and> md_super_valid False (sb_of_bytes (sb_bytes (md_super_of ex_array 1))) = ANX_OK"
proof -
  have "length (a_uuid ex_array) = 16" "1 < unat (a_member_count ex_array)"
    "unat (a_member_count ex_array) \<le> ANX_MD_MAX_MEMBERS"
    "a_level ex_array = ANX_MD_LEVEL_RAID0 \<or> a_level ex_array = ANX_MD_LEVEL_RAID1" "a_tail_meta ex_array = False"
    by (simp_all add: ex_array_def md_array_null_def ANX_MD_MAX_MEMBERS_def)
  then show ?thesis using superblock_roundtrip [of ex_array 1] by metis
qed



end
