(* ===== verification/Raid.thy ===== *)
theory Raid
  imports Md
begin

text \<open>
  Correctness of the RAID levels of \<open>Md\<close>. The contract of a set of block devices
  (\<open>block_devs\<close>) says what a driver promises of reads and writes, including that a failed
  write may leave any contents in the sectors it was aimed at. From it follow the contract of
  one device (\<open>block_dev\<close>) for a striped array and for a mirror: an array of block devices
  is a block device again, whatever member requests fail.
\<close>

subsection \<open>Contracts\<close>

text \<open>One device: \<open>repr s c\<close> says that in state \<open>s\<close> the device holds the sectors \<open>c\<close>.\<close>

definition upd_sectors :: "(nat \<Rightarrow> sector) \<Rightarrow> nat \<Rightarrow> sector list \<Rightarrow> nat \<Rightarrow> sector" where
  "upd_sectors c lba buf k = (if lba \<le> k \<and> k < lba + length buf then buf ! (k - lba) else c k)"

locale block_dev =
  fixes rd :: "u64 \<Rightarrow> u32 \<Rightarrow> 's \<Rightarrow> (int \<times> sector list) \<times> 's"
    and wr :: "u64 \<Rightarrow> u32 \<Rightarrow> sector list \<Rightarrow> 's \<Rightarrow> int \<times> 's"
    and holds :: "'s \<Rightarrow> (nat \<Rightarrow> sector) \<Rightarrow> bool"
  assumes rd_holds: "holds s c \<Longrightarrow> unat lba + unat n < 2 ^ 64 \<Longrightarrow> rd lba n s = ((r, data), t) \<Longrightarrow>
      holds t c \<and> (r = ANX_OK \<longrightarrow> data = map c [unat lba..<unat lba + unat n])"
    and wr_holds: "holds s c \<Longrightarrow> unat lba + unat n < 2 ^ 64 \<Longrightarrow> length buf = unat n \<Longrightarrow> wr lba n buf s = (r, t) \<Longrightarrow>
      \<exists>c'. holds t c' \<and> (\<forall>k. k < unat lba \<or> unat lba + unat n \<le> k \<longrightarrow> c' k = c k)
        \<and> (r = ANX_OK \<longrightarrow> c' = upd_sectors c (unat lba) buf)"
begin

lemma read_after_write:
  assumes "holds s c" "unat lba + unat n < 2 ^ 64" "length buf = unat n"
    "wr lba n buf s = (ANX_OK, t)" "rd lba n t = ((ANX_OK, data), u)"
  shows "data = buf"
proof -
  have "holds t (upd_sectors c (unat lba) buf)" using wr_holds [OF assms(1-4)] by blast
  then have "data = map (upd_sectors c (unat lba) buf) [unat lba..<unat lba + unat n]"
    using rd_holds assms(2,5) by blast
  also have "\<dots> = buf"
    using assms(3) by (intro nth_equalityI) (simp_all add: upd_sectors_def)
  finally show ?thesis .
qed

lemma read_other_after_write:
  assumes "holds s c" "unat lba + unat n < 2 ^ 64" "length buf = unat n"
    "unat lba' + unat n' < 2 ^ 64" "unat lba' + unat n' \<le> unat lba \<or> unat lba + unat n \<le> unat lba'"
    "wr lba n buf s = (r, t)" "rd lba' n' t = ((ANX_OK, data), u)"
  shows "data = map c [unat lba'..<unat lba' + unat n']"
proof -
  obtain c' where c': "holds t c'" "\<forall>k. k < unat lba \<or> unat lba + unat n \<le> k \<longrightarrow> c' k = c k"
    using wr_holds [OF assms(1-3,6)] by blast
  then have "data = map c' [unat lba'..<unat lba' + unat n']" using rd_holds assms(4,7) by blast
  also have "\<dots> = map c [unat lba'..<unat lba' + unat n']" using c'(2) assms(5) by auto
  finally show ?thesis .
qed

end

text \<open>The member devices \<open>D\<close> together: \<open>repr s C\<close> gives the contents of every device. Requests
  leave the array table alone and do not change capacities; neither the contents nor the
  capacities depend on the array table.\<close>

locale block_devs =
  fixes io :: "'d storage blk_io"
    and D :: "nat set"
    and repr :: "'d storage \<Rightarrow> (nat \<Rightarrow> nat \<Rightarrow> sector) \<Rightarrow> bool"
  assumes dev_read: "repr s C \<Longrightarrow> d \<in> D \<Longrightarrow> unat lba + unat n < 2 ^ 64 \<Longrightarrow> io_read io d lba n s = ((r, data), t) \<Longrightarrow>
      r \<le> ANX_OK \<and> repr t C \<and> md_arrays t = md_arrays s \<and> (\<forall>e\<in>D. io_capacity io e t = io_capacity io e s)
      \<and> (r = ANX_OK \<longrightarrow> data = map (C d) [unat lba..<unat lba + unat n])"
    and dev_write: "repr s C \<Longrightarrow> d \<in> D \<Longrightarrow> unat lba + unat n < 2 ^ 64 \<Longrightarrow> length buf = unat n \<Longrightarrow>
      io_write io d lba n buf s = (r, t) \<Longrightarrow>
      r \<le> ANX_OK \<and> md_arrays t = md_arrays s \<and> (\<forall>e\<in>D. io_capacity io e t = io_capacity io e s)
      \<and> (\<exists>c. repr t (C(d := c)) \<and> (\<forall>k. k < unat lba \<or> unat lba + unat n \<le> k \<longrightarrow> c k = C d k)
          \<and> (r = ANX_OK \<longrightarrow> c = upd_sectors (C d) (unat lba) buf))"
    and arrays_repr: "repr s C \<Longrightarrow> repr (s\<lparr>md_arrays := as\<rparr>) C"
    and arrays_capacity: "repr s C \<Longrightarrow> d \<in> D \<Longrightarrow> io_capacity io d (s\<lparr>md_arrays := as\<rparr>) = io_capacity io d s"

subsection \<open>Arrays up to their event counters\<close>

definition core :: "anx_md_array \<Rightarrow> anx_md_array" where
  "core x = x\<lparr>a_events := 0, a_members := map (\<lambda>m. m\<lparr>m_events := 0\<rparr>) (a_members x)\<rparr>"

lemma core_eqD:
  assumes "core x = core y"
  shows "a_used x = a_used y" "a_level x = a_level y" "a_chunk_sectors x = a_chunk_sectors y"
    "a_member_count x = a_member_count y" "a_member_sectors x = a_member_sectors y"
    "a_array_sectors x = a_array_sectors y" "a_tail_meta x = a_tail_meta y"
    "a_read_cursor x = a_read_cursor y" "a_resync_offset x = a_resync_offset y"
    "length (a_members x) = length (a_members y)"
proof -
  have "P (core x) = P (core y)" for P :: "anx_md_array \<Rightarrow> bool" using assms by simp
  show "a_used x = a_used y" "a_level x = a_level y" "a_chunk_sectors x = a_chunk_sectors y"
    "a_member_count x = a_member_count y" "a_member_sectors x = a_member_sectors y"
    "a_array_sectors x = a_array_sectors y" "a_tail_meta x = a_tail_meta y"
    "a_read_cursor x = a_read_cursor y" "a_resync_offset x = a_resync_offset y"
    using arg_cong [OF assms, of a_used] arg_cong [OF assms, of a_level] arg_cong [OF assms, of a_chunk_sectors]
      arg_cong [OF assms, of a_member_count] arg_cong [OF assms, of a_member_sectors]
      arg_cong [OF assms, of a_array_sectors] arg_cong [OF assms, of a_tail_meta]
      arg_cong [OF assms, of a_read_cursor] arg_cong [OF assms, of a_resync_offset]
    by (simp_all add: core_def)
  show "length (a_members x) = length (a_members y)"
    using arg_cong [OF assms, of "\<lambda>z. length (a_members z)"] by (simp add: core_def)
qed

lemma core_memb:
  assumes "core x = core y" "i < length (a_members x)"
  shows "m_dev (a_members x ! i) = m_dev (a_members y ! i)"
    "m_data_offset (a_members x ! i) = m_data_offset (a_members y ! i)"
    "m_state (a_members x ! i) = m_state (a_members y ! i)"
proof -
  have "map (\<lambda>m. m\<lparr>m_events := 0\<rparr>) (a_members x) ! i = map (\<lambda>m. m\<lparr>m_events := 0\<rparr>) (a_members y) ! i"
    using arg_cong [OF assms(1), of a_members] by (simp add: core_def)
  then have e: "(a_members x ! i)\<lparr>m_events := 0\<rparr> = (a_members y ! i)\<lparr>m_events := 0\<rparr>"
    using assms core_eqD(10) [OF assms(1)] by simp
  show "m_dev (a_members x ! i) = m_dev (a_members y ! i)"
    "m_data_offset (a_members x ! i) = m_data_offset (a_members y ! i)"
    "m_state (a_members x ! i) = m_state (a_members y ! i)"
    using arg_cong [OF e, of m_dev] arg_cong [OF e, of m_data_offset] arg_cong [OF e, of m_state] by simp_all
qed

lemma core_events [simp]: "core (x\<lparr>a_events := e\<rparr>) = core x"
  by (simp add: core_def)

lemma core_memb_events [simp]:
  "i < length (a_members x) \<Longrightarrow> core (x\<lparr>a_members := (a_members x)[i := (a_members x ! i)\<lparr>m_events := e\<rparr>]\<rparr>) = core x"
  by (simp add: core_def map_update) (metis (no_types, lifting) anx_md_member.update_convs(4) anx_md_member.surjective list_update_id nth_map)

text \<open>The geometry of an array: its member table, the data areas, which do not wrap and do not
  contain the sector of the superblock, and members on different devices.\<close>

definition geom :: "'d storage blk_io \<Rightarrow> nat set \<Rightarrow> nat \<Rightarrow> 'd storage \<Rightarrow> bool" where
  "geom io D a s \<longleftrightarrow> a < length (md_arrays s) \<and> a_used (arr s a)
     \<and> length (a_members (arr s a)) = ANX_MD_MAX_MEMBERS \<and> 0 < mcount s a \<and> mcount s a \<le> ANX_MD_MAX_MEMBERS
     \<and> (\<forall>i<mcount s a. \<forall>d. m_dev (memb s a i) = Some d \<longrightarrow> d \<in> D
          \<and> unat (m_data_offset (memb s a i)) + unat (a_member_sectors (arr s a)) < 2 ^ 64
          \<and> (\<forall>sec. md_super_sector io d (a_tail_meta (arr s a)) s = Inr sec \<longrightarrow>
               unat sec < unat (m_data_offset (memb s a i))
               \<or> unat (m_data_offset (memb s a i)) + unat (a_member_sectors (arr s a)) \<le> unat sec))
     \<and> (\<forall>i<mcount s a. \<forall>j<mcount s a. m_dev (memb s a i) \<noteq> None \<and> m_dev (memb s a i) = m_dev (memb s a j) \<longrightarrow> i = j)"

text \<open>The data sectors of the members are the same in two sets of contents.\<close>

definition data_eq :: "anx_md_array \<Rightarrow> (nat \<Rightarrow> nat \<Rightarrow> sector) \<Rightarrow> (nat \<Rightarrow> nat \<Rightarrow> sector) \<Rightarrow> bool" where
  "data_eq x C C' \<longleftrightarrow> (\<forall>i<unat (a_member_count x). \<forall>d. m_dev (a_members x ! i) = Some d \<longrightarrow>
     (\<forall>k<unat (a_member_sectors x). C' d (unat (m_data_offset (a_members x ! i)) + k)
        = C d (unat (m_data_offset (a_members x ! i)) + k)))"

lemma data_eq_refl [simp]: "data_eq x C C"
  by (simp add: data_eq_def)

lemma data_eq_trans: "data_eq x C C' \<Longrightarrow> data_eq x C' C'' \<Longrightarrow> data_eq x C C''"
  by (simp add: data_eq_def)

lemma set_arr_simps [simp]:
  "length (md_arrays (set_arr a x s)) = length (md_arrays s)"
  "a < length (md_arrays s) \<Longrightarrow> arr (set_arr a x s) b = (if b = a then x else arr s b)"
  by (simp_all add: set_arr_def nth_list_update)

lemma set_memb_arr [simp]:
  "length (md_arrays (set_memb a i m s)) = length (md_arrays s)"
  "a < length (md_arrays s) \<Longrightarrow> arr (set_memb a i m s) b =
     (if b = a then (arr s a)\<lparr>a_members := (a_members (arr s a))[i := m]\<rparr> else arr s b)"
  by (simp_all add: set_memb_def)

text \<open>What reads, writes and metadata updates never change of an array.\<close>

definition same_shape :: "anx_md_array \<Rightarrow> anx_md_array \<Rightarrow> bool" where
  "same_shape x y \<longleftrightarrow> a_used y = a_used x \<and> a_level y = a_level x \<and> a_chunk_sectors y = a_chunk_sectors x
     \<and> a_member_count y = a_member_count x
     \<and> a_member_sectors y = a_member_sectors x \<and> a_array_sectors y = a_array_sectors x
     \<and> a_tail_meta y = a_tail_meta x \<and> length (a_members y) = length (a_members x)
     \<and> (\<forall>i<length (a_members x). m_dev (a_members y ! i) = m_dev (a_members x ! i)
          \<and> m_data_offset (a_members y ! i) = m_data_offset (a_members x ! i))"

lemma same_shape_refl [simp]: "same_shape x x"
  by (simp add: same_shape_def)

lemma same_shape_trans: "same_shape x y \<Longrightarrow> same_shape y z \<Longrightarrow> same_shape x z"
  by (simp add: same_shape_def)

lemma core_shape: "core y = core x \<Longrightarrow> same_shape x y"
  unfolding same_shape_def using core_eqD [of y x] core_memb [of y x] by simp

lemma state_shape: "i < length (a_members x) \<Longrightarrow>
    same_shape x (x\<lparr>a_members := (a_members x)[i := (a_members x ! i)\<lparr>m_state := st\<rparr>]\<rparr>)"
  by (simp add: same_shape_def nth_list_update)

text \<open>What one request may change around the array \<open>a\<close>: nothing in the other arrays, no
  capacity, no data sector of a member.\<close>

definition md_rel :: "'d storage blk_io \<Rightarrow> nat set \<Rightarrow> nat \<Rightarrow> 'd storage \<Rightarrow> 'd storage \<Rightarrow> bool" where
  "md_rel io D a s t \<longleftrightarrow> length (md_arrays t) = length (md_arrays s) \<and> (\<forall>b. b \<noteq> a \<longrightarrow> arr t b = arr s b)
     \<and> (\<forall>d\<in>D. io_capacity io d t = io_capacity io d s) \<and> same_shape (arr s a) (arr t a)"

lemma md_rel_refl [simp]: "md_rel io D a s s"
  by (simp add: md_rel_def)

lemma md_rel_trans: "md_rel io D a s t \<Longrightarrow> md_rel io D a t u \<Longrightarrow> md_rel io D a s u"
  unfolding md_rel_def using same_shape_trans by fastforce

lemma geom_rel:
  assumes "geom io D a s" "md_rel io D a s t"
  shows "geom io D a t"
proof -
  have shape: "same_shape (arr s a) (arr t a)" using assms(2) by (simp add: md_rel_def)
  then have m: "m_dev (memb t a i) = m_dev (memb s a i)" "m_data_offset (memb t a i) = m_data_offset (memb s a i)"
    if "i < mcount s a" for i
    using that assms(1) by (simp_all add: same_shape_def geom_def)
  have sec: "md_super_sector io d tail t = md_super_sector io d tail s" if "d \<in> D" for d tail
    using that assms(2) by (simp add: md_super_sector_def md_rel_def)
  have sh: "a_used (arr t a) = a_used (arr s a)" "a_member_count (arr t a) = a_member_count (arr s a)"
    "a_member_sectors (arr t a) = a_member_sectors (arr s a)" "a_tail_meta (arr t a) = a_tail_meta (arr s a)"
    "length (a_members (arr t a)) = length (a_members (arr s a))" "length (md_arrays t) = length (md_arrays s)"
    using shape assms(2) by (simp_all add: same_shape_def md_rel_def)
  have "(\<forall>i<mcount s a. \<forall>j<mcount s a. m_dev (memb t a i) \<noteq> None \<and> m_dev (memb t a i) = m_dev (memb t a j) \<longrightarrow> i = j)"
    using assms(1) m(1) unfolding geom_def by metis
  then show ?thesis
    using assms(1) unfolding geom_def sh by (auto simp: m sec)
qed

lemma data_eq_shape:
  assumes "same_shape x y" "unat (a_member_count x) \<le> length (a_members x)"
  shows "data_eq y C C' \<longleftrightarrow> data_eq x C C'"
  using assms unfolding data_eq_def same_shape_def by auto

lemma geom_count: "geom io D a s \<Longrightarrow> mcount s a \<le> length (a_members (arr s a))"
  by (simp add: geom_def)

lemma set_arr_more: "set_arr a x s = s\<lparr>md_arrays := (md_arrays s)[a := x]\<rparr>"
  by (simp add: set_arr_def)

lemma two64: "(2::nat) ^ 64 = 18446744073709551616"
  by simp

lemma geom_memb:
  assumes "geom io D a s" "i < mcount s a" "m_dev (memb s a i) = Some d"
  shows "d \<in> D" "unat (m_data_offset (memb s a i)) + unat (a_member_sectors (arr s a)) < 2 ^ 64"
    "md_super_sector io d (a_tail_meta (arr s a)) s = Inr sec \<Longrightarrow> unat sec < unat (m_data_offset (memb s a i))
       \<or> unat (m_data_offset (memb s a i)) + unat (a_member_sectors (arr s a)) \<le> unat sec"
    "j < mcount s a \<Longrightarrow> m_dev (memb s a j) = Some d \<Longrightarrow> j = i"
  using assms unfolding geom_def by fastforce+

lemma geom_len:
  assumes "geom io D a s"
  shows "a < length (md_arrays s)" "length (a_members (arr s a)) = ANX_MD_MAX_MEMBERS" "0 < mcount s a"
    "mcount s a \<le> ANX_MD_MAX_MEMBERS" "a_used (arr s a)" "i < mcount s a \<Longrightarrow> i < length (a_members (arr s a))"
    "a_member_count (arr s a) \<noteq> 0"
  using assms unfolding geom_def by auto

lemma md_super_sector_bound:
  assumes "md_super_sector io d tail s = Inr sec"
  shows "unat sec + 1 < 2 ^ 64"
proof (cases tail)
  case False
  then show ?thesis using assms
    by (auto simp: md_super_sector_def Let_def ANX_MD_SB_SECTOR_HEAD_def split: if_splits)
next
  case True
  let ?cap = "io_capacity io d s"
  have "\<not> ?cap \<le> 8" "sec = ?cap - 8"
    using True assms by (auto simp: md_super_sector_def Let_def ANX_MD_SB_TAIL_BACK_def split: if_splits)
  then have "unat sec = unat ?cap - 8" "8 < unat ?cap"
    by (simp_all add: unat_sub word_le_nat_alt)
  then show ?thesis using unat_u64_bound [of ?cap] two64 by linarith
qed

context block_devs
begin

lemma repr_set_arr: "repr s C \<Longrightarrow> repr (set_arr a x s) C"
  unfolding set_arr_def by (rule arrays_repr)

lemma repr_set_memb: "repr s C \<Longrightarrow> repr (set_memb a i m s) C"
  unfolding set_memb_def by (rule repr_set_arr)

lemma capacity_set_arr: "repr s C \<Longrightarrow> d \<in> D \<Longrightarrow> io_capacity io d (set_arr a x s) = io_capacity io d s"
  unfolding set_arr_def by (rule arrays_capacity)

lemma capacity_set_memb: "repr s C \<Longrightarrow> d \<in> D \<Longrightarrow> io_capacity io d (set_memb a i m s) = io_capacity io d s"
  unfolding set_memb_def by (rule capacity_set_arr)

lemma rel_set_arr:
  "repr s C \<Longrightarrow> a < length (md_arrays s) \<Longrightarrow> same_shape (arr s a) x \<Longrightarrow> md_rel io D a s (set_arr a x s)"
  by (simp add: md_rel_def capacity_set_arr)

lemma rel_arrays_eq:
  "md_arrays t = md_arrays s \<Longrightarrow> \<forall>e\<in>D. io_capacity io e t = io_capacity io e s \<Longrightarrow> md_rel io D a s t"
  by (simp add: md_rel_def)

lemma super_write_step:
  assumes r: "repr s C" and g: "geom io D a s" and w: "anx_md_super_write io a i s = (ret, t)"
  obtains C' where "repr t C'" "core (arr t a) = core (arr s a)" "md_rel io D a s t" "data_eq (arr s a) C C'"
proof (cases "i \<ge> mcount s a \<or> m_dev (memb s a i) = None
    \<or> (\<exists>e. md_super_sector io (the (m_dev (memb s a i))) (a_tail_meta (arr s a)) s = Inl e)")
  case True
  then have "t = s" using w by (auto simp: anx_md_super_write_def split: if_splits option.splits)
  then show thesis using that [of C] r by simp
next
  case False
  then obtain d sec where d: "m_dev (memb s a i) = Some d" and i: "i < mcount s a"
    and sec: "md_super_sector io d (a_tail_meta (arr s a)) s = Inr sec"
    by (cases "md_super_sector io (the (m_dev (memb s a i))) (a_tail_meta (arr s a)) s") auto
  let ?s1 = "set_memb a i ((memb s a i)\<lparr>m_events := a_events (arr s a)\<rparr>) s"
  let ?buf = "[sb_bytes (md_super_of (arr s a) i)]"
  have wr: "io_write io d sec 1 ?buf ?s1 = (ret, t)"
    using w i d sec by (simp add: anx_md_super_write_def Let_def)
  have len: "a < length (md_arrays s)" "i < length (a_members (arr s a))" using geom_len [OF g] i by simp_all
  have dD: "d \<in> D" by (rule geom_memb(1) [OF g i d])
  have ub: "unat sec + unat (1 :: u32) < 2 ^ 64" using md_super_sector_bound [OF sec] by simp
  from dev_write [OF repr_set_memb [OF r] dD ub _ wr] obtain c where
    t: "md_arrays t = md_arrays ?s1" "\<forall>e\<in>D. io_capacity io e t = io_capacity io e ?s1" "repr t (C(d := c))"
    and c: "\<And>k. k < unat sec \<or> unat sec + 1 \<le> k \<Longrightarrow> c k = C d k" by auto
  have core: "core (arr t a) = core (arr s a)" using t(1) len by simp
  then have rel: "md_rel io D a s t"
    using t len capacity_set_memb [OF r] by (simp add: md_rel_def core_shape)
  have "data_eq (arr s a) C (C(d := c))"
    unfolding data_eq_def
  proof (intro allI impI)
    fix j e k
    assume j: "j < mcount s a" "m_dev (memb s a j) = Some e" "k < unat (a_member_sectors (arr s a))"
    show "(C(d := c)) e (unat (m_data_offset (memb s a j)) + k) = C e (unat (m_data_offset (memb s a j)) + k)"
    proof (cases "e = d")
      case True
      with j have "j = i" using geom_memb(4) [OF g i d] by simp
      then show ?thesis using True j(3) geom_memb(3) [OF g i d sec] by (auto intro: c)
    qed simp
  qed
  then show thesis using that [of "C(d := c)"] t core rel by blast
qed

lemma super_sync_loop_step:
  assumes "repr s C" "geom io D a s" "super_sync_loop io a is r0 s = (ret, t)"
  obtains C' where "repr t C'" "core (arr t a) = core (arr s a)" "md_rel io D a s t" "data_eq (arr s a) C C'"
  using assms
proof (induction "is" arbitrary: r0 s C thesis)
  case Nil
  then show ?case by auto
next
  case (Cons i "is")
  show ?case
  proof (cases "m_dev (memb s a i) = None")
    case True
    then show ?thesis using Cons.prems(4) Cons.IH [OF Cons.prems(1-3)] by simp
  next
    case False
    obtain r1 s1 where w: "anx_md_super_write io a i s = (r1, s1)" by fastforce
    from super_write_step [OF Cons.prems(2,3) w] obtain C1 where
      1: "repr s1 C1" "core (arr s1 a) = core (arr s a)" "md_rel io D a s s1" "data_eq (arr s a) C C1" .
    have g1: "geom io D a s1" using Cons.prems(3) 1(3) by (rule geom_rel)
    have l: "super_sync_loop io a is (if r1 \<noteq> ANX_OK then r1 else r0) s1 = (ret, t)"
      using Cons.prems(4) False w by simp
    show ?thesis
    proof (rule Cons.IH [OF _ 1(1) g1 l])
      fix C' assume 2: "repr t C'" "core (arr t a) = core (arr s1 a)" "md_rel io D a s1 t" "data_eq (arr s1 a) C1 C'"
      have "data_eq (arr s a) C1 C'"
        using 2(4) data_eq_shape [of "arr s a" "arr s1 a"] 1(3) geom_count [OF Cons.prems(3)] by (simp add: md_rel_def)
      then show thesis
        using Cons.prems(1) [OF 2(1) trans [OF 2(2) 1(2)] md_rel_trans [OF 1(3) 2(3)] data_eq_trans [OF 1(4)]] by blast
    qed
  qed
qed

lemma super_sync_step:
  assumes "repr s C" "geom io D a s" "anx_md_super_sync io a s = (ret, t)"
  obtains C' where "repr t C'" "core (arr t a) = core (arr s a)" "md_rel io D a s t" "data_eq (arr s a) C C'"
proof -
  let ?s = "set_arr a ((arr s a)\<lparr>a_events := a_events (arr s a) + 1\<rparr>) s"
  have len: "a < length (md_arrays s)" using assms(2) by (simp add: geom_def)
  have core: "core (arr ?s a) = core (arr s a)" using len by simp
  have rel: "md_rel io D a s ?s" using len by (intro rel_set_arr [OF assms(1)] core_shape) simp_all
  have loop: "super_sync_loop io a [0..<mcount s a] ANX_OK ?s = (ret, t)"
    using assms(3) by (simp add: anx_md_super_sync_def)
  from super_sync_loop_step [OF repr_set_arr [OF assms(1)] geom_rel [OF assms(2) rel] loop]
  obtain C' where 1: "repr t C'" "core (arr t a) = core (arr ?s a)" "md_rel io D a ?s t" "data_eq (arr ?s a) C C'" .
  have "data_eq (arr s a) C C'"
    using 1(4) data_eq_shape [of "arr s a" "arr ?s a"] rel geom_count [OF assms(2)] by (simp add: md_rel_def)
  then show thesis using that [of C'] 1 core md_rel_trans [OF rel 1(3)] by simp
qed

end

subsection \<open>Member requests\<close>

text \<open>Sector \<open>k\<close> of the data area of member \<open>i\<close>.\<close>

definition mdata :: "anx_md_array \<Rightarrow> (nat \<Rightarrow> nat \<Rightarrow> sector) \<Rightarrow> nat \<Rightarrow> nat \<Rightarrow> sector" where
  "mdata x C i k = C (the (m_dev (a_members x ! i))) (unat (m_data_offset (a_members x ! i)) + k)"

lemma data_eq_mdata:
  "data_eq x C C' \<longleftrightarrow> (\<forall>i<unat (a_member_count x). m_dev (a_members x ! i) \<noteq> None \<longrightarrow>
     (\<forall>k<unat (a_member_sectors x). mdata x C' i k = mdata x C i k))"
  by (auto simp: data_eq_def mdata_def)

lemma mdata_shape:
  assumes "same_shape x y" "i < length (a_members x)"
  shows "mdata y C i k = mdata x C i k"
  using assms by (simp add: mdata_def same_shape_def)

text \<open>A metadata-only step: member states may drop to faulty, data stays.\<close>

definition demotes :: "anx_md_array \<Rightarrow> anx_md_array \<Rightarrow> bool" where
  "demotes x y \<longleftrightarrow> a_resync_offset y = a_resync_offset x \<and> same_shape x y
     \<and> (\<forall>i<length (a_members x). m_state (a_members y ! i) = m_state (a_members x ! i)
          \<or> m_state (a_members y ! i) = ANX_MD_MEMBER_FAULTY)"

lemma demotes_refl [simp]: "demotes x x"
  by (simp add: demotes_def)

lemma demotes_trans:
  assumes "demotes x y" "demotes y z"
  shows "demotes x z"
proof -
  have "length (a_members y) = length (a_members x)" using assms(1) by (simp add: demotes_def same_shape_def)
  moreover have "same_shape x z" using assms same_shape_trans unfolding demotes_def by blast
  ultimately show ?thesis using assms unfolding demotes_def by (auto, metis)
qed

lemma demotes_core: "core y = core x \<Longrightarrow> demotes x y"
  using core_eqD [of y x] core_memb(3) [of y x] by (simp add: demotes_def core_shape)

lemma demotes_fault:
  "i < length (a_members x) \<Longrightarrow>
    demotes x (x\<lparr>a_members := (a_members x)[i := (a_members x ! i)\<lparr>m_state := ANX_MD_MEMBER_FAULTY\<rparr>]\<rparr>)"
  by (simp add: demotes_def state_shape nth_list_update)

lemma add_range:
  assumes "unat lba + unat n < 2 ^ 64" "\<not> lba + ucast (n :: u32) > (m :: u64)"
  shows "unat lba + unat n \<le> unat m"
proof -
  have "unat (ucast n :: u64) = unat n"
    by (simp add: unsigned_ucast_eq take_bit_nat_eq_self less_trans [OF unat_u32_bound])
  then have "unat (lba + ucast n) = unat lba + unat n" using assms(1) by (simp add: unat_add_u64)
  then show ?thesis using assms(2) by (simp add: word_less_nat_alt)
qed

lemma in_range_add:
  assumes "unat lba + unat n \<le> unat (m :: u64)"
  shows "\<not> lba + ucast (n :: u32) > m"
proof -
  have "unat (ucast n :: u64) = unat n"
    by (simp add: unsigned_ucast_eq take_bit_nat_eq_self less_trans [OF unat_u32_bound])
  moreover have "unat lba + unat n < 2 ^ 64" using assms unat_u64_bound [of m] two64 by linarith
  ultimately have "unat (lba + ucast n) = unat lba + unat n" by (simp add: unat_add_u64)
  then show ?thesis using assms by (simp add: word_less_nat_alt)
qed

context block_devs
begin

lemma member_read_step:
  assumes r: "repr s C" and g: "geom io D a s" and "unat lba + unat n < 2 ^ 64"
    and rd: "anx_md_member_read io a i lba n s = ((r, data), t)"
  shows "r \<le> ANX_OK \<and> repr t C \<and> md_rel io D a s t \<and> arr t a = arr s a
    \<and> (r = ANX_OK \<longrightarrow> data = map (mdata (arr s a) C i) [unat lba..<unat lba + unat n])"
proof (cases "i \<ge> mcount s a \<or> m_dev (memb s a i) = None \<or> m_state (memb s a i) = ANX_MD_MEMBER_FAULTY
    \<or> lba + ucast n > a_member_sectors (arr s a)")
  case True
  then have "t = s" "r < ANX_OK" using rd by (auto simp: anx_md_member_read_def Let_def split: if_splits)
  then show ?thesis using r by simp
next
  case False
  then obtain d where d: "m_dev (memb s a i) = Some d" and i: "i < mcount s a" by auto
  let ?off = "m_data_offset (memb s a i)"
  have io: "io_read io d (?off + lba) n s = ((r, data), t)"
    using False rd d i by (auto simp: anx_md_member_read_def Let_def)
  have le: "unat lba + unat n \<le> unat (a_member_sectors (arr s a))"
    using add_range assms(3) False by blast
  have off: "unat (?off + lba) = unat ?off + unat lba"
    using geom_memb(2) [OF g i d] le by (intro unat_add_u64) linarith
  have "unat (?off + lba) + unat n < 2 ^ 64" using geom_memb(2) [OF g i d] le off by linarith
  from dev_read [OF r geom_memb(1) [OF g i d] this io]
  have t: "r \<le> ANX_OK" "repr t C" "md_arrays t = md_arrays s" "\<forall>e\<in>D. io_capacity io e t = io_capacity io e s"
    and data: "r = ANX_OK \<Longrightarrow> data = map (C d) [unat (?off + lba)..<unat (?off + lba) + unat n]" by auto
  have "map (C d) [unat (?off + lba)..<unat (?off + lba) + unat n] = map (mdata (arr s a) C i) [unat lba..<unat lba + unat n]"
    by (rule nth_equalityI) (simp_all add: off mdata_def d add.assoc)
  then show ?thesis using t data rel_arrays_eq by simp
qed

lemma member_write_step:
  assumes r: "repr s C" and g: "geom io D a s" and "unat lba + unat n < 2 ^ 64" "length buf = unat n"
    and wr: "anx_md_member_write io a i lba n buf s = (r, t)"
  obtains C' where "repr t C'" "md_rel io D a s t" "arr t a = arr s a" "r \<le> ANX_OK"
    "\<And>j k. j < mcount s a \<Longrightarrow> m_dev (memb s a j) \<noteq> None \<Longrightarrow> j \<noteq> i \<or> k < unat lba \<or> unat lba + unat n \<le> k \<Longrightarrow>
       k < unat (a_member_sectors (arr s a)) \<Longrightarrow> mdata (arr s a) C' j k = mdata (arr s a) C j k"
    "\<And>k. r = ANX_OK \<Longrightarrow> unat lba \<le> k \<Longrightarrow> k < unat lba + unat n \<Longrightarrow> mdata (arr s a) C' i k = buf ! (k - unat lba)"
    "r = ANX_OK \<Longrightarrow> i < mcount s a \<and> m_dev (memb s a i) \<noteq> None \<and> m_state (memb s a i) \<noteq> ANX_MD_MEMBER_FAULTY
       \<and> unat lba + unat n \<le> unat (a_member_sectors (arr s a))"
proof (cases "i \<ge> mcount s a \<or> m_dev (memb s a i) = None \<or> m_state (memb s a i) = ANX_MD_MEMBER_FAULTY
    \<or> lba + ucast n > a_member_sectors (arr s a)")
  case True
  then have "t = s" "r < ANX_OK" using wr by (auto simp: anx_md_member_write_def Let_def split: if_splits)
  then show thesis using that [of C] r by simp
next
  case False
  then obtain d where d: "m_dev (memb s a i) = Some d" and i: "i < mcount s a" by auto
  let ?off = "m_data_offset (memb s a i)"
  have io: "io_write io d (?off + lba) n buf s = (r, t)"
    using False wr d i by (auto simp: anx_md_member_write_def Let_def)
  have le: "unat lba + unat n \<le> unat (a_member_sectors (arr s a))"
    using add_range assms(3) False by blast
  have off: "unat (?off + lba) = unat ?off + unat lba"
    using geom_memb(2) [OF g i d] le by (intro unat_add_u64) linarith
  have "unat (?off + lba) + unat n < 2 ^ 64" using geom_memb(2) [OF g i d] le off by linarith
  from dev_write [OF r geom_memb(1) [OF g i d] this assms(4) io] obtain c where
    t: "repr t (C(d := c))" "md_arrays t = md_arrays s" "\<forall>e\<in>D. io_capacity io e t = io_capacity io e s"
    and c: "\<And>k. k < unat (?off + lba) \<or> unat (?off + lba) + unat n \<le> k \<Longrightarrow> c k = C d k"
    and le0: "r \<le> ANX_OK" and ok: "r = ANX_OK \<Longrightarrow> c = upd_sectors (C d) (unat (?off + lba)) buf" by auto
  show thesis
  proof (rule that [OF t(1) rel_arrays_eq [OF t(2,3)]])
    show "arr t a = arr s a" using t(2) by simp
    fix j k
    assume j: "j < mcount s a" "m_dev (memb s a j) \<noteq> None" "j \<noteq> i \<or> k < unat lba \<or> unat lba + unat n \<le> k"
    show "mdata (arr s a) (C(d := c)) j k = mdata (arr s a) C j k"
    proof (cases "j = i")
      case True
      then show ?thesis using j(3) d by (auto simp: mdata_def off intro!: c)
    next
      case False
      then have "the (m_dev (memb s a j)) \<noteq> d" using geom_memb(4) [OF g i d j(1)] j(2) by auto
      then show ?thesis by (simp add: mdata_def)
    qed
  next
    fix k assume "r = ANX_OK" "unat lba \<le> k" "k < unat lba + unat n"
    then show "mdata (arr s a) (C(d := c)) i k = buf ! (k - unat lba)"
      using ok assms(4) by (simp add: mdata_def d upd_sectors_def off)
  qed (use False le d i le0 in auto)
qed

lemma fault_step:
  assumes r: "repr s C" and g: "geom io D a s"
  obtains C' where "repr (anx_md_member_fault io a i s) C'" "md_rel io D a s (anx_md_member_fault io a i s)"
    "data_eq (arr s a) C C'" "demotes (arr s a) (arr (anx_md_member_fault io a i s) a)"
    "i < mcount s a \<Longrightarrow> m_dev (memb s a i) \<noteq> None \<Longrightarrow> m_state (memb (anx_md_member_fault io a i s) a i) = ANX_MD_MEMBER_FAULTY"
    "\<And>j. j < mcount s a \<Longrightarrow> j \<noteq> i \<Longrightarrow> m_state (memb (anx_md_member_fault io a i s) a j) = m_state (memb s a j)"
    "a_read_cursor (arr (anx_md_member_fault io a i s) a) = a_read_cursor (arr s a)"
proof (cases "i \<ge> mcount s a \<or> m_dev (memb s a i) = None \<or> m_state (memb s a i) = ANX_MD_MEMBER_FAULTY")
  case True
  then have "anx_md_member_fault io a i s = s" by (auto simp: anx_md_member_fault_def Let_def)
  then show thesis using that [of C] r True by auto
next
  case False
  let ?s = "set_memb a i ((memb s a i)\<lparr>m_state := ANX_MD_MEMBER_FAULTY\<rparr>) s"
  note len = geom_len [OF g]
  have i: "i < length (a_members (arr s a))" using False len by simp
  obtain ret t where sync: "anx_md_super_sync io a ?s = (ret, t)" by fastforce
  have t: "anx_md_member_fault io a i s = t" using False sync by (auto simp: anx_md_member_fault_def Let_def)
  have rel: "md_rel io D a s ?s"
    using len(1) state_shape [OF i] unfolding set_memb_def by (intro rel_set_arr [OF r])
  have dem: "demotes (arr s a) (arr ?s a)" using len(1) demotes_fault [OF i] by simp
  from super_sync_step [OF repr_set_memb [OF r] geom_rel [OF g rel] sync]
  obtain C' where 1: "repr t C'" "core (arr t a) = core (arr ?s a)" "md_rel io D a ?s t" "data_eq (arr ?s a) C C'" .
  have st: "m_state (memb t a j) = m_state (memb ?s a j)" if "j < mcount s a" for j
    using that len core_memb(3) [OF 1(2) [symmetric]] by simp
  show thesis
  proof (rule that [of C', unfolded t, OF 1(1) md_rel_trans [OF rel 1(3)]])
    show "data_eq (arr s a) C C'"
      using 1(4) data_eq_shape [of "arr s a" "arr ?s a"] rel geom_count [OF g] by (simp add: md_rel_def)
    show "demotes (arr s a) (arr t a)" using demotes_trans [OF dem demotes_core [OF 1(2)]] .
    show "a_read_cursor (arr t a) = a_read_cursor (arr s a)" using core_eqD(8) [OF 1(2)] len(1) by simp
  qed (use st len i in auto)
qed

end

subsection \<open>Mirroring\<close>

text \<open>Member \<open>i\<close> holds \<open>f i\<close>: all of it when active, the rebuilt part when it is a spare.\<close>

definition mirror_at :: "anx_md_array \<Rightarrow> (nat \<Rightarrow> nat \<Rightarrow> sector) \<Rightarrow> (nat \<Rightarrow> nat \<Rightarrow> sector) \<Rightarrow> bool" where
  "mirror_at x C f \<longleftrightarrow> (\<forall>i<unat (a_member_count x). m_dev (a_members x ! i) \<noteq> None \<longrightarrow>
     (m_state (a_members x ! i) = ANX_MD_MEMBER_ACTIVE \<longrightarrow>
        (\<forall>k<unat (a_member_sectors x). mdata x C i k = f i k))
     \<and> (m_state (a_members x ! i) = ANX_MD_MEMBER_SPARE \<longrightarrow>
        (\<forall>k<unat (a_member_sectors x). k < unat (a_resync_offset x) \<longrightarrow> mdata x C i k = f i k)))"

lemma md_states_distinct:
  "ANX_MD_MEMBER_ACTIVE \<noteq> ANX_MD_MEMBER_FAULTY" "ANX_MD_MEMBER_SPARE \<noteq> ANX_MD_MEMBER_FAULTY"
  "ANX_MD_MEMBER_ACTIVE \<noteq> ANX_MD_MEMBER_SPARE"
  by (simp_all add: md_consts)

lemma mirror_demotes:
  assumes "mirror_at x C f" "demotes x y" "data_eq x C C'" "unat (a_member_count x) \<le> length (a_members x)"
  shows "mirror_at y C' f"
  unfolding mirror_at_def
proof (intro allI impI)
  fix i assume i: "i < unat (a_member_count y)" "m_dev (a_members y ! i) \<noteq> None"
  have sh: "same_shape x y" using assms(2) by (simp add: demotes_def)
  then have eq: "a_member_count y = a_member_count x" "a_member_sectors y = a_member_sectors x"
    "m_dev (a_members y ! i) = m_dev (a_members x ! i)" "a_resync_offset y = a_resync_offset x"
    using i assms(2,4) by (simp_all add: demotes_def same_shape_def)
  have i': "i < unat (a_member_count x)" "m_dev (a_members x ! i) \<noteq> None" "i < length (a_members x)"
    using i assms(4) eq by simp_all
  have d: "mdata y C' i k = mdata x C i k" if "k < unat (a_member_sectors x)" for k
    using assms(3) that i' mdata_shape [OF sh i'(3)] by (simp add: data_eq_mdata)
  have st: "m_state (a_members y ! i) = m_state (a_members x ! i) \<or> m_state (a_members y ! i) = ANX_MD_MEMBER_FAULTY"
    using assms(2) i'(3) by (simp add: demotes_def)
  show "(m_state (a_members y ! i) = ANX_MD_MEMBER_ACTIVE \<longrightarrow> (\<forall>k<unat (a_member_sectors y). mdata y C' i k = f i k)) \<and>
    (m_state (a_members y ! i) = ANX_MD_MEMBER_SPARE \<longrightarrow>
      (\<forall>k<unat (a_member_sectors y). k < unat (a_resync_offset y) \<longrightarrow> mdata y C' i k = f i k))"
    using assms(1) i'(1,2) d st md_states_distinct unfolding mirror_at_def eq by auto
qed

lemma mirror_cong: "mirror_at x C f \<Longrightarrow> (\<And>i. i < unat (a_member_count x) \<Longrightarrow> f i = g i) \<Longrightarrow> mirror_at x C g"
  unfolding mirror_at_def by simp

text \<open>A mirror that holds \<open>c\<close>.\<close>

definition raid1_holds :: "'d storage blk_io \<Rightarrow> nat set \<Rightarrow> ('d storage \<Rightarrow> (nat \<Rightarrow> nat \<Rightarrow> sector) \<Rightarrow> bool) \<Rightarrow> nat \<Rightarrow>
    'd storage \<Rightarrow> (nat \<Rightarrow> sector) \<Rightarrow> bool" where
  "raid1_holds io D repr a s c \<longleftrightarrow> geom io D a s \<and> a_level (arr s a) = ANX_MD_LEVEL_RAID1
     \<and> a_array_sectors (arr s a) = a_member_sectors (arr s a)
     \<and> (\<exists>C. repr s C \<and> mirror_at (arr s a) C (\<lambda>_. c))"

lemma demotes_cursor: "demotes x (x\<lparr>a_read_cursor := r\<rparr>)"
  by (simp add: demotes_def same_shape_def)

lemma raid1_idx_less: "0 < (n :: u32) \<Longrightarrow> unat (k mod n) < unat n"
  by (simp add: unat_mod word_less_nat_alt)

context block_devs
begin

lemma raid1_read_loop_step:
  assumes "repr s C" "geom io D a s" "unat lba + unat n < 2 ^ 64" "mirror_at (arr s a) C (\<lambda>_. c)"
    "raid1_read_loop io a lba n ts r0 s = ((r, data), t)" "r0 < ANX_OK" "unat lba + unat n \<le> unat (a_member_sectors (arr s a))"
  shows "(\<exists>C'. repr t C' \<and> mirror_at (arr t a) C' (\<lambda>_. c) \<and> data_eq (arr s a) C C') \<and> md_rel io D a s t \<and> demotes (arr s a) (arr t a)
    \<and> (r = ANX_OK \<longrightarrow> data = map c [unat lba..<unat lba + unat n])
    \<and> (\<forall>i<mcount s a. m_state (memb s a i) \<noteq> ANX_MD_MEMBER_ACTIVE \<longrightarrow> m_state (memb t a i) = m_state (memb s a i))
    \<and> r \<le> ANX_OK"
  using assms
proof (induction ts arbitrary: r0 s C)
  case Nil
  then show ?case by auto
next
  case (Cons tried ts)
  define idx where "idx = unat ((a_read_cursor (arr s a) + of_nat tried) mod a_member_count (arr s a))"
  have idx: "idx < mcount s a"
    unfolding idx_def using geom_len(3) [OF Cons.prems(2)] by (intro raid1_idx_less) (simp add: word_less_nat_alt)
  show ?case
  proof (cases "raid1_readable s a idx")
    case False
    then have "raid1_read_loop io a lba n ts r0 s = ((r, data), t)" using Cons.prems(5) by (simp add: Let_def idx_def)
    then show ?thesis by (rule Cons.IH [OF Cons.prems(1-4) _ Cons.prems(6,7)])
  next
    case True
    obtain r1 data1 s1 where rd: "anx_md_member_read io a idx lba n s = ((r1, data1), s1)" by (metis prod.collapse)
    from member_read_step [OF Cons.prems(1,2,3) rd]
    have 1: "repr s1 C" "md_rel io D a s s1" "arr s1 a = arr s a" and neg: "r1 \<le> ANX_OK"
      and data: "r1 = ANX_OK \<Longrightarrow> data1 = map (mdata (arr s a) C idx) [unat lba..<unat lba + unat n]" by auto
    have g1: "geom io D a s1" using Cons.prems(2) 1(2) by (rule geom_rel)
    show ?thesis
    proof (cases "r1 = ANX_OK")
      case ok: True
      let ?x = "(arr s1 a)\<lparr>a_read_cursor := (of_nat idx + 1) mod a_member_count (arr s1 a)\<rparr>"
      have t: "t = set_arr a ?x s1" "data = data1"
        using Cons.prems(5) True rd ok by (simp_all add: Let_def idx_def)
      have "r = ANX_OK" using Cons.prems(5) True rd ok by (simp add: Let_def idx_def)
      have dem: "demotes (arr s a) (arr t a)"
        using geom_len(1) [OF g1] demotes_cursor 1(3) by (simp add: t)
      have "md_rel io D a s1 t" using geom_len(1) [OF g1] unfolding t(1)
        by (intro rel_set_arr [OF 1(1)]) (simp_all add: same_shape_def)
      then have "md_rel io D a s t" using 1(2) md_rel_trans by blast
      moreover have "mirror_at (arr t a) C (\<lambda>_. c)"
        using mirror_demotes [OF Cons.prems(4) dem data_eq_refl geom_count [OF Cons.prems(2)]] .
      moreover have "repr t C" unfolding t by (rule repr_set_arr [OF 1(1)])
      moreover have "data = map c [unat lba..<unat lba + unat n]"
        using data [OF ok] t(2) True idx Cons.prems(4,7) by (auto simp: mirror_at_def raid1_readable_def)
      moreover have "\<forall>i<mcount s a. m_state (memb t a i) = m_state (memb s a i)"
        using geom_len(1) [OF g1] by (simp add: t 1(3))
      ultimately show ?thesis using dem data_eq_refl \<open>r = ANX_OK\<close> by auto
    next
      case False
      obtain C1 where 2: "repr (anx_md_member_fault io a idx s1) C1" "md_rel io D a s1 (anx_md_member_fault io a idx s1)"
        "data_eq (arr s1 a) C C1" "demotes (arr s1 a) (arr (anx_md_member_fault io a idx s1) a)"
        "\<And>j. j < mcount s1 a \<Longrightarrow> j \<noteq> idx \<Longrightarrow> m_state (memb (anx_md_member_fault io a idx s1) a j) = m_state (memb s1 a j)"
        using fault_step [OF 1(1) g1] by metis
      define u where "u = anx_md_member_fault io a idx s1"
      note 2 = 2 [folded u_def, unfolded 1(3)]
      have gu: "geom io D a u" using geom_rel [OF g1 2(2)] .
      have eq: "a_member_sectors (arr u a) = a_member_sectors (arr s a)" "mcount u a = mcount s a"
        using 2(4) by (simp_all add: demotes_def same_shape_def)
      have loop: "raid1_read_loop io a lba n ts r1 u = ((r, data), t)"
        using Cons.prems(5) True rd False by (simp add: Let_def idx_def u_def)
      have mir: "mirror_at (arr u a) C1 (\<lambda>_. c)"
        using mirror_demotes [OF Cons.prems(4) 2(4,3) geom_count [OF Cons.prems(2)]] .
      from Cons.IH [OF 2(1) gu Cons.prems(3) mir loop _] False neg Cons.prems(7)
      have 3: "\<exists>C'. repr t C' \<and> mirror_at (arr t a) C' (\<lambda>_. c) \<and> data_eq (arr u a) C1 C'" "md_rel io D a u t"
        "demotes (arr u a) (arr t a)" "r = ANX_OK \<longrightarrow> data = map c [unat lba..<unat lba + unat n]"
        "\<forall>i<mcount s a. m_state (memb u a i) \<noteq> ANX_MD_MEMBER_ACTIVE \<longrightarrow> m_state (memb t a i) = m_state (memb u a i)"
        "r \<le> ANX_OK"
        by (simp_all add: eq)
      have "\<exists>C'. repr t C' \<and> mirror_at (arr t a) C' (\<lambda>_. c) \<and> data_eq (arr s a) C C'"
        using 3(1) 2(3,4) data_eq_shape [of "arr s a" "arr u a"] geom_count [OF Cons.prems(2)] data_eq_trans
        unfolding demotes_def by blast
      moreover have "md_rel io D a s t" using md_rel_trans 1(2) 2(2) 3(2) by blast
      moreover have "demotes (arr s a) (arr t a)" using demotes_trans 2(4) 3(3) by blast
      moreover have "\<forall>i<mcount s a. m_state (memb s a i) \<noteq> ANX_MD_MEMBER_ACTIVE \<longrightarrow> m_state (memb t a i) = m_state (memb s a i)"
        using 3(5) 2(5) True by (metis raid1_readable_def)
      ultimately show ?thesis using 3(4,6) by blast
    qed
  qed
qed

end

lemma mirror_write:
  assumes "mirror_at x C f" "unat lba + length buf \<le> unat (a_member_sectors x)"
    and same: "\<And>j k. j < unat (a_member_count x) \<Longrightarrow> m_dev (a_members x ! j) \<noteq> None \<Longrightarrow>
       j \<noteq> i \<or> k < unat lba \<or> unat lba + length buf \<le> k \<Longrightarrow> k < unat (a_member_sectors x) \<Longrightarrow> mdata x C' j k = mdata x C j k"
    and new: "\<And>k. unat lba \<le> k \<Longrightarrow> k < unat lba + length buf \<Longrightarrow> mdata x C' i k = buf ! (k - unat lba)"
  shows "mirror_at x C' (f(i := upd_sectors (f i) (unat (lba :: u64)) buf))"
proof -
  have "mdata x C' j k = (f(i := upd_sectors (f i) (unat lba) buf)) j k"
    if "j < unat (a_member_count x)" "m_dev (a_members x ! j) \<noteq> None" "k < unat (a_member_sectors x)"
      "mdata x C j k = f j k" for j k
    using that same [OF that(1,2) _ that(3)] new [of k] by (auto simp: upd_sectors_def not_le not_less)
  then show ?thesis using assms(1) unfolding mirror_at_def by simp
qed

lemma mirror_skip:
  assumes "mirror_at x C f" "m_dev (a_members x ! i) = None \<or> m_state (a_members x ! i) = ANX_MD_MEMBER_FAULTY
    \<or> (m_state (a_members x ! i) = ANX_MD_MEMBER_SPARE \<and> a_resync_offset x \<le> lba)"
  shows "mirror_at x C (f(i := upd_sectors (f i) (unat lba) buf))"
  using assms md_states_distinct unfolding mirror_at_def by (auto simp: upd_sectors_def word_le_nat_alt)

lemma mirror_drop:
  assumes "mirror_at x C f" "demotes x y" "data_eq x C' C''" "unat (a_member_count x) \<le> length (a_members x)"
    "m_state (a_members y ! i) = ANX_MD_MEMBER_FAULTY"
    "\<And>j k. j < unat (a_member_count x) \<Longrightarrow> m_dev (a_members x ! j) \<noteq> None \<Longrightarrow> j \<noteq> i \<Longrightarrow>
       k < unat (a_member_sectors x) \<Longrightarrow> mdata x C' j k = mdata x C j k"
  shows "mirror_at y C'' (f(i := g))"
proof -
  define x' where "x' = x\<lparr>a_members := (a_members x)[i := (a_members x ! i)\<lparr>m_state := ANX_MD_MEMBER_FAULTY\<rparr>]\<rparr>"
  have sh: "same_shape x x'" unfolding x'_def by (cases "i < length (a_members x)") (simp_all add: state_shape same_shape_def nth_list_update)
  have "mirror_at x' C' (f(i := g))"
    using assms(1,4,6) md_states_distinct mdata_shape [OF sh] sh
    unfolding mirror_at_def x'_def by (auto simp: nth_list_update)
  moreover have "demotes x' y"
  proof -
    have "same_shape x' y" using sh assms(2) unfolding same_shape_def demotes_def by simp
    then show ?thesis using assms(2,5) unfolding demotes_def x'_def by (auto, metis nth_list_update_neq)
  qed
  moreover have "data_eq x' C' C''" using assms(3) data_eq_shape [OF sh assms(4)] by simp
  ultimately show ?thesis using assms(4) mirror_demotes [of x' C' "f(i := g)" y C''] by (simp add: x'_def)
qed

context block_devs
begin

lemma raid1_write_loop_step:
  assumes "repr s C" "geom io D a s" "length buf = unat n" "unat lba + unat n \<le> unat (a_member_sectors (arr s a))"
    "distinct is" "set is \<subseteq> {..<mcount s a}" "mirror_at (arr s a) C f"
    "raid1_write_loop io a lba n buf is ok r0 s = (r, t)"
    "r0 \<noteq> ANX_OK" "0 < ok \<Longrightarrow> \<exists>i<mcount s a. i \<notin> set is \<and> raid1_readable s a i"
  shows "(\<exists>C'. repr t C' \<and> mirror_at (arr t a) C' (\<lambda>i. if i \<in> set is then upd_sectors (f i) (unat lba) buf else f i))
    \<and> md_rel io D a s t \<and> demotes (arr s a) (arr t a) \<and> (r = ANX_OK \<longrightarrow> (\<exists>i<mcount t a. raid1_readable t a i))"
  using assms
proof (induction "is" arbitrary: s C f ok r0)
  case Nil
  then show ?case by (auto split: if_splits)
next
  case (Cons i "is")
  note g = Cons.prems(2)
  let ?u = "\<lambda>c. upd_sectors c (unat lba) buf"
  have i: "i < mcount s a" "i \<notin> set is" "distinct is" "set is \<subseteq> {..<mcount s a}" using Cons.prems(5,6) by auto
  have fun_eq: "(\<lambda>j. if j \<in> set is then ?u ((f(i := ?u (f i))) j) else (f(i := ?u (f i))) j)
      = (\<lambda>j. if j \<in> set (i # is) then ?u (f j) else f j)" using i(2) by auto
  have range: "unat lba + unat n < 2 ^ 64"
    using Cons.prems(4) unat_u64_bound [of "a_member_sectors (arr s a)"] two64 by linarith
  show ?case
  proof (cases "m_dev (memb s a i) = None \<or> m_state (memb s a i) = ANX_MD_MEMBER_FAULTY
      \<or> (m_state (memb s a i) = ANX_MD_MEMBER_SPARE \<and> a_resync_offset (arr s a) \<le> lba)")
    case True
    then have loop: "raid1_write_loop io a lba n buf is ok r0 s = (r, t)"
      using Cons.prems(8) by (auto simp: Let_def split: if_splits)
    have "0 < ok \<Longrightarrow> \<exists>i<mcount s a. i \<notin> set is \<and> raid1_readable s a i" using Cons.prems(10) by auto
    from Cons.IH [OF Cons.prems(1,2,3,4) i(3,4) mirror_skip [OF Cons.prems(7) True, of buf] loop Cons.prems(9) this]
    show ?thesis unfolding fun_eq .
  next
    case False
    obtain r1 s1 where wr: "anx_md_member_write io a i lba n buf s = (r1, s1)" by fastforce
    from member_write_step [OF Cons.prems(1,2) range Cons.prems(3) wr] obtain C1 where
      1: "repr s1 C1" "md_rel io D a s s1" "arr s1 a = arr s a"
      and same: "\<And>j k. j < mcount s a \<Longrightarrow> m_dev (memb s a j) \<noteq> None \<Longrightarrow> j \<noteq> i \<or> k < unat lba \<or> unat lba + unat n \<le> k \<Longrightarrow>
         k < unat (a_member_sectors (arr s a)) \<Longrightarrow> mdata (arr s a) C1 j k = mdata (arr s a) C j k"
      and new: "\<And>k. r1 = ANX_OK \<Longrightarrow> unat lba \<le> k \<Longrightarrow> k < unat lba + unat n \<Longrightarrow> mdata (arr s a) C1 i k = buf ! (k - unat lba)"
      by metis
    have g1: "geom io D a s1" using g 1(2) by (rule geom_rel)
    show ?thesis
    proof (cases "r1 = ANX_OK")
      case True
      let ?ok = "if m_state (memb s1 a i) = ANX_MD_MEMBER_ACTIVE then ok + 1 else ok"
      have loop: "raid1_write_loop io a lba n buf is ?ok r0 s1 = (r, t)"
        using Cons.prems(8) False wr True by (auto simp: Let_def)
      have mir: "mirror_at (arr s1 a) C1 (f(i := ?u (f i)))"
        unfolding 1(3) using Cons.prems(3,4) same new [OF True] by (intro mirror_write [OF Cons.prems(7)]) simp_all
      have ok: "\<exists>i<mcount s1 a. i \<notin> set is \<and> raid1_readable s1 a i" if "0 < ?ok"
        using that Cons.prems(10) False i unfolding raid1_readable_def 1(3) by (auto split: if_splits)
      have range1: "unat lba + unat n \<le> unat (a_member_sectors (arr s1 a))" "set is \<subseteq> {..<mcount s1 a}"
        using Cons.prems(4) i(4) 1(3) by simp_all
      from Cons.IH [OF 1(1) g1 Cons.prems(3) range1(1) i(3) range1(2) mir loop Cons.prems(9) ok]
      show ?thesis unfolding fun_eq 1(3) using md_rel_trans [OF 1(2)] by blast
    next
      case bad: False
      define u where "u = anx_md_member_fault io a i s1"
      obtain C2 where 2: "repr u C2" "md_rel io D a s1 u" "data_eq (arr s a) C1 C2" "demotes (arr s a) (arr u a)"
        "m_state (memb u a i) = ANX_MD_MEMBER_FAULTY"
        "\<And>j. j < mcount s a \<Longrightarrow> j \<noteq> i \<Longrightarrow> m_state (memb u a j) = m_state (memb s a j)"
        using fault_step [OF 1(1) g1, of i] i(1) False unfolding 1(3) u_def by metis
      have gu: "geom io D a u" using g1 2(2) by (rule geom_rel)
      have mir: "mirror_at (arr u a) C2 (f(i := ?u (f i)))"
        using mirror_drop [OF Cons.prems(7) 2(4,3) geom_count [OF g] 2(5)] same by simp
      have eq: "a_member_sectors (arr u a) = a_member_sectors (arr s a)" "mcount u a = mcount s a"
        "j < mcount s a \<Longrightarrow> m_dev (memb u a j) = m_dev (memb s a j)" for j
        using 2(4) geom_len [OF g] by (simp_all add: demotes_def same_shape_def)
      have loop: "raid1_write_loop io a lba n buf is ok r1 u = (r, t)"
        using Cons.prems(8) False wr bad by (auto simp: Let_def u_def)
      have ok: "\<exists>i<mcount u a. i \<notin> set is \<and> raid1_readable u a i" if pos: "0 < ok"
      proof -
        obtain j where "j < mcount s a" "j \<noteq> i" "j \<notin> set is" "raid1_readable s a j" using Cons.prems(10) [OF pos] by auto
        then show ?thesis using 2(6) eq by (auto simp: raid1_readable_def)
      qed
      have range1: "unat lba + unat n \<le> unat (a_member_sectors (arr u a))" "set is \<subseteq> {..<mcount u a}"
        using Cons.prems(4) i(4) eq by simp_all
      from Cons.IH [OF 2(1) gu Cons.prems(3) range1(1) i(3) range1(2) mir loop bad ok]
      show ?thesis unfolding fun_eq using md_rel_trans [OF md_rel_trans [OF 1(2) 2(2)]] demotes_trans [OF 2(4)] by blast
    qed
  qed
qed

lemma raid1_holdsI:
  assumes "raid1_holds io D repr a s c" "md_rel io D a s t" "demotes (arr s a) (arr t a)" "repr t C" "mirror_at (arr t a) C (\<lambda>_. c')"
  shows "raid1_holds io D repr a t c'"
  using assms geom_rel [of io D a s t] unfolding raid1_holds_def by (auto simp: demotes_def same_shape_def)

lemma raid1_read_holds:
  assumes "raid1_holds io D repr a s c" "unat lba + unat n < 2 ^ 64" "md_read io a lba n s = ((r, data), t)"
  shows "raid1_holds io D repr a t c \<and> (r = ANX_OK \<longrightarrow> data = map c [unat lba..<unat lba + unat n])"
proof (cases "lba + ucast n > a_array_sectors (arr s a)")
  case True
  then have "t = s" "r \<noteq> ANX_OK" using assms(1,3) by (auto simp: md_read_def raid1_holds_def geom_def)
  then show ?thesis using assms(1) by simp
next
  case False
  have g: "geom io D a s" and lev: "a_level (arr s a) \<noteq> ANX_MD_LEVEL_RAID0"
    using assms(1) by (simp_all add: raid1_holds_def md_consts)
  obtain C where C: "repr s C" "mirror_at (arr s a) C (\<lambda>_. c)" using assms(1) by (auto simp: raid1_holds_def)
  have le: "unat lba + unat n \<le> unat (a_member_sectors (arr s a))"
    using add_range [OF assms(2) False] assms(1) by (simp add: raid1_holds_def)
  have "a_member_count (arr s a) \<noteq> 0" using geom_len(3) [OF g] by auto
  then have "raid1_read_loop io a lba n [0..<mcount s a] ANX_ENODEV s = ((r, data), t)"
    using assms(3) False lev geom_len(5) [OF g] by (simp add: md_read_def anx_md_raid1_read_def)
  from raid1_read_loop_step [OF C(1) g assms(2) C(2) this _ le]
  show ?thesis using raid1_holdsI [OF assms(1)] by auto
qed

lemma raid1_write_holds:
  assumes "raid1_holds io D repr a s c" "unat lba + unat n < 2 ^ 64" "length buf = unat n" "md_write io a lba n buf s = (r, t)"
  shows "raid1_holds io D repr a t (if unat lba + unat n \<le> unat (a_array_sectors (arr s a))
      then upd_sectors c (unat lba) buf else c) \<and> (r = ANX_OK \<longrightarrow> unat lba + unat n \<le> unat (a_array_sectors (arr s a))
       \<and> (\<exists>i<mcount t a. raid1_readable t a i))"
proof (cases "lba + ucast n > a_array_sectors (arr s a)")
  case True
  then have "t = s" "r \<noteq> ANX_OK" using assms(1,4) by (auto simp: md_write_def raid1_holds_def geom_def)
  then show ?thesis using True in_range_add assms(1) by fastforce
next
  case False
  have g: "geom io D a s" and lev: "a_level (arr s a) \<noteq> ANX_MD_LEVEL_RAID0"
    using assms(1) by (simp_all add: raid1_holds_def md_consts)
  obtain C where C: "repr s C" "mirror_at (arr s a) C (\<lambda>_. c)" using assms(1) by (auto simp: raid1_holds_def)
  have le: "unat lba + unat n \<le> unat (a_array_sectors (arr s a))" using add_range [OF assms(2) False] .
  then have le': "unat lba + unat n \<le> unat (a_member_sectors (arr s a))"
    using assms(1) by (simp add: raid1_holds_def)
  have "raid1_write_loop io a lba n buf [0..<mcount s a] 0 ANX_ENODEV s = (r, t)"
    using assms(4) False lev geom_len(5) [OF g] by (simp add: md_write_def anx_md_raid1_write_def)
  from raid1_write_loop_step [OF C(1) g assms(3) le' _ _ C(2) this]
  obtain C' where 1: "repr t C'" "md_rel io D a s t" "demotes (arr s a) (arr t a)"
    "mirror_at (arr t a) C' (\<lambda>i. if i \<in> set [0..<mcount s a] then upd_sectors c (unat lba) buf else c)"
    "r = ANX_OK \<longrightarrow> (\<exists>i<mcount t a. raid1_readable t a i)" by (auto simp: atLeast_upt)
  have "mirror_at (arr t a) C' (\<lambda>_. upd_sectors c (unat lba) buf)"
    using 1(3) by (intro mirror_cong [OF 1(4)]) (simp add: demotes_def same_shape_def)
  then show ?thesis using raid1_holdsI [OF assms(1) 1(2,3,1)] 1(5) le by simp
qed

end

subsection \<open>Rebuilding\<close>

definition is_spare :: "'d storage \<Rightarrow> nat \<Rightarrow> nat \<Rightarrow> bool" where
  "is_spare s a i \<longleftrightarrow> i < mcount s a \<and> m_dev (memb s a i) \<noteq> None \<and> m_state (memb s a i) = ANX_MD_MEMBER_SPARE"

text \<open>Member \<open>p\<close> is the only spare.\<close>

definition sole_spare :: "'d storage \<Rightarrow> nat \<Rightarrow> nat \<Rightarrow> bool" where
  "sole_spare s a p \<longleftrightarrow> is_spare s a p \<and> (\<forall>i<mcount s a. is_spare s a i \<longrightarrow> i = p)"

lemma raid1_spare_sole: "sole_spare s a p \<Longrightarrow> raid1_spare s a = p"
proof -
  assume p: "sole_spare s a p"
  let ?P = "\<lambda>i. m_dev (memb s a i) \<noteq> None \<and> m_state (memb s a i) = ANX_MD_MEMBER_SPARE"
  have "find ?P [0..<mcount s a] \<noteq> None"
    using p by (auto simp: find_None_iff sole_spare_def is_spare_def)
  then obtain i where i: "find ?P [0..<mcount s a] = Some i" by auto
  then have "is_spare s a i" by (auto simp: find_Some_iff is_spare_def)
  then have "i = p" using p by (simp add: sole_spare_def is_spare_def)
  then show ?thesis using i by (simp add: raid1_spare_def)
qed

lemma raid1_spare_none:
  assumes "mcount s a \<le> ANX_MD_MAX_MEMBERS"
  shows "raid1_spare s a = ANX_MD_MAX_MEMBERS \<longleftrightarrow> (\<forall>i. \<not> is_spare s a i)"
proof (cases "find (\<lambda>i. m_dev (memb s a i) \<noteq> None \<and> m_state (memb s a i) = ANX_MD_MEMBER_SPARE) [0..<mcount s a]")
  case None
  then have "raid1_spare s a = ANX_MD_MAX_MEMBERS" by (simp add: raid1_spare_def)
  moreover have "\<forall>i. \<not> is_spare s a i" using None by (auto simp: is_spare_def find_None_iff)
  ultimately show ?thesis by simp
next
  case (Some i)
  then have "is_spare s a i" "i < mcount s a" by (auto simp: find_Some_iff is_spare_def)
  then show ?thesis using assms Some by (auto simp: raid1_spare_def)
qed

lemma mirror_advance:
  assumes mir: "mirror_at x C (\<lambda>_. c)" and "unat off' \<le> unat (a_resync_offset x) + n"
    and sole: "\<And>j. j < unat (a_member_count x) \<Longrightarrow> m_dev (a_members x ! j) \<noteq> None \<Longrightarrow>
      m_state (a_members x ! j) = ANX_MD_MEMBER_SPARE \<Longrightarrow> j = p"
    and same: "\<And>j k. j < unat (a_member_count x) \<Longrightarrow> m_dev (a_members x ! j) \<noteq> None \<Longrightarrow>
      j \<noteq> p \<or> k < unat (a_resync_offset x) \<or> unat (a_resync_offset x) + n \<le> k \<Longrightarrow>
      k < unat (a_member_sectors x) \<Longrightarrow> mdata x C' j k = mdata x C j k"
    and new: "\<And>k. unat (a_resync_offset x) \<le> k \<Longrightarrow> k < unat (a_resync_offset x) + n \<Longrightarrow> mdata x C' p k = c k"
    and p: "m_state (a_members x ! p) = ANX_MD_MEMBER_SPARE"
  shows "mirror_at (x\<lparr>a_resync_offset := off'\<rparr>) C' (\<lambda>_. c)"
  unfolding mirror_at_def
proof (intro allI impI)
  fix i
  let ?x = "x\<lparr>a_resync_offset := off'\<rparr>"
  assume "i < unat (a_member_count ?x)" "m_dev (a_members ?x ! i) \<noteq> None"
  then have i: "i < unat (a_member_count x)" "m_dev (a_members x ! i) \<noteq> None" by simp_all
  have md: "mdata ?x C' i k = mdata x C' i k" for k by (simp add: mdata_def)
  have act: "mdata x C' i k = c k" if "m_state (a_members x ! i) = ANX_MD_MEMBER_ACTIVE" "k < unat (a_member_sectors x)" for k
  proof -
    have "i \<noteq> p" using that(1) p md_states_distinct by auto
    then show ?thesis using same [OF i] mir i that unfolding mirror_at_def by simp
  qed
  have spare: "mdata x C' i k = c k"
    if "m_state (a_members x ! i) = ANX_MD_MEMBER_SPARE" "k < unat (a_member_sectors x)" "k < unat off'" for k
  proof (cases "k < unat (a_resync_offset x)")
    case True
    then show ?thesis using same [OF i _ that(2)] mir i that unfolding mirror_at_def by simp
  next
    case False
    then show ?thesis using sole [OF i that(1)] new [of k] that(3) assms(2) by simp
  qed
  show "(m_state (a_members ?x ! i) = ANX_MD_MEMBER_ACTIVE \<longrightarrow> (\<forall>k<unat (a_member_sectors ?x). mdata ?x C' i k = c k)) \<and>
    (m_state (a_members ?x ! i) = ANX_MD_MEMBER_SPARE \<longrightarrow>
      (\<forall>k<unat (a_member_sectors ?x). k < unat (a_resync_offset ?x) \<longrightarrow> mdata ?x C' i k = c k))"
    using act spare by (simp add: md)
qed

lemma mirror_promote:
  assumes "mirror_at x C (\<lambda>_. c)" "a_resync_offset x \<ge> a_member_sectors x" "m_state (a_members x ! p) = ANX_MD_MEMBER_SPARE"
    "p < length (a_members x)"
  shows "mirror_at (x\<lparr>a_members := (a_members x)[p := (a_members x ! p)\<lparr>m_state := ANX_MD_MEMBER_ACTIVE\<rparr>]\<rparr>) C (\<lambda>_. c)"
    (is "mirror_at ?y _ _")
proof -
  have "mdata ?y C i k = mdata x C i k" if "i < length (a_members x)" for i k
    by (rule mdata_shape [OF state_shape [OF assms(4)] that])
  moreover have "k < unat (a_resync_offset x)" if "k < unat (a_member_sectors x)" for k
    using that assms(2) by (simp add: word_le_nat_alt)
  ultimately show ?thesis
    using assms(1,3,4) unfolding mirror_at_def
    by (auto simp: nth_list_update md_states_distinct mdata_def)
qed

text \<open>The length of one rebuild step.\<close>

lemma resync_run:
  fixes off ms :: u64 and max :: u32
  assumes "off < ms"
  defines "run0 \<equiv> (if max \<noteq> 0 \<and> RAID1_RESYNC_CHUNK > max then max else RAID1_RESYNC_CHUNK)"
  defines "run \<equiv> (if ucast run0 > ms - off then ucast (ms - off) else run0)"
  shows "0 < unat run" "unat off + unat run \<le> unat ms" "uint run = int (unat run)"
proof -
  have r0: "0 < unat run0"
    by (auto simp: run0_def RAID1_RESYNC_CHUNK_def unat_gt_0)
  have left: "unat (ms - off) = unat ms - unat off"
    using assms(1) by (intro unat_sub_u64) simp
  moreover have "unat off < unat ms" using assms(1) by (simp add: word_less_nat_alt)
  ultimately have "0 < unat (ms - off)" by simp
  note left = left this
  have c: "unat (ucast run0 :: u64) = unat run0"
    by (simp add: unsigned_ucast_eq take_bit_nat_eq_self less_trans [OF unat_u32_bound])
  have "unat run = min (unat run0) (unat (ms - off))"
  proof (cases "ucast run0 > ms - off")
    case True
    then have "unat (ms - off) < unat run0" by (simp add: word_less_nat_alt c)
    moreover from this have "unat (ms - off) < 4294967296" using unat_u32_bound [of run0] by linarith
    ultimately show ?thesis using True by (simp add: run_def unsigned_ucast_eq take_bit_nat_eq_self)
  next
    case False
    then show ?thesis by (simp add: run_def word_less_nat_alt c)
  qed
  then show "0 < unat run" "unat off + unat run \<le> unat ms" using r0 left assms(1) by (auto simp: word_less_nat_alt)
  show "uint run = int (unat run)" by simp
qed

text \<open>A step on a spare that is not complete, by its two requests.\<close>

definition resync_advance :: "'d storage blk_io \<Rightarrow> nat \<Rightarrow> nat \<Rightarrow> u32 \<Rightarrow> 'd storage \<Rightarrow> 'd storage" where
  "resync_advance io a p run s =
     (let x = (arr s a)\<lparr>a_resync_offset := a_resync_offset (arr s a) + ucast run\<rparr>; s3 = set_arr a x s in
      if a_resync_offset x \<ge> a_member_sectors x then
        snd (anx_md_super_sync io a (set_memb a p ((memb s3 a p)\<lparr>m_state := ANX_MD_MEMBER_ACTIVE\<rparr>) s3))
      else s3)"

lemma resync_step_eq:
  fixes s :: "'d storage" and mx :: u32
  assumes "a_used (arr s a)" "a_level (arr s a) = ANX_MD_LEVEL_RAID1" "raid1_spare s a = p" "p \<noteq> ANX_MD_MAX_MEMBERS"
    "a_resync_offset (arr s a) < a_member_sectors (arr s a)"
  defines "off \<equiv> a_resync_offset (arr s a)" and "ms \<equiv> a_member_sectors (arr s a)"
    and "run0 \<equiv> (if mx \<noteq> 0 \<and> RAID1_RESYNC_CHUNK > mx then mx else RAID1_RESYNC_CHUNK)"
  defines "run \<equiv> (if ucast run0 > ms - off then ucast (ms - off) else run0)"
  assumes "anx_md_raid1_read io a off run s = ((r1, buf), s1)" "a_resync_offset (arr s1 a) = off"
    "anx_md_member_write io a p off run buf s1 = (r2, s2)"
  shows "anx_md_resync_step io a mx s = (if r1 \<noteq> ANX_OK then (r1, s1)
     else if r2 \<noteq> ANX_OK then (r2, anx_md_member_fault io a p s2)
     else (uint run, resync_advance io a p run s2))"
proof -
  have "\<not> ms \<le> off" using assms(5) by (simp add: off_def ms_def)
  then show ?thesis
    using assms(1-4,10,11,12)
    unfolding anx_md_resync_step_def Let_def off_def [symmetric] ms_def [symmetric] run0_def [symmetric]
      run_def [symmetric] resync_advance_def
    by simp
qed

lemma sole_spare_eq:
  assumes "sole_spare s a p" "demotes (arr s a) (arr t a)" "geom io D a s" "m_state (memb t a p) = ANX_MD_MEMBER_SPARE"
  shows "sole_spare t a p"
proof -
  have sh: "mcount t a = mcount s a" "i < mcount s a \<Longrightarrow> m_dev (memb t a i) = m_dev (memb s a i)"
    "i < mcount s a \<Longrightarrow> m_state (memb t a i) = m_state (memb s a i) \<or> m_state (memb t a i) = ANX_MD_MEMBER_FAULTY" for i
    using assms(2) geom_len [OF assms(3)] by (auto simp: demotes_def same_shape_def)
  then have "is_spare t a i \<Longrightarrow> is_spare s a i" for i using md_states_distinct unfolding is_spare_def by metis
  moreover have "is_spare t a p" using assms(1,4) sh by (auto simp: sole_spare_def is_spare_def)
  ultimately show ?thesis using assms(1) by (simp add: sole_spare_def is_spare_def)
qed

context block_devs
begin

text \<open>The metadata part of a step: the data of the run is on the spare already.\<close>

lemma resync_advance_holds:
  assumes r: "repr s C" and g: "geom io D a s" and sole: "sole_spare s a p"
    and run: "unat (a_resync_offset (arr s a)) + unat run \<le> unat (a_member_sectors (arr s a))"
    and mir: "mirror_at ((arr s a)\<lparr>a_resync_offset := a_resync_offset (arr s a) + ucast run\<rparr>) C (\<lambda>_. c)"
  defines "t \<equiv> resync_advance io a p run s"
  shows "(\<exists>C'. repr t C' \<and> mirror_at (arr t a) C' (\<lambda>_. c)) \<and> md_rel io D a s t
    \<and> unat (a_resync_offset (arr t a)) = unat (a_resync_offset (arr s a)) + unat run
    \<and> (if a_resync_offset (arr t a) < a_member_sectors (arr t a) then sole_spare t a p
       else m_state (memb t a p) = ANX_MD_MEMBER_ACTIVE \<and> m_dev (memb t a p) \<noteq> None \<and> (\<forall>i. \<not> is_spare t a i))"
proof -
  define off where "off = a_resync_offset (arr s a) + ucast run"
  define x where "x = (arr s a)\<lparr>a_resync_offset := off\<rparr>"
  define s3 where "s3 = set_arr a x s"
  note len = geom_len [OF g]
  have c64: "unat (ucast run :: u64) = unat run"
    by (simp add: unsigned_ucast_eq take_bit_nat_eq_self less_trans [OF unat_u32_bound])
  have off: "unat off = unat (a_resync_offset (arr s a)) + unat run"
    using run unat_u64_bound [of "a_member_sectors (arr s a)"] two64 unfolding off_def c64 [symmetric]
    by (intro unat_add_u64) linarith
  have p: "p < mcount s a" "m_dev (memb s a p) \<noteq> None" "m_state (memb s a p) = ANX_MD_MEMBER_SPARE" "p < length (a_members (arr s a))"
    using sole len by (simp_all add: sole_spare_def is_spare_def)
  have s3: "arr s3 a = x" "length (md_arrays s3) = length (md_arrays s)" using len(1) by (simp_all add: s3_def)
  have rel: "md_rel io D a s s3" using len unfolding s3_def by (intro rel_set_arr [OF r]) (simp_all add: same_shape_def x_def)
  have g3: "geom io D a s3" using g rel by (rule geom_rel)
  have r3: "repr s3 C" unfolding s3_def by (rule repr_set_arr [OF r])
  have mir: "mirror_at x C (\<lambda>_. c)" using mir by (simp add: x_def off_def)
  show ?thesis
  proof (cases "off \<ge> a_member_sectors (arr s a)")
    case False
    then have t: "t = s3" by (simp add: t_def resync_advance_def Let_def off_def s3_def x_def)
    have "sole_spare s3 a p" using sole by (simp add: sole_spare_def is_spare_def s3 x_def)
    moreover have "a_resync_offset (arr s3 a) = off" "a_member_sectors (arr s3 a) = a_member_sectors (arr s a)"
      by (simp_all add: s3 x_def)
    ultimately show ?thesis unfolding t using r3 mir rel off False s3(1) by auto
  next
    case True
    define y where "y = x\<lparr>a_members := (a_members x)[p := (a_members x ! p)\<lparr>m_state := ANX_MD_MEMBER_ACTIVE\<rparr>]\<rparr>"
    define s4 where "s4 = set_memb a p ((memb s3 a p)\<lparr>m_state := ANX_MD_MEMBER_ACTIVE\<rparr>) s3"
    have s4: "arr s4 a = y" using len(1) s3 by (simp add: s4_def y_def)
    have mir4: "mirror_at y C (\<lambda>_. c)" unfolding y_def using True p by (intro mirror_promote [OF mir]) (simp_all add: x_def)
    have rel4: "md_rel io D a s3 s4" using len(1) p s3 state_shape [of p x] unfolding s4_def set_memb_def
      by (intro rel_set_arr [OF r3]) (simp_all add: x_def)
    have g4: "geom io D a s4" using g3 rel4 by (rule geom_rel)
    have r4: "repr s4 C" unfolding s4_def by (rule repr_set_memb [OF r3])
    obtain r5 s5 where sync: "anx_md_super_sync io a s4 = (r5, s5)" by fastforce
    then have t: "t = s5" using True by (simp add: t_def resync_advance_def Let_def off_def s3_def s4_def x_def)
    from super_sync_step [OF r4 g4 sync]
    obtain C5 where 5: "repr s5 C5" "core (arr s5 a) = core y" "md_rel io D a s4 s5" "data_eq y C C5" unfolding s4 .
    have mir5: "mirror_at (arr s5 a) C5 (\<lambda>_. c)"
      using mirror_demotes [OF mir4 demotes_core [OF 5(2)] 5(4)] geom_count [OF g4] by (simp add: s4)
    have rel5: "md_rel io D a s s5" using md_rel_trans [OF md_rel_trans [OF rel rel4] 5(3)] .
    have c5: "a_member_count (arr s5 a) = a_member_count (arr s a)" "a_resync_offset (arr s5 a) = off"
      "a_member_sectors (arr s5 a) = a_member_sectors (arr s a)"
      using core_eqD [OF 5(2)] by (simp_all add: y_def x_def)
    have st5: "m_state (memb s5 a i) = (if i = p then ANX_MD_MEMBER_ACTIVE else m_state (memb s a i))"
      "m_dev (memb s5 a i) = m_dev (memb s a i)" if "i < mcount s a" for i
      using core_memb [OF 5(2) [symmetric], of i] that len p(4) by (auto simp: y_def x_def nth_list_update split: if_splits)
    have "\<not> is_spare s5 a i" for i
      using sole st5 md_states_distinct unfolding sole_spare_def is_spare_def c5(1) by (metis (full_types))
    then show ?thesis unfolding t using 5(1) mir5 rel5 c5 off True st5 [OF p(1)] p by auto
  qed
qed

lemma resync_step_holds:
  assumes h: "raid1_holds io D repr a s c" and sole: "sole_spare s a p"
    and lt: "a_resync_offset (arr s a) < a_member_sectors (arr s a)" and step: "anx_md_resync_step io a mx s = (ret, t)"
  shows "raid1_holds io D repr a t c \<and> ret \<noteq> 0 \<and> md_rel io D a s t \<and>
    (ret > 0 \<longrightarrow> unat (a_resync_offset (arr t a)) = unat (a_resync_offset (arr s a)) + nat ret
      \<and> (if a_resync_offset (arr t a) < a_member_sectors (arr t a) then sole_spare t a p
         else m_state (memb t a p) = ANX_MD_MEMBER_ACTIVE \<and> m_dev (memb t a p) \<noteq> None \<and> (\<forall>i. \<not> is_spare t a i)))"
proof -
  have g: "geom io D a s" and lev: "a_level (arr s a) = ANX_MD_LEVEL_RAID1"
    and as: "a_array_sectors (arr s a) = a_member_sectors (arr s a)" using h by (simp_all add: raid1_holds_def)
  obtain C where C: "repr s C" "mirror_at (arr s a) C (\<lambda>_. c)" using h by (auto simp: raid1_holds_def)
  have p: "p < mcount s a" "m_dev (memb s a p) \<noteq> None" "m_state (memb s a p) = ANX_MD_MEMBER_SPARE" "p \<noteq> ANX_MD_MAX_MEMBERS"
    using sole geom_len(4) [OF g] by (simp_all add: sole_spare_def is_spare_def)
  define off where "off = a_resync_offset (arr s a)"
  define ms where "ms = a_member_sectors (arr s a)"
  define run0 where "run0 = (if mx \<noteq> 0 \<and> RAID1_RESYNC_CHUNK > mx then mx else RAID1_RESYNC_CHUNK)"
  define run where "run = (if ucast run0 > ms - off then ucast (ms - off) else run0)"
  have lt': "off < ms" using lt by (simp add: off_def ms_def)
  note runs = resync_run [OF lt', of mx, folded run0_def, folded run_def]
  have r64: "unat off + unat run < 2 ^ 64" using runs(2) unat_u64_bound [of ms] two64 by linarith
  obtain r1 buf s1 where rd: "anx_md_raid1_read io a off run s = ((r1, buf), s1)" by (metis prod.collapse)
  have loop: "raid1_read_loop io a off run [0..<mcount s a] ANX_ENODEV s = ((r1, buf), s1)"
    using rd geom_len(7) [OF g] by (simp add: anx_md_raid1_read_def)
  from raid1_read_loop_step [OF C(1) g r64 C(2) loop _ runs(2) [unfolded ms_def]]
  obtain C1 where 1: "repr s1 C1" "mirror_at (arr s1 a) C1 (\<lambda>_. c)" "md_rel io D a s s1" "demotes (arr s a) (arr s1 a)"
    "r1 = ANX_OK \<longrightarrow> buf = map c [unat off..<unat off + unat run]" "r1 \<le> ANX_OK"
    and st: "m_state (memb s1 a p) = ANX_MD_MEMBER_SPARE"
    using p md_states_distinct by fastforce
  have sole1: "sole_spare s1 a p" using sole_spare_eq [OF sole 1(4) g st] .
  have sh: "a_resync_offset (arr s1 a) = off" "a_member_sectors (arr s1 a) = ms" "mcount s1 a = mcount s a"
    "m_dev (memb s1 a p) \<noteq> None"
    using 1(4) geom_len [OF g] p by (simp_all add: demotes_def same_shape_def off_def ms_def)
  obtain r2 s2 where wr: "anx_md_member_write io a p off run buf s1 = (r2, s2)" by fastforce
  note eq = resync_step_eq [where mx = mx, OF geom_len(5) [OF g] lev raid1_spare_sole [OF sole] p(4), folded off_def ms_def,
      OF lt', folded run0_def, folded run_def, OF rd sh(1) wr, unfolded step]
  show ?thesis
  proof (cases "r1 = ANX_OK")
    case False
    then show ?thesis using eq raid1_holdsI [OF h 1(3,4,1,2)] 1(3,6) by auto
  next
    case True
    have g1: "geom io D a s1" using g 1(3) by (rule geom_rel)
    have buf: "buf = map c [unat off..<unat off + unat run]" "length buf = unat run" using True 1(5) by simp_all
    from member_write_step [OF 1(1) g1 r64 buf(2) wr] obtain C2 where
      2: "repr s2 C2" "md_rel io D a s1 s2" "arr s2 a = arr s1 a" "r2 \<le> ANX_OK"
      and same: "\<And>j k. j < mcount s1 a \<Longrightarrow> m_dev (memb s1 a j) \<noteq> None \<Longrightarrow> j \<noteq> p \<or> k < unat off \<or> unat off + unat run \<le> k \<Longrightarrow>
         k < unat (a_member_sectors (arr s1 a)) \<Longrightarrow> mdata (arr s1 a) C2 j k = mdata (arr s1 a) C1 j k"
      and new: "\<And>k. r2 = ANX_OK \<Longrightarrow> unat off \<le> k \<Longrightarrow> k < unat off + unat run \<Longrightarrow> mdata (arr s1 a) C2 p k = buf ! (k - unat off)"
      by metis
    have rel2: "md_rel io D a s s2" using md_rel_trans [OF 1(3) 2(2)] .
    have g2: "geom io D a s2" using g rel2 by (rule geom_rel)
    show ?thesis
    proof (cases "r2 = ANX_OK")
      case False
      define u where "u = anx_md_member_fault io a p s2"
      obtain C3 where 3: "repr u C3" "md_rel io D a s2 u" "data_eq (arr s1 a) C2 C3" "demotes (arr s1 a) (arr u a)"
        "m_state (memb u a p) = ANX_MD_MEMBER_FAULTY"
        using fault_step [OF 2(1) g2, of p] p sh unfolding 2(3) u_def by metis
      have "mirror_at (arr u a) C3 ((\<lambda>_. c)(p := c))"
        using mirror_drop [OF 1(2) 3(4,3) geom_count [OF g1] 3(5)] same by simp
      moreover have "(\<lambda>_. c)(p := c) = (\<lambda>_. c)" by auto
      ultimately have "mirror_at (arr u a) C3 (\<lambda>_. c)" by simp
      then have "raid1_holds io D repr a u c"
        using raid1_holdsI [OF h md_rel_trans [OF rel2 3(2)] demotes_trans [OF 1(4) 3(4)] 3(1)] by simp
      moreover have "ret = r2" "t = u" using eq True False by (simp_all add: u_def)
      ultimately show ?thesis using 2(4) False md_rel_trans [OF rel2 3(2)] by simp
    next
      case ok: True
      have off': "unat (off + ucast run) \<le> unat off + unat run"
        using r64 by (simp add: unat_word_ariths unsigned_ucast_eq take_bit_nat_eq_self less_trans [OF unat_u32_bound])
      have mir: "mirror_at ((arr s1 a)\<lparr>a_resync_offset := off + ucast run\<rparr>) C2 (\<lambda>_. c)"
      proof (rule mirror_advance [OF 1(2), of _ "unat run" p])
        show "mdata (arr s1 a) C2 p k = c k" if "unat (a_resync_offset (arr s1 a)) \<le> k"
          "k < unat (a_resync_offset (arr s1 a)) + unat run" for k
          using new [OF ok, of k] that buf(1) by (simp add: sh(1))
        show "unat (off + ucast run) \<le> unat (a_resync_offset (arr s1 a)) + unat run" using off' sh(1) by simp
        show "j = p" if "j < mcount s1 a" "m_dev (memb s1 a j) \<noteq> None" "m_state (memb s1 a j) = ANX_MD_MEMBER_SPARE" for j
          using sole1 that unfolding sole_spare_def is_spare_def by blast
      qed (use same sh(1) st in simp_all)
      have sole2: "sole_spare s2 a p" using sole1 by (simp add: sole_spare_def is_spare_def 2(3))
      have t: "ret = uint run" "t = resync_advance io a p run s2" using eq True ok by simp_all
      have "ret = int (unat run)" using t(1) runs(3) by metis
      then have pos: "ret > 0" "nat ret = unat run" using runs(1) by (linarith, metis nat_int)
      from resync_advance_holds [OF 2(1) g2 sole2, of run c] mir runs(2)
      have 4: "\<exists>C'. repr t C' \<and> mirror_at (arr t a) C' (\<lambda>_. c)" "md_rel io D a s2 t"
        "unat (a_resync_offset (arr t a)) = unat off + unat run"
        "if a_resync_offset (arr t a) < a_member_sectors (arr t a) then sole_spare t a p
         else m_state (memb t a p) = ANX_MD_MEMBER_ACTIVE \<and> m_dev (memb t a p) \<noteq> None \<and> (\<forall>i. \<not> is_spare t a i)"
        by (simp_all add: 2(3) sh(1,2) t(2))
      have rel: "md_rel io D a s t" using md_rel_trans [OF rel2 4(2)] .
      then have "raid1_holds io D repr a t c"
        using geom_rel [OF g rel] lev as 4(1) unfolding raid1_holds_def by (auto simp: md_rel_def same_shape_def)
      then show ?thesis using 4(3,4) rel pos by (simp add: off_def)
    qed
  qed
qed

end

context block_devs
begin

text \<open>The rebuild ends: every pass moves the offset forward, so more passes than there are
  sectors left are enough; it returns success only with the spare in sync.\<close>

lemma resync_loop_holds:
  assumes "raid1_holds io D repr a s c" "sole_spare s a p"
    "a_resync_offset (arr s a) < a_member_sectors (arr s a)"
    "unat (a_member_sectors (arr s a)) - unat (a_resync_offset (arr s a)) < fuel"
  shows "\<exists>r t. resync_loop io a fuel s = Some (r, t) \<and> raid1_holds io D repr a t c \<and> r \<le> ANX_OK
    \<and> (r = ANX_OK \<longrightarrow> m_state (memb t a p) = ANX_MD_MEMBER_ACTIVE \<and> m_dev (memb t a p) \<noteq> None \<and> (\<forall>i. \<not> is_spare t a i))"
  using assms
proof (induction fuel arbitrary: s)
  case 0
  then show ?case by simp
next
  case (Suc fuel)
  have g: "geom io D a s" using Suc.prems(1) by (simp add: raid1_holds_def)
  have ne: "raid1_spare s a \<noteq> ANX_MD_MAX_MEMBERS"
    using raid1_spare_none [OF geom_len(4) [OF g]] Suc.prems(2) by (auto simp: sole_spare_def)
  obtain ret t where step: "anx_md_resync_step io a 0 s = (ret, t)" by fastforce
  note st = resync_step_holds [OF Suc.prems(1-3) step]
  show ?case
  proof (cases "ret < 0")
    case True
    then show ?thesis using ne step st by simp
  next
    case False
    then have pos: "ret > 0" using st by simp
    then have loop: "resync_loop io a (Suc fuel) s = resync_loop io a fuel t" using ne step by simp
    have ms: "a_member_sectors (arr t a) = a_member_sectors (arr s a)" using st by (simp add: md_rel_def same_shape_def)
    have off: "unat (a_resync_offset (arr t a)) = unat (a_resync_offset (arr s a)) + nat ret" using st pos by simp
    have lt: "unat (a_resync_offset (arr s a)) < unat (a_member_sectors (arr s a))"
      using Suc.prems(3) by (simp add: word_less_nat_alt)
    show ?thesis
    proof (cases "a_resync_offset (arr t a) < a_member_sectors (arr t a)")
      case True
      have "unat (a_member_sectors (arr t a)) - unat (a_resync_offset (arr t a)) < fuel"
        using Suc.prems(4) off pos lt unfolding ms by linarith
      then show ?thesis using Suc.IH [of t] True st pos unfolding loop by simp
    next
      case False
      have gt: "geom io D a t" using st by (simp add: raid1_holds_def)
      have "\<forall>i. \<not> is_spare t a i" using st pos False by simp
      then have "raid1_spare t a = ANX_MD_MAX_MEMBERS" using raid1_spare_none [OF geom_len(4) [OF gt]] by simp
      moreover have "0 < fuel" using Suc.prems(4) lt by linarith
      ultimately have "resync_loop io a fuel t = Some (ANX_OK, t)" by (cases fuel) simp_all
      then show ?thesis unfolding loop using st pos False by simp
    qed
  qed
qed

lemma resync_holds:
  assumes "raid1_holds io D repr a s c" "sole_spare s a p" "a_resync_offset (arr s a) < a_member_sectors (arr s a)"
    "unat (a_member_sectors (arr s a)) < fuel"
  shows "\<exists>r t. anx_md_resync io a fuel s = Some (r, t) \<and> raid1_holds io D repr a t c \<and> r \<le> ANX_OK
    \<and> (r = ANX_OK \<longrightarrow> m_state (memb t a p) = ANX_MD_MEMBER_ACTIVE \<and> m_dev (memb t a p) \<noteq> None \<and> (\<forall>i. \<not> is_spare t a i))"
proof -
  have g: "geom io D a s" "a_level (arr s a) = ANX_MD_LEVEL_RAID1" using assms(1) by (simp_all add: raid1_holds_def)
  have "raid1_spare s a \<noteq> ANX_MD_MAX_MEMBERS"
    using raid1_spare_none [OF geom_len(4) [OF g(1)]] assms(2) by (auto simp: sole_spare_def)
  then have "anx_md_resync io a fuel s = resync_loop io a fuel s"
    using g geom_len(5) [OF g(1)] by (simp add: anx_md_resync_def)
  then show ?thesis using resync_loop_holds [OF assms(1-3), of fuel] assms(4) by simp
qed

end

subsection \<open>Striping\<close>

text \<open>Where sector \<open>k\<close> of a striped array lies: the member, and the sector in its data area.\<close>

definition stripe_idx :: "nat \<Rightarrow> nat \<Rightarrow> nat \<Rightarrow> nat" where
  "stripe_idx ch n k = k div ch mod n"

definition stripe_lba :: "nat \<Rightarrow> nat \<Rightarrow> nat \<Rightarrow> nat" where
  "stripe_lba ch n k = k div ch div n * ch + k mod ch"

lemma stripe_inverse:
  assumes "0 < ch"
  shows "(stripe_lba ch n k div ch * n + stripe_idx ch n k) * ch + stripe_lba ch n k mod ch = k"
proof -
  have "stripe_lba ch n k div ch = k div ch div n" "stripe_lba ch n k mod ch = k mod ch"
    using assms by (simp_all add: stripe_lba_def)
  then show ?thesis by (simp add: stripe_idx_def)
qed

lemma stripe_inj:
  assumes "0 < ch" "stripe_idx ch n j = stripe_idx ch n k" "stripe_lba ch n j = stripe_lba ch n k"
  shows "j = k"
  by (rule trans [OF stripe_inverse [OF assms(1), of n j, symmetric, unfolded assms(2,3)] stripe_inverse [OF assms(1)]])

lemma stripe_bound:
  assumes "0 < ch" "0 < n" "ch dvd ms" "k < ms * n"
  shows "stripe_idx ch n k < n" "stripe_lba ch n k < ms"
proof -
  show "stripe_idx ch n k < n" using assms(2) by (simp add: stripe_idx_def)
  obtain q where q: "ms = ch * q" using assms(3) by (auto simp: dvd_def)
  have "k < ch * (n * q)" using assms(4) q by (simp add: ac_simps)
  then have "k div ch < n * q" using assms(1) by (simp add: less_mult_imp_div_less mult.commute)
  then have "k div ch div n < q" using assms(2) by (simp add: less_mult_imp_div_less mult.commute)
  then have "(k div ch div n + 1) * ch \<le> q * ch" by (intro mult_le_mono1) simp
  moreover have "k mod ch < ch" using assms(1) by simp
  ultimately show "stripe_lba ch n k < ms" by (simp add: stripe_lba_def q mult.commute)
qed

lemma stripe_run:
  assumes "0 < ch" "k mod ch + j < ch"
  shows "stripe_idx ch n (k + j) = stripe_idx ch n k" "stripe_lba ch n (k + j) = stripe_lba ch n k + j"
proof -
  have m: "(k + j) mod ch = k mod ch + j" by (metis assms(2) mod_add_left_eq mod_less)
  have "(k + j) div ch * ch + (k mod ch + j) = k div ch * ch + (k mod ch + j)"
    using div_mult_mod_eq [of "k + j" ch] div_mult_mod_eq [of k ch] m by linarith
  then have "(k + j) div ch * ch = k div ch * ch" by (rule add_right_imp_eq)
  then have "(k + j) div ch = k div ch" using assms(1) by simp
  then show "stripe_idx ch n (k + j) = stripe_idx ch n k" "stripe_lba ch n (k + j) = stripe_lba ch n k + j"
    by (simp_all add: stripe_idx_def stripe_lba_def m)
qed

text \<open>The C arithmetic of a pass computes these, and the length of the run stays in one chunk.\<close>

lemma unat_ucast_u32 [simp]: "unat (ucast (x :: u32) :: u64) = unat x"
  by (simp add: unsigned_ucast_eq take_bit_nat_eq_self less_trans [OF unat_u32_bound])

lemma raid0_idx_nat:
  assumes "n \<noteq> 0"
  shows "raid0_idx lba chunk n = stripe_idx (unat chunk) (unat n) (unat lba)"
proof -
  have "unat (ucast (lba div ucast chunk mod ucast n) :: u32) = unat (lba div ucast chunk) mod unat n"
    by (rule ucast_mod_chunk [OF assms])
  then show ?thesis by (simp add: raid0_idx_def stripe_idx_def unat_div)
qed

lemma raid0_member_lba_nat:
  assumes "chunk \<noteq> 0"
  shows "unat (raid0_member_lba lba chunk n) = stripe_lba (unat chunk) (unat n) (unat lba)"
proof -
  let ?c = "unat chunk" and ?k = "unat lba"
  have "?k div ?c div unat n * ?c \<le> ?k div ?c * ?c" by (intro mult_le_mono1 div_le_dividend)
  moreover have "?k div ?c * ?c + ?k mod ?c = ?k" by simp
  ultimately have le: "?k div ?c div unat n * ?c + ?k mod ?c \<le> ?k" by linarith
  have m: "unat (lba div ucast chunk div ucast n * ucast chunk) = ?k div ?c div unat n * ?c"
  proof -
    have "unat (lba div ucast chunk div ucast n) * unat (ucast chunk :: u64) < 2 ^ LENGTH(64)"
      using le unat_u64_bound [of lba] by (simp add: unat_div del: unat_u64_bound)
    then show ?thesis unfolding unat_mult_lem by (simp add: unat_div)
  qed
  have "unat (raid0_member_lba lba chunk n) = ?k div ?c div unat n * ?c + ?k mod ?c"
    unfolding raid0_member_lba_def using le unat_u64_bound [of lba] two64
    by (subst unat_add_u64) (simp_all add: m ucast_mod_chunk [OF assms] del: unat_u64_bound)
  then show ?thesis by (simp add: stripe_lba_def)
qed

lemma raid0_run_nat:
  assumes "chunk \<noteq> 0"
  shows "unat (raid0_run lba chunk count) = min (unat count) (unat chunk - unat lba mod unat chunk)"
proof -
  have "(ucast (lba mod ucast chunk) :: u32) \<le> chunk"
    using assms by (simp add: word_le_nat_alt ucast_mod_chunk unat_gt_0 less_imp_le)
  then have "unat (chunk - ucast (lba mod ucast chunk)) = unat chunk - unat lba mod unat chunk"
    by (simp add: unat_sub ucast_mod_chunk [OF assms])
  then show ?thesis by (auto simp: raid0_run_def Let_def word_less_nat_alt)
qed

text \<open>A striped array that holds \<open>c\<close>.\<close>

definition stripe_at :: "anx_md_array \<Rightarrow> (nat \<Rightarrow> nat \<Rightarrow> sector) \<Rightarrow> (nat \<Rightarrow> sector) \<Rightarrow> bool" where
  "stripe_at x C c \<longleftrightarrow> (\<forall>k<unat (a_array_sectors x).
     let i = stripe_idx (unat (a_chunk_sectors x)) (unat (a_member_count x)) k in
     m_dev (a_members x ! i) \<noteq> None \<longrightarrow> mdata x C i (stripe_lba (unat (a_chunk_sectors x)) (unat (a_member_count x)) k) = c k)"

definition raid0_shape :: "anx_md_array \<Rightarrow> bool" where
  "raid0_shape x \<longleftrightarrow> a_level x = ANX_MD_LEVEL_RAID0 \<and> a_chunk_sectors x \<noteq> 0
     \<and> unat (a_chunk_sectors x) dvd unat (a_member_sectors x)
     \<and> unat (a_array_sectors x) = unat (a_member_sectors x) * unat (a_member_count x)"

definition raid0_holds :: "'d storage blk_io \<Rightarrow> nat set \<Rightarrow> ('d storage \<Rightarrow> (nat \<Rightarrow> nat \<Rightarrow> sector) \<Rightarrow> bool) \<Rightarrow> nat \<Rightarrow>
    'd storage \<Rightarrow> (nat \<Rightarrow> sector) \<Rightarrow> bool" where
  "raid0_holds io D repr a s c \<longleftrightarrow> geom io D a s \<and> raid0_shape (arr s a)
     \<and> (\<exists>C. repr s C \<and> stripe_at (arr s a) C c)"

lemma raid0_shape_eq: "same_shape x y \<Longrightarrow> raid0_shape x \<Longrightarrow> raid0_shape y"
  by (simp add: raid0_shape_def same_shape_def)

text \<open>The sector \<open>k\<close> of an array of the right shape is a data sector of a member.\<close>

lemma raid0_bounds:
  assumes "raid0_shape x" "0 < unat (a_member_count x)" "k < unat (a_array_sectors x)"
  shows "stripe_idx (unat (a_chunk_sectors x)) (unat (a_member_count x)) k < unat (a_member_count x)"
    "stripe_lba (unat (a_chunk_sectors x)) (unat (a_member_count x)) k < unat (a_member_sectors x)"
  using assms stripe_bound [of "unat (a_chunk_sectors x)" "unat (a_member_count x)" "unat (a_member_sectors x)" k]
  by (simp_all add: raid0_shape_def unat_gt_0)

lemma stripe_keep:
  assumes "stripe_at x C c" "same_shape x y" "data_eq x C C'" "raid0_shape x"
    "0 < unat (a_member_count x)" "unat (a_member_count x) \<le> length (a_members x)"
  shows "stripe_at y C' c"
  unfolding stripe_at_def Let_def
proof (intro allI impI)
  fix k
  let ?i = "stripe_idx (unat (a_chunk_sectors y)) (unat (a_member_count y)) k"
  let ?l = "stripe_lba (unat (a_chunk_sectors y)) (unat (a_member_count y)) k"
  have eq: "a_member_count y = a_member_count x" "a_chunk_sectors y = a_chunk_sectors x"
    "a_array_sectors y = a_array_sectors x" using assms(2) by (simp_all add: same_shape_def)
  assume k: "k < unat (a_array_sectors y)" "m_dev (a_members y ! ?i) \<noteq> None"
  note b = raid0_bounds [OF assms(4,5) k(1) [unfolded eq]]
  have i: "?i < length (a_members x)" using b(1) assms(6) unfolding eq by simp
  then have d: "m_dev (a_members x ! ?i) \<noteq> None" using assms(2) k(2) by (simp add: same_shape_def)
  have "mdata y C' ?i ?l = mdata x C' ?i ?l" by (rule mdata_shape [OF assms(2) i])
  also have "\<dots> = mdata x C ?i ?l" using assms(3) b d unfolding data_eq_mdata eq by blast
  also have "\<dots> = c k" using assms(1) k(1) d unfolding stripe_at_def Let_def eq by blast
  finally show "mdata y C' ?i ?l = c k" .
qed

text \<open>One pass of the striping loop.\<close>

lemma raid0_pass:
  fixes x :: anx_md_array and lba :: u64 and count :: u32
  assumes sh: "raid0_shape x" and n: "0 < unat (a_member_count x)" and "count \<noteq> 0"
    and le: "unat lba + unat count \<le> unat (a_array_sectors x)"
  defines "ch \<equiv> unat (a_chunk_sectors x)" and "nm \<equiv> unat (a_member_count x)"
    and "idx \<equiv> raid0_idx lba (a_chunk_sectors x) (a_member_count x)"
    and "mlba \<equiv> raid0_member_lba lba (a_chunk_sectors x) (a_member_count x)"
    and "run \<equiv> raid0_run lba (a_chunk_sectors x) count"
  shows "0 < unat run" "unat run \<le> unat count" "idx < nm" "unat mlba + unat run \<le> unat (a_member_sectors x)"
    "unat (lba + ucast run) = unat lba + unat run" "unat (count - run) = unat count - unat run"
    "j < unat run \<Longrightarrow> stripe_idx ch nm (unat lba + j) = idx \<and> stripe_lba ch nm (unat lba + j) = unat mlba + j"
    "unat mlba + unat run < 2 ^ 64" "unat lba + unat run < 2 ^ 64"
proof -
  have ch0: "a_chunk_sectors x \<noteq> 0" "0 < ch" using sh by (simp_all add: raid0_shape_def ch_def unat_gt_0)
  have nz: "a_member_count x \<noteq> 0" using n by auto
  have run: "unat run = min (unat count) (ch - unat lba mod ch)" unfolding run_def ch_def by (rule raid0_run_nat [OF ch0(1)])
  have "unat lba mod ch < ch" using ch0(2) by simp
  then show pos: "0 < unat run" and lec: "unat run \<le> unat count" using run assms(3) by (auto simp: unat_gt_0)
  have idx: "idx = stripe_idx ch nm (unat lba)" unfolding idx_def ch_def nm_def by (rule raid0_idx_nat [OF nz])
  have mlba: "unat mlba = stripe_lba ch nm (unat lba)" unfolding mlba_def ch_def nm_def by (rule raid0_member_lba_nat [OF ch0(1)])
  show st: "stripe_idx ch nm (unat lba + j) = idx \<and> stripe_lba ch nm (unat lba + j) = unat mlba + j" if "j < unat run" for j
  proof -
    have "unat lba mod ch + j < ch" using that run by linarith
    then show ?thesis using stripe_run [OF ch0(2)] idx mlba by simp
  qed
  have k: "unat lba + (unat run - 1) < unat (a_array_sectors x)" using le lec pos by linarith
  note b = raid0_bounds [OF sh n k, folded ch_def nm_def]
  show "idx < nm" using b(1) st [of "unat run - 1"] pos by simp
  have "unat mlba + (unat run - 1) < unat (a_member_sectors x)" using b(2) st [of "unat run - 1"] pos by simp
  then show m: "unat mlba + unat run \<le> unat (a_member_sectors x)" using pos by linarith
  then show "unat mlba + unat run < 2 ^ 64" using unat_u64_bound [of "a_member_sectors x"] two64 by linarith
  show l64: "unat lba + unat run < 2 ^ 64" using le lec unat_u64_bound [of "a_array_sectors x"] two64 by linarith
  then show "unat (lba + ucast run) = unat lba + unat run" by (simp add: unat_add_u64)
  show "unat (count - run) = unat count - unat run" using lec by (simp add: unat_sub word_le_nat_alt)
qed

text \<open>A write through one pass changes only the sectors of the pass.\<close>

lemma stripe_write:
  assumes st: "stripe_at x C c" and sh: "raid0_shape x" and n: "0 < unat (a_member_count x)" and "count \<noteq> 0"
    and le: "unat lba + unat count \<le> unat (a_array_sectors x)"
  defines "ch \<equiv> unat (a_chunk_sectors x)" and "nm \<equiv> unat (a_member_count x)"
    and "idx \<equiv> raid0_idx lba (a_chunk_sectors x) (a_member_count x)"
    and "mlba \<equiv> raid0_member_lba lba (a_chunk_sectors x) (a_member_count x)"
    and "run \<equiv> raid0_run lba (a_chunk_sectors x) count"
  assumes same: "\<And>j k. j < nm \<Longrightarrow> m_dev (a_members x ! j) \<noteq> None \<Longrightarrow> j \<noteq> idx \<or> k < unat mlba \<or> unat mlba + unat run \<le> k \<Longrightarrow>
       k < unat (a_member_sectors x) \<Longrightarrow> mdata x C' j k = mdata x C j k"
  shows "stripe_at x C' (\<lambda>k. if unat lba \<le> k \<and> k < unat lba + unat run
     then mdata x C' (stripe_idx ch nm k) (stripe_lba ch nm k) else c k)"
  unfolding stripe_at_def Let_def ch_def [symmetric] nm_def [symmetric]
proof (intro allI impI)
  fix k assume k: "k < unat (a_array_sectors x)" "m_dev (a_members x ! stripe_idx ch nm k) \<noteq> None"
  note b = raid0_bounds [OF sh n k(1), folded ch_def nm_def]
  note pass = raid0_pass [OF sh n assms(4) le, folded ch_def nm_def idx_def mlba_def run_def]
  have c: "mdata x C (stripe_idx ch nm k) (stripe_lba ch nm k) = c k"
    using st k unfolding stripe_at_def Let_def ch_def nm_def by blast
  have "mdata x C' (stripe_idx ch nm k) (stripe_lba ch nm k) = c k" if out: "\<not> (unat lba \<le> k \<and> k < unat lba + unat run)"
  proof -
    have "stripe_idx ch nm k \<noteq> idx \<or> stripe_lba ch nm k < unat mlba \<or> unat mlba + unat run \<le> stripe_lba ch nm k"
    proof (rule ccontr)
      assume "\<not> ?thesis"
      then obtain j where j: "j < unat run" "stripe_lba ch nm k = unat mlba + j" "stripe_idx ch nm k = idx"
        by (metis le_Suc_ex nat_add_left_cancel_less not_le)
      have "0 < ch" using sh by (simp add: ch_def raid0_shape_def unat_gt_0)
      then have "k = unat lba + j" using stripe_inj pass(7) [OF j(1)] j(2,3) by metis
      then show False using out j(1) by simp
    qed
    then show ?thesis using same [OF b(1) k(2) _ b(2)] c by simp
  qed
  then show "mdata x C' (stripe_idx ch nm k) (stripe_lba ch nm k) = (if unat lba \<le> k \<and> k < unat lba + unat run
     then mdata x C' (stripe_idx ch nm k) (stripe_lba ch nm k) else c k)" by simp
qed

context block_devs
begin

lemma raid0_read_loop:
  assumes "repr s C" "geom io D a s" "raid0_shape (arr s a)" "stripe_at (arr s a) C c"
    "unat lba + unat count \<le> unat (a_array_sectors (arr s a))"
    "raid0_loop io a (a_chunk_sectors (arr s a)) lba count [] False s = ((r, data), t)"
  shows "(\<exists>C'. repr t C' \<and> stripe_at (arr t a) C' c) \<and> md_rel io D a s t
    \<and> (r = ANX_OK \<longrightarrow> data = map c [unat lba..<unat lba + unat count])"
  using assms
proof (induction "unat count" arbitrary: lba count s C r data t rule: less_induct)
  case less
  have ch0: "a_chunk_sectors (arr s a) \<noteq> 0" using less.prems(3) by (simp add: raid0_shape_def)
  show ?case
  proof (cases "count = 0")
    case True
    then show ?thesis using less.prems by (auto simp: raid0_loop.simps [of _ _ _ _ 0])
  next
    case False
    define idx where "idx = raid0_idx lba (a_chunk_sectors (arr s a)) (a_member_count (arr s a))"
    define mlba where "mlba = raid0_member_lba lba (a_chunk_sectors (arr s a)) (a_member_count (arr s a))"
    define run where "run = raid0_run lba (a_chunk_sectors (arr s a)) count"
    note pass = raid0_pass [OF less.prems(3) geom_len(3) [OF less.prems(2)] False less.prems(5),
        folded idx_def mlba_def run_def]
    obtain r1 d1 s1 where rd: "anx_md_member_read io a idx mlba run s = ((r1, d1), s1)" by (metis prod.collapse)
    obtain r2 d2 s2 where rest: "raid0_loop io a (a_chunk_sectors (arr s a)) (lba + ucast run) (count - run) [] False s1
        = ((r2, d2), s2)" by (metis prod.collapse)
    have eq: "((r, data), t) = (if r1 \<noteq> ANX_OK then ((r1, d1), anx_md_member_fault io a idx s1) else ((r2, d1 @ d2), s2))"
      using less.prems(6) False ch0 rd rest
      unfolding raid0_loop.simps [of io a _ lba] Let_def idx_def [symmetric] mlba_def [symmetric] run_def [symmetric]
      by (auto split: if_splits)
    from member_read_step [OF less.prems(1,2) pass(8) rd]
    have 1: "repr s1 C" "md_rel io D a s s1" "arr s1 a = arr s a"
      and data: "r1 = ANX_OK \<Longrightarrow> d1 = map (mdata (arr s a) C idx) [unat mlba..<unat mlba + unat run]" by auto
    have g1: "geom io D a s1" using less.prems(2) 1(2) by (rule geom_rel)
    show ?thesis
    proof (cases "r1 = ANX_OK")
      case False
      define u where "u = anx_md_member_fault io a idx s1"
      obtain C2 where 2: "repr u C2" "md_rel io D a s1 u" "data_eq (arr s a) C C2"
        using fault_step [OF 1(1) g1, of idx] unfolding u_def 1(3) by metis
      have rel: "md_rel io D a s u" using md_rel_trans [OF 1(2) 2(2)] .
      then have "stripe_at (arr u a) C2 c"
        using less.prems(2,3) geom_len(3) geom_count stripe_keep [OF less.prems(4) _ 2(3)] unfolding md_rel_def by blast
      then show ?thesis using eq False 2 rel by (auto simp: u_def)
    next
      case True
      have lt: "unat (count - run) < unat count" using pass(1,2,6) by linarith
      have "unat (lba + ucast run) + unat (count - run) \<le> unat (a_array_sectors (arr s1 a))"
        using pass(2,5,6) less.prems(5) 1(3) by simp
      from less.hyps [OF lt 1(1) g1 _ _ this, unfolded 1(3), OF less.prems(3,4) rest]
      have 3: "\<exists>C'. repr s2 C' \<and> stripe_at (arr s2 a) C' c" "md_rel io D a s1 s2"
        "r2 = ANX_OK \<longrightarrow> d2 = map c [unat (lba + ucast run)..<unat (lba + ucast run) + unat (count - run)]" by auto
      have "d1 = map c [unat lba..<unat lba + unat run]"
      proof (rule nth_equalityI)
        show "length d1 = length (map c [unat lba..<unat lba + unat run])" using data [OF True] by simp
        fix j assume j: "j < length d1"
        then have j': "j < unat run" using data [OF True] by simp
        have k: "unat lba + j < unat (a_array_sectors (arr s a))" using j' pass(2) less.prems(5) by linarith
        have "m_dev (memb s a idx) \<noteq> None"
          using rd True by (auto simp: anx_md_member_read_def Let_def split: if_splits)
        then have "mdata (arr s a) C idx (unat mlba + j) = c (unat lba + j)"
          using less.prems(4) k pass(7) [OF j'] unfolding stripe_at_def Let_def by metis
        then show "d1 ! j = map c [unat lba..<unat lba + unat run] ! j" using data [OF True] j' by simp
      qed
      moreover have "[unat lba..<unat lba + unat count] =
          [unat lba..<unat lba + unat run] @ [unat (lba + ucast run)..<unat (lba + ucast run) + unat (count - run)]"
        using upt_add_eq_append [of "unat lba" "unat lba + unat run" "unat count - unat run"] pass(2,5,6) by simp
      ultimately have "r = ANX_OK \<longrightarrow> data = map c [unat lba..<unat lba + unat count]"
        using eq True 3(3) by auto
      then show ?thesis using eq True 3(1,2) md_rel_trans [OF 1(2)] by auto
    qed
  qed
qed

lemma raid0_write_loop:
  assumes "repr s C" "geom io D a s" "raid0_shape (arr s a)" "stripe_at (arr s a) C c"
    "unat lba + unat count \<le> unat (a_array_sectors (arr s a))" "length buf = unat count"
    "raid0_loop io a (a_chunk_sectors (arr s a)) lba count buf True s = ((r, data), t)"
  shows "(\<exists>C' c'. repr t C' \<and> stripe_at (arr t a) C' c' \<and> (\<forall>k. k < unat lba \<or> unat lba + unat count \<le> k \<longrightarrow> c' k = c k)
      \<and> (r = ANX_OK \<longrightarrow> c' = upd_sectors c (unat lba) buf)) \<and> md_rel io D a s t"
  using assms
proof (induction "unat count" arbitrary: lba count buf s C c r data t rule: less_induct)
  case less
  have ch0: "a_chunk_sectors (arr s a) \<noteq> 0" using less.prems(3) by (simp add: raid0_shape_def)
  show ?case
  proof (cases "count = 0")
    case True
    then have "t = s" "buf = []" using less.prems(6,7) by (auto simp: raid0_loop.simps [of _ _ _ _ 0])
    moreover from this have "upd_sectors c (unat lba) buf = c" by (auto simp: upd_sectors_def fun_eq_iff)
    ultimately show ?thesis using less.prems(1,4) by auto
  next
    case False
    define idx where "idx = raid0_idx lba (a_chunk_sectors (arr s a)) (a_member_count (arr s a))"
    define mlba where "mlba = raid0_member_lba lba (a_chunk_sectors (arr s a)) (a_member_count (arr s a))"
    define run where "run = raid0_run lba (a_chunk_sectors (arr s a)) count"
    define ch where "ch = unat (a_chunk_sectors (arr s a))"
    note n = geom_len(3) [OF less.prems(2)]
    note pass = raid0_pass [OF less.prems(3) n False less.prems(5), folded idx_def mlba_def run_def ch_def]
    have buf: "length (take (unat run) buf) = unat run" using less.prems(6) pass(2) by simp
    obtain r1 s1 where wr: "anx_md_member_write io a idx mlba run (take (unat run) buf) s = (r1, s1)" by fastforce
    obtain r2 d2 s2 where rest: "raid0_loop io a (a_chunk_sectors (arr s a)) (lba + ucast run) (count - run)
        (drop (unat run) buf) True s1 = ((r2, d2), s2)" by (metis prod.collapse)
    have eq: "((r, data), t) = (if r1 \<noteq> ANX_OK then ((r1, []), anx_md_member_fault io a idx s1) else ((r2, d2), s2))"
      using less.prems(7) False ch0 wr rest
      unfolding raid0_loop.simps [of io a _ lba] Let_def idx_def [symmetric] mlba_def [symmetric] run_def [symmetric]
      by (auto split: if_splits)
    from member_write_step [OF less.prems(1,2) pass(8) buf wr] obtain C1 where
      1: "repr s1 C1" "md_rel io D a s s1" "arr s1 a = arr s a"
      and same: "\<And>j k. j < mcount s a \<Longrightarrow> m_dev (memb s a j) \<noteq> None \<Longrightarrow> j \<noteq> idx \<or> k < unat mlba \<or> unat mlba + unat run \<le> k \<Longrightarrow>
         k < unat (a_member_sectors (arr s a)) \<Longrightarrow> mdata (arr s a) C1 j k = mdata (arr s a) C j k"
      and new: "\<And>k. r1 = ANX_OK \<Longrightarrow> unat mlba \<le> k \<Longrightarrow> k < unat mlba + unat run \<Longrightarrow>
         mdata (arr s a) C1 idx k = take (unat run) buf ! (k - unat mlba)" by metis
    have g1: "geom io D a s1" using less.prems(2) 1(2) by (rule geom_rel)
    define c1 where "c1 = (\<lambda>k. if unat lba \<le> k \<and> k < unat lba + unat run
       then mdata (arr s a) C1 (stripe_idx ch (mcount s a) k) (stripe_lba ch (mcount s a) k) else c k)"
    have st1: "stripe_at (arr s a) C1 c1"
      using stripe_write [OF less.prems(4,3) n False less.prems(5), folded idx_def mlba_def run_def ch_def] same
      unfolding c1_def by blast
    show ?thesis
    proof (cases "r1 = ANX_OK")
      case bad: False
      define u where "u = anx_md_member_fault io a idx s1"
      obtain C2 where 2: "repr u C2" "md_rel io D a s1 u" "data_eq (arr s a) C1 C2"
        using fault_step [OF 1(1) g1, of idx] unfolding u_def 1(3) by metis
      have rel: "md_rel io D a s u" using md_rel_trans [OF 1(2) 2(2)] .
      then have st2: "stripe_at (arr u a) C2 c1"
        using less.prems(2,3) n geom_count stripe_keep [OF st1 _ 2(3)] unfolding md_rel_def by blast
      have "t = u" "r \<noteq> ANX_OK" using eq bad by (simp_all add: u_def)
      moreover have "\<forall>k. k < unat lba \<or> unat lba + unat count \<le> k \<longrightarrow> c1 k = c k"
        using pass(2) by (simp add: c1_def)
      ultimately show ?thesis using 2(1) st2 rel by blast
    next
      case True
      have lt: "unat (count - run) < unat count" using pass(1,2,6) by linarith
      have le1: "unat (lba + ucast run) + unat (count - run) \<le> unat (a_array_sectors (arr s a))"
        using pass(2,5,6) less.prems(5) by simp
      have buf1: "length (drop (unat run) buf) = unat (count - run)" using less.prems(6) pass(6) by simp
      from less.hyps [OF lt 1(1) g1, unfolded 1(3), OF less.prems(3) st1 le1 buf1 rest]
      obtain C' c' where 3: "repr s2 C'" "stripe_at (arr s2 a) C' c'" "md_rel io D a s1 s2"
        "\<forall>k. k < unat (lba + ucast run) \<or> unat (lba + ucast run) + unat (count - run) \<le> k \<longrightarrow> c' k = c1 k"
        "r2 = ANX_OK \<longrightarrow> c' = upd_sectors c1 (unat (lba + ucast run)) (drop (unat run) buf)" by auto
      have c1: "c1 = upd_sectors c (unat lba) (take (unat run) buf)"
      proof
        fix k
        show "c1 k = upd_sectors c (unat lba) (take (unat run) buf) k"
        proof (cases "unat lba \<le> k \<and> k < unat lba + unat run")
          case in_run: True
          then obtain j where j: "k = unat lba + j" "j < unat run" by (metis le_Suc_ex nat_add_left_cancel_less)
          then show ?thesis using pass(7) [OF j(2)] new [OF True, of "unat mlba + j"] buf
            by (simp add: c1_def upd_sectors_def)
        next
          case False
          then show ?thesis using buf by (auto simp: c1_def upd_sectors_def)
        qed
      qed
      have upd: "upd_sectors c1 (unat lba + unat run) (drop (unat run) buf) = upd_sectors c (unat lba) buf"
        using buf less.prems(6) pass(2) unfolding c1 by (auto simp: upd_sectors_def fun_eq_iff)
      have "\<forall>k. k < unat lba \<or> unat lba + unat count \<le> k \<longrightarrow> c' k = c k"
        using 3(4) pass(2,5,6) by (auto simp: c1_def)
      moreover have "r = ANX_OK \<longrightarrow> c' = upd_sectors c (unat lba) buf" "t = s2"
        using eq True 3(5) pass(5) upd by auto
      ultimately show ?thesis using 3(1,2) md_rel_trans [OF 1(2) 3(3)] by blast
    qed
  qed
qed

end

subsection \<open>An array of block devices is a block device\<close>

definition md_holds :: "'d storage blk_io \<Rightarrow> nat set \<Rightarrow> ('d storage \<Rightarrow> (nat \<Rightarrow> nat \<Rightarrow> sector) \<Rightarrow> bool) \<Rightarrow> nat \<Rightarrow>
    'd storage \<Rightarrow> (nat \<Rightarrow> sector) \<Rightarrow> bool" where
  "md_holds io D repr a s c \<longleftrightarrow> raid0_holds io D repr a s c \<or> raid1_holds io D repr a s c"

context block_devs
begin

lemma raid0_holdsI:
  assumes "raid0_holds io D repr a s c" "md_rel io D a s t" "repr t C" "stripe_at (arr t a) C c'"
  shows "raid0_holds io D repr a t c'"
  using assms geom_rel [of io D a s t] raid0_shape_eq [of "arr s a" "arr t a"]
  unfolding raid0_holds_def by (auto simp: md_rel_def)

lemma raid0_read_holds:
  assumes "raid0_holds io D repr a s c" "unat lba + unat n < 2 ^ 64" "md_read io a lba n s = ((r, data), t)"
  shows "raid0_holds io D repr a t c \<and> (r = ANX_OK \<longrightarrow> data = map c [unat lba..<unat lba + unat n])"
proof (cases "lba + ucast n > a_array_sectors (arr s a)")
  case True
  then have "t = s" "r \<noteq> ANX_OK" using assms(1,3) by (auto simp: md_read_def raid0_holds_def geom_def)
  then show ?thesis using assms(1) by simp
next
  case False
  have g: "geom io D a s" and sh: "raid0_shape (arr s a)" using assms(1) by (simp_all add: raid0_holds_def)
  obtain C where C: "repr s C" "stripe_at (arr s a) C c" using assms(1) by (auto simp: raid0_holds_def)
  have "raid0_loop io a (a_chunk_sectors (arr s a)) lba n [] False s = ((r, data), t)"
    using assms(3) False sh geom_len(5,7) [OF g]
    by (simp add: md_read_def anx_md_raid0_read_def raid0_io_def raid0_shape_def Let_def)
  from raid0_read_loop [OF C(1) g sh C(2) add_range [OF assms(2) False] this]
  show ?thesis using raid0_holdsI [OF assms(1)] by blast
qed

lemma raid0_write_holds:
  assumes "raid0_holds io D repr a s c" "unat lba + unat n < 2 ^ 64" "length buf = unat n" "md_write io a lba n buf s = (r, t)"
  shows "\<exists>c'. raid0_holds io D repr a t c' \<and> (\<forall>k. k < unat lba \<or> unat lba + unat n \<le> k \<longrightarrow> c' k = c k)
    \<and> (r = ANX_OK \<longrightarrow> c' = upd_sectors c (unat lba) buf)"
proof (cases "lba + ucast n > a_array_sectors (arr s a)")
  case True
  then have "t = s" "r \<noteq> ANX_OK" using assms(1,4) by (auto simp: md_write_def raid0_holds_def geom_def)
  then show ?thesis using assms(1) by auto
next
  case False
  have g: "geom io D a s" and sh: "raid0_shape (arr s a)" using assms(1) by (simp_all add: raid0_holds_def)
  obtain C where C: "repr s C" "stripe_at (arr s a) C c" using assms(1) by (auto simp: raid0_holds_def)
  obtain data where "raid0_loop io a (a_chunk_sectors (arr s a)) lba n buf True s = ((r, data), t)"
    using assms(4) False sh geom_len(5,7) [OF g]
    by (auto simp: md_write_def anx_md_raid0_write_def raid0_io_def raid0_shape_def Let_def split: prod.splits)
  from raid0_write_loop [OF C(1) g sh C(2) add_range [OF assms(2) False] assms(3) this]
  show ?thesis using raid0_holdsI [OF assms(1)] by blast
qed

end

sublocale block_devs \<subseteq> md: block_dev "md_read io a" "md_write io a" "md_holds io D repr a" for a
proof
  fix s c lba n r data t
  assume "md_holds io D repr a s c" "unat lba + unat n < 2 ^ 64" "md_read io a lba n s = ((r, data), t)"
  then show "md_holds io D repr a t c \<and> (r = ANX_OK \<longrightarrow> data = map c [unat lba..<unat lba + unat n])"
    using raid0_read_holds raid1_read_holds unfolding md_holds_def by blast
next
  fix s c lba n buf r t
  assume h: "md_holds io D repr a s c" "unat lba + unat n < 2 ^ 64" "length buf = unat n" "md_write io a lba n buf s = (r, t)"
  show "\<exists>c'. md_holds io D repr a t c' \<and> (\<forall>k. k < unat lba \<or> unat lba + unat n \<le> k \<longrightarrow> c' k = c k)
    \<and> (r = ANX_OK \<longrightarrow> c' = upd_sectors c (unat lba) buf)"
  proof (cases "raid0_holds io D repr a s c")
    case True
    then show ?thesis using raid0_write_holds [OF True h(2-4)] unfolding md_holds_def by blast
  next
    case False
    then have "raid1_holds io D repr a s c" using h(1) by (simp add: md_holds_def)
    from raid1_write_holds [OF this h(2-4)] show ?thesis
      unfolding md_holds_def using h(3) by (auto split: if_splits simp: upd_sectors_def)
  qed
qed

subsection \<open>Redundancy\<close>

text \<open>A mirror serves a read as long as one active member can: the other members may fail in
  any way. The cursor rotates over all members, so the good one is tried.\<close>

lemma raid1_cursor_covers:
  assumes "unat cur < unat n" "unat n \<le> 8" "j < unat (n :: u32)"
  obtains k where "k < unat n" "unat ((cur + of_nat k) mod n) = j"
proof -
  have val: "unat ((cur + of_nat k) mod n) = (unat cur + k) mod unat n" if "k < unat n" for k
  proof -
    have "k < 2 ^ 32" "unat cur + k < 2 ^ 32" using that assms by auto
    then have "unat (cur + of_nat k) = unat cur + k" by (simp add: unat_word_ariths unat_of_nat_u32)
    then show ?thesis by (simp add: unat_mod)
  qed
  show thesis
  proof (cases "unat cur \<le> j")
    case True
    then show thesis using that [of "j - unat cur"] val [of "j - unat cur"] assms(3) by simp
  next
    case False
    let ?k = "unat n - unat cur + j"
    have "?k < unat n" using False assms(1) by linarith
    moreover have "(unat cur + ?k) mod unat n = j" using assms(1,3) by simp
    ultimately show thesis using that [of ?k] val [of ?k] by simp
  qed
qed

context block_devs
begin

lemma raid1_read_loop_live:
  assumes "repr s C" "geom io D a s" "unat lba + unat n \<le> unat (a_member_sectors (arr s a))"
    "j < mcount s a" "raid1_readable s a j" "m_dev (memb s a j) = Some d"
    and serves: "\<And>t C'. repr t C' \<Longrightarrow> io_capacity io d t = cap \<Longrightarrow>
       fst (fst (io_read io d (m_data_offset (memb s a j) + lba) n t)) = ANX_OK"
    and "io_capacity io d s = cap"
    "\<exists>k\<in>set ts. unat ((a_read_cursor (arr s a) + of_nat k) mod a_member_count (arr s a)) = j"
  shows "\<exists>data t. raid1_read_loop io a lba n ts r0 s = ((ANX_OK, data), t)"
  using assms
proof (induction ts arbitrary: r0 s C)
  case Nil
  then show ?case by simp
next
  case (Cons k ts)
  define idx where "idx = unat ((a_read_cursor (arr s a) + of_nat k) mod a_member_count (arr s a))"
  have idx: "idx < mcount s a"
    unfolding idx_def using geom_len(3) [OF Cons.prems(2)] by (intro raid1_idx_less) (simp add: word_less_nat_alt)
  have r64: "unat lba + unat n < 2 ^ 64"
    using Cons.prems(3) unat_u64_bound [of "a_member_sectors (arr s a)"] two64 by linarith
  obtain r1 data1 s1 where rd: "anx_md_member_read io a idx lba n s = ((r1, data1), s1)" by (metis prod.collapse)
  show ?case
  proof (cases "raid1_readable s a idx \<and> r1 \<noteq> ANX_OK")
    case True
    from member_read_step [OF Cons.prems(1,2) r64 rd]
    have 1: "repr s1 C" "md_rel io D a s s1" "arr s1 a = arr s a" by auto
    have g1: "geom io D a s1" using Cons.prems(2) 1(2) by (rule geom_rel)
    have ne: "idx \<noteq> j"
    proof
      assume "idx = j"
      then have "r1 = fst (fst (io_read io d (m_data_offset (memb s a j) + lba) n s))"
        using rd Cons.prems(5,6) idx in_range_add [OF Cons.prems(3)] md_states_distinct
        by (simp add: anx_md_member_read_def raid1_readable_def Let_def)
      then show False using True Cons.prems(7) [OF Cons.prems(1,8)] by simp
    qed
    define u where "u = anx_md_member_fault io a idx s1"
    obtain C2 where 2: "repr u C2" "md_rel io D a s1 u" "demotes (arr s a) (arr u a)"
      "\<And>i. i < mcount s a \<Longrightarrow> i \<noteq> idx \<Longrightarrow> m_state (memb u a i) = m_state (memb s a i)"
      "a_read_cursor (arr u a) = a_read_cursor (arr s a)"
      using fault_step [OF 1(1) g1, of idx] unfolding u_def 1(3) by metis
    have gu: "geom io D a u" using g1 2(2) by (rule geom_rel)
    have eq: "a_member_sectors (arr u a) = a_member_sectors (arr s a)" "a_member_count (arr u a) = a_member_count (arr s a)"
      "m_dev (memb u a j) = m_dev (memb s a j)" "m_data_offset (memb u a j) = m_data_offset (memb s a j)"
      using 2(3) geom_len [OF Cons.prems(2)] Cons.prems(4) by (simp_all add: demotes_def same_shape_def)
    have cap: "io_capacity io d u = cap"
      using md_rel_trans [OF 1(2) 2(2)] geom_memb(1) [OF Cons.prems(2,4,6)] Cons.prems(8) by (simp add: md_rel_def)
    have "raid1_readable u a j" using Cons.prems(4,5) 2(4) [OF _ ne [symmetric]] eq by (simp add: raid1_readable_def)
    moreover have "\<exists>k\<in>set ts. unat ((a_read_cursor (arr u a) + of_nat k) mod a_member_count (arr u a)) = j"
      using Cons.prems(9) ne unfolding eq 2(5) by (auto simp: idx_def)
    ultimately have "\<exists>data t. raid1_read_loop io a lba n ts r1 u = ((ANX_OK, data), t)"
      using Cons.prems(3,4,6,7) cap by (intro Cons.IH [OF 2(1) gu]) (simp_all add: eq)
    then show ?thesis using True rd by (simp add: Let_def idx_def [symmetric] u_def)
  next
    case False
    show ?thesis
    proof (cases "raid1_readable s a idx")
      case True
      then show ?thesis using False rd by (simp add: Let_def idx_def [symmetric])
    next
      case skip: False
      then have "idx \<noteq> j" using Cons.prems(5) by auto
      then have "\<exists>k\<in>set ts. unat ((a_read_cursor (arr s a) + of_nat k) mod a_member_count (arr s a)) = j"
        using Cons.prems(9) by (auto simp: idx_def)
      then have "\<exists>data t. raid1_read_loop io a lba n ts r0 s = ((ANX_OK, data), t)"
        using Cons.prems(3-8) by (intro Cons.IH [OF Cons.prems(1,2)]) simp_all
      then show ?thesis using skip by (simp add: Let_def idx_def [symmetric])
    qed
  qed
qed

lemma raid1_read_live:
  assumes h: "raid1_holds io D repr a s c" and le: "unat lba + unat n \<le> unat (a_array_sectors (arr s a))"
    and j: "j < mcount s a" "raid1_readable s a j" "m_dev (memb s a j) = Some d"
    and cur: "unat (a_read_cursor (arr s a)) < mcount s a"
    and serves: "\<And>t C'. repr t C' \<Longrightarrow> io_capacity io d t = io_capacity io d s \<Longrightarrow>
       fst (fst (io_read io d (m_data_offset (memb s a j) + lba) n t)) = ANX_OK"
  shows "\<exists>t. md_read io a lba n s = ((ANX_OK, map c [unat lba..<unat lba + unat n]), t) \<and> raid1_holds io D repr a t c"
proof -
  have g: "geom io D a s" and lev: "a_level (arr s a) \<noteq> ANX_MD_LEVEL_RAID0"
    and ms: "a_array_sectors (arr s a) = a_member_sectors (arr s a)"
    using h by (simp_all add: raid1_holds_def md_consts)
  obtain C where C: "repr s C" using h by (auto simp: raid1_holds_def)
  obtain k where "k < mcount s a" "unat ((a_read_cursor (arr s a) + of_nat k) mod a_member_count (arr s a)) = j"
    using raid1_cursor_covers [OF cur _ j(1)] geom_len(4) [OF g] by (auto simp: ANX_MD_MAX_MEMBERS_def)
  then have cov: "\<exists>k\<in>set [0..<mcount s a]. unat ((a_read_cursor (arr s a) + of_nat k) mod a_member_count (arr s a)) = j" by auto
  have "\<exists>data t. raid1_read_loop io a lba n [0..<mcount s a] ANX_ENODEV s = ((ANX_OK, data), t)"
    by (rule raid1_read_loop_live [OF C g le [unfolded ms] j _ refl cov]) (rule serves)
  then obtain data t where "raid1_read_loop io a lba n [0..<mcount s a] ANX_ENODEV s = ((ANX_OK, data), t)" by blast
  then have rd: "md_read io a lba n s = ((ANX_OK, data), t)"
    using in_range_add [OF le] lev geom_len(5,7) [OF g] by (simp add: md_read_def anx_md_raid1_read_def)
  have "unat lba + unat n < 2 ^ 64" using le unat_u64_bound [of "a_array_sectors (arr s a)"] two64 by linarith
  from raid1_read_holds [OF h this rd] rd show ?thesis by auto
qed

end

context block_devs
begin

lemma array_rw:
  assumes "md_holds io D repr a s c" "unat lba + unat n < 2 ^ 64" "length buf = unat n" "md_write io a lba n buf s = (r, t)"
    "unat lba' + unat n' < 2 ^ 64" "md_read io a lba' n' t = ((ANX_OK, data), u)"
  shows "(r = ANX_OK \<and> lba' = lba \<and> n' = n \<longrightarrow> data = buf)
    \<and> (unat lba' + unat n' \<le> unat lba \<or> unat lba + unat n \<le> unat lba' \<longrightarrow> data = map c [unat lba'..<unat lba' + unat n'])"
  using md.read_after_write [OF assms(1-3)] md.read_other_after_write [OF assms(1-3,5) _ assms(4,6)] assms(4,6) by blast

end

end
