(* ===== verification/MockBlk.thy ===== *)
theory MockBlk
  imports Raid
begin

text \<open>
  The RAM-backed drives of the test harness (\<^verbatim>\<open>tests/harness/mock_arch.c\<close>), which register
  through the block registry and which the RAID tests stripe and mirror over. They meet the
  contract \<open>block_devs\<close>, so the results of \<open>Raid\<close> hold for arrays on them; the properties of
  the RAID levels are stated here. A static pool of sectors backs each drive; the pointer
  \<open>mem\<close> of a drive is the number of its pool.
\<close>

subsection \<open>The drives\<close>

definition MOCK_BLK_MAX_DEVS :: nat where "MOCK_BLK_MAX_DEVS = 4"

definition MOCK_BLK_MAX_SECTORS :: u64 where "MOCK_BLK_MAX_SECTORS = 8192"

record mock_blk =
  mk_mem :: "nat option"
  mk_sectors :: u64

record mock_state =
  mock_blks :: "mock_blk list"
  mock_devs :: "nat option list"
  mock_blk_count :: nat
  mock_blk_pool :: "sector list list"

type_synonym mock_storage = "mock_state storage"

abbreviation mock_of :: "mock_storage \<Rightarrow> nat \<Rightarrow> mock_blk" where
  "mock_of s dev \<equiv> mock_blks (drives s) ! bd_priv (dev_at s dev)"

definition mock_blk_read :: "nat \<Rightarrow> u64 \<Rightarrow> u32 \<Rightarrow> mock_storage \<Rightarrow> (int \<times> sector list) \<times> mock_storage" where
  "mock_blk_read dev s c st =
     (case mk_mem (mock_of st dev) of
        None \<Rightarrow> ((ANX_EIO, []), st)
      | Some p \<Rightarrow>
          if s + ucast c > mk_sectors (mock_of st dev) then ((ANX_EIO, []), st)
          else ((ANX_OK, take (unat c) (drop (unat s) (mock_blk_pool (drives st) ! p))), st))"

definition mock_blk_write :: "nat \<Rightarrow> u64 \<Rightarrow> u32 \<Rightarrow> sector list \<Rightarrow> mock_storage \<Rightarrow> int \<times> mock_storage" where
  "mock_blk_write dev s c b st =
     (case mk_mem (mock_of st dev) of
        None \<Rightarrow> (ANX_EIO, st)
      | Some p \<Rightarrow>
          if s + ucast c > mk_sectors (mock_of st dev) then (ANX_EIO, st)
          else
            let pool = mock_blk_pool (drives st); mem = pool ! p;
                mem' = take (unat s) mem @ take (unat c) b @ drop (unat s + unat c) mem in
            (ANX_OK, st\<lparr>drives := (drives st)\<lparr>mock_blk_pool := pool[p := mem']\<rparr>\<rparr>))"

definition mock_blk_capacity :: "nat \<Rightarrow> mock_storage \<Rightarrow> u64" where
  "mock_blk_capacity dev st = mk_sectors (mock_of st dev)"

definition mock_blk_ops :: "mock_storage blk_io" where
  "mock_blk_ops = \<lparr>io_read = mock_blk_read, io_write = mock_blk_write, io_capacity = mock_blk_capacity\<rparr>"

definition set_mock :: "nat \<Rightarrow> mock_blk \<Rightarrow> mock_storage \<Rightarrow> mock_storage" where
  "set_mock i m s = s\<lparr>drives := (drives s)\<lparr>mock_blks := (mock_blks (drives s))[i := m]\<rparr>\<rparr>"

definition test_mock_blk_add :: "u64 \<Rightarrow> mock_storage \<Rightarrow> nat option \<times> mock_storage" where
  "test_mock_blk_add sectors0 s =
     (let slot = mock_blk_count (drives s) in
      if slot \<ge> MOCK_BLK_MAX_DEVS then (None, s)
      else
        let sectors = (if sectors0 = 0 \<or> sectors0 > MOCK_BLK_MAX_SECTORS then MOCK_BLK_MAX_SECTORS else sectors0);
            s1 = set_mock slot \<lparr>mk_mem = Some slot, mk_sectors = sectors\<rparr> s;
            pool = mock_blk_pool (drives s1);
            zeroed = replicate (unat sectors) (replicate 512 0) @ drop (unat sectors) (pool ! slot);
            s2 = s1\<lparr>drives := (drives s1)\<lparr>mock_blk_pool := pool[slot := zeroed]\<rparr>\<rparr> in
        case anx_blk_dev_register OpsDriver slot ''mock'' s2 of (d, s3) \<Rightarrow>
          let s4 = s3\<lparr>drives := (drives s3)\<lparr>mock_devs := (mock_devs (drives s3))[slot := d]\<rparr>\<rparr> in
          case d of
            None \<Rightarrow> (None, set_mock slot ((mock_blks (drives s4) ! slot)\<lparr>mk_mem := None\<rparr>) s4)
          | Some i \<Rightarrow> (Some i, s4\<lparr>drives := (drives s4)\<lparr>mock_blk_count := mock_blk_count (drives s4) + 1\<rparr>\<rparr>))"

definition mock_drop :: "nat \<Rightarrow> mock_storage \<Rightarrow> mock_storage" where
  "mock_drop i s =
     (let d = the (mock_devs (drives s) ! i);
          s1 = anx_blk_dev_unregister d (anx_blk_dev_release d s);
          s2 = s1\<lparr>drives := (drives s1)\<lparr>mock_devs := (mock_devs (drives s1))[i := None]\<rparr>\<rparr> in
      set_mock i \<lparr>mk_mem = None, mk_sectors = 0\<rparr> s2)"

definition test_mock_blk_teardown :: "mock_storage \<Rightarrow> mock_storage" where
  "test_mock_blk_teardown s =
     (let s1 = fold mock_drop [0..<mock_blk_count (drives s)] s;
          s2 = s1\<lparr>drives := (drives s1)\<lparr>mock_blk_count := 0\<rparr>\<rparr> in
      anx_blk_set_active None s2)"

definition test_mock_blk_init :: "u64 \<Rightarrow> mock_storage \<Rightarrow> mock_storage" where
  "test_mock_blk_init sectors s = snd (test_mock_blk_add sectors (test_mock_blk_teardown s))"

subsection \<open>The drives meet the contract\<close>

definition mock_repr :: "nat set \<Rightarrow> mock_storage \<Rightarrow> (nat \<Rightarrow> nat \<Rightarrow> sector) \<Rightarrow> bool" where
  "mock_repr D s C \<longleftrightarrow>
     (\<forall>d\<in>D. bd_used (dev_at s d) \<and> bd_ops (dev_at s d) = Some OpsDriver
        \<and> (\<exists>p. mk_mem (mock_of s d) = Some p \<and> p < length (mock_blk_pool (drives s))
             \<and> unat (mk_sectors (mock_of s d)) \<le> length (mock_blk_pool (drives s) ! p)
             \<and> (\<forall>k<length (mock_blk_pool (drives s) ! p). C d k = mock_blk_pool (drives s) ! p ! k)))
     \<and> (\<forall>d\<in>D. \<forall>e\<in>D. mk_mem (mock_of s d) = mk_mem (mock_of s e) \<longrightarrow> d = e)"

abbreviation mock_io :: "nat \<Rightarrow> mock_storage blk_io" where
  "mock_io n \<equiv> blk_io_of (blk_tab_of mock_blk_ops n)"

lemma blk_tab_of_driver [simp]: "blk_tab_of drv n OpsDriver = drv"
  by (cases n) simp_all

lemma mock_io_driver:
  assumes "mock_repr D s C" "d \<in> D"
  shows "io_read (mock_io n) d lba c s = (if c = 0 then ((ANX_OK, []), s) else mock_blk_read d lba c s)"
    "io_write (mock_io n) d lba c b s = (if c = 0 then (ANX_OK, s) else mock_blk_write d lba c b s)"
    "io_capacity (mock_io n) d s = mock_blk_capacity d s"
  using assms by (simp_all add: mock_repr_def blk_io_of_def anx_blk_dev_read_def anx_blk_dev_write_def
    anx_blk_dev_capacity_def mock_blk_ops_def)

lemma mock_read_contract:
  assumes r: "mock_repr D s C" and d: "d \<in> D" and "unat lba + unat n < 2 ^ 64" "mock_blk_read d lba n s = ((r, data), t)"
  shows "r \<le> ANX_OK \<and> t = s \<and> (r = ANX_OK \<longrightarrow> data = map (C d) [unat lba..<unat lba + unat n])"
proof -
  obtain p where p: "mk_mem (mock_of s d) = Some p" "p < length (mock_blk_pool (drives s))"
    "unat (mk_sectors (mock_of s d)) \<le> length (mock_blk_pool (drives s) ! p)"
    "\<forall>k<length (mock_blk_pool (drives s) ! p). C d k = mock_blk_pool (drives s) ! p ! k"
    using r d unfolding mock_repr_def by blast
  show ?thesis
  proof (cases "lba + ucast n > mk_sectors (mock_of s d)")
    case True
    then show ?thesis using assms(4) p(1) by (auto simp: mock_blk_read_def)
  next
    case False
    have "unat lba + unat n \<le> length (mock_blk_pool (drives s) ! p)"
      using add_range [OF assms(3) False] p(3) by simp
    then have "take (unat n) (drop (unat lba) (mock_blk_pool (drives s) ! p)) = map (C d) [unat lba..<unat lba + unat n]"
      using p(4) by (intro nth_equalityI) auto
    then show ?thesis using assms(4) p(1) False by (auto simp: mock_blk_read_def)
  qed
qed

lemma mock_write_contract:
  assumes r: "mock_repr D s C" and d: "d \<in> D" and "unat lba + unat n < 2 ^ 64" "length buf = unat n"
    "mock_blk_write d lba n buf s = (r, t)"
  shows "r \<le> ANX_OK \<and> md_arrays t = md_arrays s \<and> blk_devs t = blk_devs s \<and> mock_blks (drives t) = mock_blks (drives s)
    \<and> (\<exists>c. mock_repr D t (C(d := c)) \<and> (\<forall>k. k < unat lba \<or> unat lba + unat n \<le> k \<longrightarrow> c k = C d k)
          \<and> (r = ANX_OK \<longrightarrow> c = upd_sectors (C d) (unat lba) buf))"
proof -
  obtain p where p: "mk_mem (mock_of s d) = Some p" "p < length (mock_blk_pool (drives s))"
    "unat (mk_sectors (mock_of s d)) \<le> length (mock_blk_pool (drives s) ! p)"
    "\<forall>k<length (mock_blk_pool (drives s) ! p). C d k = mock_blk_pool (drives s) ! p ! k"
    using r d unfolding mock_repr_def by blast
  show ?thesis
  proof (cases "lba + ucast n > mk_sectors (mock_of s d)")
    case True
    then have "t = s" "r = ANX_EIO" using assms(5) p(1) by (auto simp: mock_blk_write_def)
    then show ?thesis using r by (auto intro!: exI [of _ "C d"])
  next
    case False
    let ?pool = "mock_blk_pool (drives s)"
    let ?mem = "take (unat lba) (?pool ! p) @ buf @ drop (unat lba + unat n) (?pool ! p)"
    let ?c = "upd_sectors (C d) (unat lba) buf"
    have t: "r = ANX_OK" "t = s\<lparr>drives := (drives s)\<lparr>mock_blk_pool := ?pool[p := ?mem]\<rparr>\<rparr>"
      using assms(4,5) p(1) False by (auto simp: mock_blk_write_def Let_def)
    have le: "unat lba + unat n \<le> length (?pool ! p)" using add_range [OF assms(3) False] p(3) by simp
    then have len: "length ?mem = length (?pool ! p)" using assms(4) by simp
    have mem: "?mem ! k = ?c k" if "k < length (?pool ! p)" for k
      using that le assms(4) p(4) by (auto simp: upd_sectors_def nth_append)
    have other: "mk_mem (mock_of s e) \<noteq> Some p" if "e \<in> D" "e \<noteq> d" for e
      using r that d p(1) unfolding mock_repr_def by metis
    have "mock_repr D t (C(d := ?c))"
      unfolding mock_repr_def
    proof (intro conjI ballI)
      fix e assume e: "e \<in> D"
      show "bd_used (dev_at t e)" "bd_ops (dev_at t e) = Some OpsDriver"
        using r e unfolding mock_repr_def t by simp_all
      obtain q where q: "mk_mem (mock_of s e) = Some q" "q < length ?pool" "unat (mk_sectors (mock_of s e)) \<le> length (?pool ! q)"
        "\<forall>k<length (?pool ! q). C e k = ?pool ! q ! k"
        using r e unfolding mock_repr_def by blast
      show "\<exists>q. mk_mem (mock_of t e) = Some q \<and> q < length (mock_blk_pool (drives t))
             \<and> unat (mk_sectors (mock_of t e)) \<le> length (mock_blk_pool (drives t) ! q)
             \<and> (\<forall>k<length (mock_blk_pool (drives t) ! q). (C(d := ?c)) e k = mock_blk_pool (drives t) ! q ! k)"
      proof (cases "e = d")
        case True
        then have "q = p" using q(1) p(1) by simp
        then show ?thesis using True q len mem unfolding t by simp
      next
        case False
        then have "q \<noteq> p" using other [OF e] q(1) by auto
        then show ?thesis using False q unfolding t by simp
      qed
    next
      fix e f assume "e \<in> D" "f \<in> D"
      then show "mk_mem (mock_of t e) = mk_mem (mock_of t f) \<longrightarrow> e = f"
        using r unfolding mock_repr_def t by simp
    qed
    moreover have "\<forall>k. k < unat lba \<or> unat lba + unat n \<le> k \<longrightarrow> ?c k = C d k"
      using assms(4) by (auto simp: upd_sectors_def)
    ultimately show ?thesis using t by auto
  qed
qed

lemma mock_repr_fields:
  "blk_devs t = blk_devs s \<Longrightarrow> drives t = drives s \<Longrightarrow> mock_repr D s C \<Longrightarrow> mock_repr D t C"
  by (simp add: mock_repr_def)

lemma mock_capacity_eq:
  assumes "mock_repr D s C" "mock_repr D t C'" "e \<in> D" "blk_devs t = blk_devs s" "mock_blks (drives t) = mock_blks (drives s)"
  shows "io_capacity (mock_io n) e t = io_capacity (mock_io n) e s"
  using assms by (simp add: mock_io_driver(3) mock_blk_capacity_def)

interpretation mock: block_devs "mock_io n" D "mock_repr D" for n D
proof
  fix s C d lba c r data t
  assume *: "mock_repr D s C" "d \<in> D" "unat lba + unat c < 2 ^ 64" "io_read (mock_io n) d lba c s = ((r, data), t)"
  show "r \<le> ANX_OK \<and> mock_repr D t C \<and> md_arrays t = md_arrays s \<and> (\<forall>e\<in>D. io_capacity (mock_io n) e t = io_capacity (mock_io n) e s)
      \<and> (r = ANX_OK \<longrightarrow> data = map (C d) [unat lba..<unat lba + unat c])"
  proof (cases "c = 0")
    case True
    then show ?thesis using * by (auto simp: mock_io_driver(1) [OF *(1,2)])
  next
    case False
    then show ?thesis using mock_read_contract [OF *(1-3), of r data t] * by (auto simp: mock_io_driver(1) [OF *(1,2)])
  qed
next
  fix s C d lba c buf r t
  assume *: "mock_repr D s C" "d \<in> D" "unat lba + unat c < 2 ^ 64" "length buf = unat c"
    "io_write (mock_io n) d lba c buf s = (r, t)"
  show "r \<le> ANX_OK \<and> md_arrays t = md_arrays s \<and> (\<forall>e\<in>D. io_capacity (mock_io n) e t = io_capacity (mock_io n) e s)
      \<and> (\<exists>c'. mock_repr D t (C(d := c')) \<and> (\<forall>k. k < unat lba \<or> unat lba + unat c \<le> k \<longrightarrow> c' k = C d k)
          \<and> (r = ANX_OK \<longrightarrow> c' = upd_sectors (C d) (unat lba) buf))"
  proof (cases "c = 0")
    case True
    then have "t = s" "r = ANX_OK" "buf = []" using *(4,5) by (auto simp: mock_io_driver(2) [OF *(1,2)])
    moreover have "upd_sectors (C d) (unat lba) [] = C d" by (auto simp: upd_sectors_def fun_eq_iff)
    ultimately show ?thesis using *(1) by (auto intro!: exI [of _ "C d"])
  next
    case False
    then have "mock_blk_write d lba c buf s = (r, t)" using *(5) by (simp add: mock_io_driver(2) [OF *(1,2)])
    from mock_write_contract [OF *(1-4) this] show ?thesis using mock_capacity_eq [OF *(1)] by blast
  qed
next
  fix s C d as
  assume *: "mock_repr D s C"
  show r: "mock_repr D (s\<lparr>md_arrays := as\<rparr>) C" using * by (rule mock_repr_fields [rotated 2]) simp_all
  assume "d \<in> D"
  then show "io_capacity (mock_io n) d (s\<lparr>md_arrays := as\<rparr>) = io_capacity (mock_io n) d s"
    by (rule mock_capacity_eq [OF * r]) simp_all
qed

subsection \<open>A concrete machine\<close>

text \<open>Three drives of ten sectors and one mirror with its metadata at the end of the members;
  \<open>fl\<close> gives the flags of the drives, \<open>pool\<close> their sectors.\<close>

definition sec_a :: sector where "sec_a = replicate 512 1"

definition sec_b :: sector where "sec_b = replicate 512 2"

definition ex_raid :: "u32 list \<Rightarrow> anx_md_array \<Rightarrow> sector list list \<Rightarrow> mock_storage" where
  "ex_raid fl x pool = \<lparr>blk_devs = map (\<lambda>i. \<lparr>bd_ops = Some OpsDriver, bd_priv = i, bd_name = [], bd_flags = fl ! i,
       bd_used = True\<rparr>) [0, 1, 2] @ replicate 29 blk_dev_null, active_dev = None, part_pool = [], md_arrays = [x],
     drives = \<lparr>mock_blks = map (\<lambda>p. \<lparr>mk_mem = Some p, mk_sectors = 10\<rparr>) [0, 1, 2],
       mock_devs = [Some 0, Some 1, Some 2, None], mock_blk_count = 3, mock_blk_pool = pool\<rparr>\<rparr>"

lemma ex_dev: "d < 3 \<Longrightarrow> blk_devs (ex_raid fl x pool) ! d = \<lparr>bd_ops = Some OpsDriver, bd_priv = d, bd_name = [], bd_flags = fl ! d,
       bd_used = True\<rparr>"
  by (auto simp: ex_raid_def nth_append nth_Cons less_Suc_eq numeral_3_eq_3 numeral_2_eq_2 split: nat.splits)

lemma ex_mock: "d < 3 \<Longrightarrow> mock_blks (drives (ex_raid fl x pool)) ! d = \<lparr>mk_mem = Some d, mk_sectors = 10\<rparr>"
  by (auto simp: ex_raid_def nth_append nth_Cons less_Suc_eq numeral_3_eq_3 numeral_2_eq_2 split: nat.splits)

lemma ex_raid_simps [simp]:
  "md_arrays (ex_raid fl x pool) = [x]" "set_arr 0 y (ex_raid fl x pool) = ex_raid fl y pool"
  "set_memb 0 i m (ex_raid fl x pool) = ex_raid fl (x\<lparr>a_members := (a_members x)[i := m]\<rparr>) pool"
  "mock_blk_pool (drives (ex_raid fl x pool)) = pool"
  "d < 3 \<Longrightarrow> bd_flags (dev_at (ex_raid fl x pool) d) = fl ! d"
  by (simp_all add: ex_raid_def set_arr_def set_memb_def) (auto simp: nth_append nth_Cons less_Suc_eq numeral_3_eq_3 numeral_2_eq_2 split: nat.splits)

lemma ex_claim [simp]:
  assumes "d < 3" "length fl = 3"
  shows "anx_blk_dev_claim d (ex_raid fl x pool) = ex_raid (fl[d := fl ! d OR ANX_BLK_F_MEMBER]) x pool"
proof -
  have "d = 0 \<or> d = 1 \<or> d = 2" "\<exists>a b c. fl = [a, b, c]"
    using assms by (auto simp: length_Suc_conv numeral_3_eq_3)
  then show ?thesis by (auto simp: anx_blk_dev_claim_def set_dev_def ex_raid_def)
qed

lemma ex_io [simp]:
  "d < 3 \<Longrightarrow> io_capacity (mock_io n) d (ex_raid fl x pool) = 10"
  "d < 3 \<Longrightarrow> io_read (mock_io n) d lba c (ex_raid fl x pool) = (if c = 0 then ((ANX_OK, []), ex_raid fl x pool)
     else if lba + ucast c > 10 then ((ANX_EIO, []), ex_raid fl x pool)
     else ((ANX_OK, take (unat c) (drop (unat lba) (pool ! d))), ex_raid fl x pool))"
  "d < 3 \<Longrightarrow> io_write (mock_io n) d lba c b (ex_raid fl x pool) = (if c = 0 then (ANX_OK, ex_raid fl x pool)
     else if lba + ucast c > 10 then (ANX_EIO, ex_raid fl x pool)
     else (ANX_OK, ex_raid fl x (pool[d := take (unat lba) (pool ! d) @ take (unat c) b @ drop (unat lba + unat c) (pool ! d)])))"
  by (simp_all add: blk_io_of_def anx_blk_dev_read_def anx_blk_dev_write_def anx_blk_dev_capacity_def ex_dev ex_mock
    mock_blk_ops_def mock_blk_read_def mock_blk_write_def mock_blk_capacity_def Let_def) (simp add: ex_raid_def)

definition ex_memb :: "nat \<Rightarrow> u32 \<Rightarrow> u64 \<Rightarrow> anx_md_member" where
  "ex_memb d st ev = \<lparr>m_dev = Some d, m_data_offset = 0, m_state = st, m_events = ev\<rparr>"

definition ex_mirror :: "u64 \<Rightarrow> u32 \<Rightarrow> u64 \<Rightarrow> anx_md_member \<Rightarrow> anx_md_member \<Rightarrow> anx_md_member \<Rightarrow> anx_md_array" where
  "ex_mirror ev cur off m0 m1 m2 = \<lparr>a_used = True, a_name = ''md0'', a_uuid = replicate 16 0, a_level = ANX_MD_LEVEL_RAID1,
     a_chunk_sectors = 0, a_member_count = 3, a_member_sectors = 2, a_array_sectors = 2, a_events = ev, a_created = 0,
     a_tail_meta = True, a_read_cursor = cur, a_resync_offset = off,
     a_members = [m0, m1, m2, md_member_null, md_member_null, md_member_null, md_member_null, md_member_null],
     a_bdev = None\<rparr>"

lemmas ex_eval = ex_mirror_def ex_memb_def md_consts anx_md_raid1_read_def upt_rec [of _ "numeral _"]
  anx_md_member_read_def anx_md_member_write_def raid1_readable_def Let_def anx_md_super_sync_def anx_md_super_write_def
  md_super_sector_def ANX_MD_SB_TAIL_BACK_def

lemma ex_raid_inject [simp]: "ex_raid fl x pool = ex_raid fl y pool' \<longleftrightarrow> x = y \<and> pool = pool'"
  by (auto simp: ex_raid_def)

definition ex_pool :: "sector \<Rightarrow> sector \<Rightarrow> sector \<Rightarrow> sector list" where
  "ex_pool x y q = [x, y, q, [], [], [], [], [], [], []]"

text \<open>The steps of a run: a mirror on drive 0 alone gets drives 1 and 2 as spares, rebuilds one
  sector onto drive 1, loses drive 1 and rebuilds again. The sectors that hold superblocks
  are left open.\<close>

lemma ex_add1: "\<exists>q0 q1. anx_md_add (mock_io n) 0 1 (ex_raid [2, 0, 0] (ex_mirror 1 0 0 (ex_memb 0 ANX_MD_MEMBER_ACTIVE 1)
     md_member_null md_member_null) [ex_pool sec_a sec_a p0, ex_pool sec_b sec_b p1, ex_pool sec_b sec_b p2])
   = (ANX_OK, ex_raid [2, 2, 0] (ex_mirror 2 0 0 (ex_memb 0 ANX_MD_MEMBER_ACTIVE 2) (ex_memb 1 ANX_MD_MEMBER_SPARE 2) md_member_null)
     [ex_pool sec_a sec_a q0, ex_pool sec_b sec_b q1, ex_pool sec_b sec_b p2])"
  by (simp add: anx_md_add_def anx_blk_dev_is_member_def ANX_BLK_F_MEMBER_def ANX_BLK_F_ARRAY_def ex_eval
    md_member_null_def md_usable_def ex_pool_def)

lemma ex_add2: "\<exists>q0 q1 q2. anx_md_add (mock_io n) 0 2 (ex_raid [2, 2, 0] (ex_mirror 2 0 0 (ex_memb 0 ANX_MD_MEMBER_ACTIVE 2)
     (ex_memb 1 ANX_MD_MEMBER_SPARE 2) md_member_null) [ex_pool sec_a sec_a p0, ex_pool sec_b sec_b p1, ex_pool sec_b sec_b p2])
   = (ANX_OK, ex_raid [2, 2, 2] (ex_mirror 3 0 0 (ex_memb 0 ANX_MD_MEMBER_ACTIVE 3) (ex_memb 1 ANX_MD_MEMBER_SPARE 3)
       (ex_memb 2 ANX_MD_MEMBER_SPARE 3)) [ex_pool sec_a sec_a q0, ex_pool sec_b sec_b q1, ex_pool sec_b sec_b q2])"
  by (simp add: anx_md_add_def anx_blk_dev_is_member_def ANX_BLK_F_MEMBER_def ANX_BLK_F_ARRAY_def ex_eval
    md_member_null_def md_usable_def ex_pool_def)

lemma ex_step: "anx_md_resync_step (mock_io n) 0 1 (ex_raid fl (ex_mirror 3 0 0 (ex_memb 0 ANX_MD_MEMBER_ACTIVE 3)
     (ex_memb 1 ANX_MD_MEMBER_SPARE 3) (ex_memb 2 ANX_MD_MEMBER_SPARE 3)) [ex_pool sec_a sec_a p0, ex_pool sec_b sec_b p1, ex_pool sec_b sec_b p2])
   = (1, ex_raid fl (ex_mirror 3 1 1 (ex_memb 0 ANX_MD_MEMBER_ACTIVE 3) (ex_memb 1 ANX_MD_MEMBER_SPARE 3)
       (ex_memb 2 ANX_MD_MEMBER_SPARE 3)) [ex_pool sec_a sec_a p0, ex_pool sec_a sec_b p1, ex_pool sec_b sec_b p2])"
  by (simp add: anx_md_resync_step_def raid1_spare_def ANX_MD_MAX_MEMBERS_def RAID1_RESYNC_CHUNK_def ex_eval ex_pool_def word_le_nat_alt)

lemma ex_fail: "\<exists>q0 q1 q2. anx_md_fail (mock_io n) 0 1 (ex_raid fl (ex_mirror 3 1 1 (ex_memb 0 ANX_MD_MEMBER_ACTIVE 3)
     (ex_memb 1 ANX_MD_MEMBER_SPARE 3) (ex_memb 2 ANX_MD_MEMBER_SPARE 3)) [ex_pool sec_a sec_a p0, ex_pool sec_a sec_b p1, ex_pool sec_b sec_b p2])
   = (ANX_OK, ex_raid fl (ex_mirror 4 1 1 (ex_memb 0 ANX_MD_MEMBER_ACTIVE 4) (ex_memb 1 ANX_MD_MEMBER_FAULTY 4)
       (ex_memb 2 ANX_MD_MEMBER_SPARE 4)) [ex_pool sec_a sec_a q0, ex_pool sec_a sec_b q1, ex_pool sec_b sec_b q2])"
  by (simp add: anx_md_fail_def anx_md_member_fault_def ex_eval ex_pool_def)

lemma ex_last_step: "\<exists>q0 q1 q2. anx_md_resync_step (mock_io n) 0 0 (ex_raid fl (ex_mirror 4 1 1 (ex_memb 0 ANX_MD_MEMBER_ACTIVE 4)
     (ex_memb 1 ANX_MD_MEMBER_FAULTY 4) (ex_memb 2 ANX_MD_MEMBER_SPARE 4)) [ex_pool sec_a sec_a p0, ex_pool sec_a sec_b p1, ex_pool sec_b sec_b p2])
   = (1, ex_raid fl (ex_mirror 5 1 2 (ex_memb 0 ANX_MD_MEMBER_ACTIVE 5) (ex_memb 1 ANX_MD_MEMBER_FAULTY 5)
       (ex_memb 2 ANX_MD_MEMBER_ACTIVE 5)) [ex_pool sec_a sec_a q0, ex_pool sec_a sec_b q1, ex_pool sec_b sec_a q2])"
  by (simp add: anx_md_resync_step_def raid1_spare_def ANX_MD_MAX_MEMBERS_def RAID1_RESYNC_CHUNK_def ex_eval ex_pool_def word_le_nat_alt)

lemma ex_spare_of: "raid1_spare (ex_raid fl (ex_mirror ev cur off (ex_memb 0 ANX_MD_MEMBER_ACTIVE e0) (ex_memb 1 ANX_MD_MEMBER_FAULTY e1)
     (ex_memb 2 st e2)) pool) 0 = (if st = ANX_MD_MEMBER_SPARE then 2 else ANX_MD_MAX_MEMBERS)"
  by (simp add: raid1_spare_def ex_eval)

lemma ex_read: "fst (md_read (mock_io n) 0 0 1 (ex_raid fl (ex_mirror 1 0 0 (ex_memb 0 ANX_MD_MEMBER_ACTIVE 1)
     md_member_null md_member_null) [ex_pool sec_a sec_a q, p1, p2])) = (ANX_OK, [sec_a])"
  "fst (md_read (mock_io n) 0 0 1 (ex_raid fl (ex_mirror 5 1 2 (ex_memb 0 ANX_MD_MEMBER_ACTIVE 5)
     (ex_memb 1 ANX_MD_MEMBER_FAULTY 5) (ex_memb 2 ANX_MD_MEMBER_ACTIVE 5)) [p0, p1, ex_pool sec_b sec_a q])) = (ANX_OK, [sec_b])"
  by (simp_all add: md_read_def ex_eval ex_pool_def)

definition ex_degraded :: mock_storage where
  "ex_degraded = ex_raid [2, 0, 0] (ex_mirror 1 0 0 (ex_memb 0 ANX_MD_MEMBER_ACTIVE 1) md_member_null md_member_null)
     [ex_pool sec_a sec_a [], ex_pool sec_b sec_b [], ex_pool sec_b sec_b []]"

lemma sec_neq: "sec_a \<noteq> sec_b"
  by (simp add: sec_a_def sec_b_def)


subsection \<open>Properties of the RAID levels\<close>

text \<open>C2: An array of block devices is a block device. Over any member devices that keep
  what is written to them, and whatever member requests fail on the way, a read that succeeds
  after a write that succeeded returns the data written, for a striped array and for a mirror
  alike; a read of other sectors returns what they held before the write, even if that write failed.\<close>

theorem raid_read_after_write:
  assumes "block_devs io D repr" "md_holds io D repr a s c"
    and "unat lba + unat n < 2 ^ 64" "length buf = unat n" "md_write io a lba n buf s = (r, t)"
    and "unat lba' + unat n' < 2 ^ 64" "md_read io a lba' n' t = ((ANX_OK, data), u)"
  shows "(r = ANX_OK \<and> lba' = lba \<and> n' = n \<longrightarrow> data = buf)
    \<and> (unat lba' + unat n' \<le> unat lba \<or> unat lba + unat n \<le> unat lba' \<longrightarrow> data = map c [unat lba'..<unat lba' + unat n'])"
  by (rule block_devs.array_rw [OF assms])

text \<open>C4: A mirror survives the loss of members. As long as one active member's drive
  serves the request, a read of the mirror inside the array succeeds and returns the contents,
  however the drives of the other members behave; the members that failed are marked faulty.\<close>

theorem raid1_read_survives:
  assumes "block_devs io D repr" "raid1_holds io D repr a s c"
    and "unat lba + unat n \<le> unat (a_array_sectors (arr s a))"
    and "j < mcount s a" "raid1_readable s a j" "m_dev (memb s a j) = Some d"
    and "unat (a_read_cursor (arr s a)) < mcount s a"
    and "\<And>t C. repr t C \<Longrightarrow> io_capacity io d t = io_capacity io d s \<Longrightarrow>
       fst (fst (io_read io d (m_data_offset (memb s a j) + lba) n t)) = ANX_OK"
  shows "\<exists>t. md_read io a lba n s = ((ANX_OK, map c [unat lba..<unat lba + unat n]), t) \<and> raid1_holds io D repr a t c"
  by (rule block_devs.raid1_read_live [OF assms])

text \<open>C3: A rebuild terminates and is sound. With one spare, the loop of
  \<open>anx_md_resync\<close> returns within as many passes as the members have sectors, the contents of the mirror are
  unchanged, and success means that the spare is active and holds the contents; an error
  leaves a mirror that still holds them.\<close>

theorem raid1_rebuild_completes:
  assumes "block_devs io D repr" "raid1_holds io D repr a s c" "sole_spare s a p"
    and "a_resync_offset (arr s a) < a_member_sectors (arr s a)" "unat (a_member_sectors (arr s a)) < fuel"
  shows "\<exists>r t. anx_md_resync io a fuel s = Some (r, t) \<and> raid1_holds io D repr a t c \<and> r \<le> ANX_OK
    \<and> (r = ANX_OK \<longrightarrow> raid1_readable t a p \<and> (\<forall>i. \<not> is_spare t a i))"
  using block_devs.resync_holds [OF assms] by (auto simp: raid1_readable_def)

text \<open>C19: With two spares a rebuild can serve stale data. Starting from a mirror that runs on
  one drive, two drives are added, a rebuild copies one sector to the first, the first is
  failed, and a second rebuild finishes on the other drive from the offset the first had reached. It
  reports success, and a read of the first sector then returns what the added drive held
  before, not the contents of the array.\<close>

theorem rebuild_second_spare_stale:
  "\<exists>s1 s2 s3 s4 s5. anx_md_add (mock_io n) 0 1 ex_degraded = (ANX_OK, s1) \<and> anx_md_add (mock_io n) 0 2 s1 = (ANX_OK, s2)
     \<and> anx_md_resync_step (mock_io n) 0 1 s2 = (1, s3) \<and> anx_md_fail (mock_io n) 0 1 s3 = (ANX_OK, s4)
     \<and> anx_md_resync (mock_io n) 0 2 s4 = Some (ANX_OK, s5)
     \<and> fst (md_read (mock_io n) 0 0 1 ex_degraded) = (ANX_OK, [sec_a]) \<and> fst (md_read (mock_io n) 0 0 1 s5) = (ANX_OK, [sec_b])
     \<and> sec_a \<noteq> sec_b"
proof -
  obtain p0 p1 p2 s2 where 2: "s2 = ex_raid [2, 2, 2] (ex_mirror 3 0 0 (ex_memb 0 ANX_MD_MEMBER_ACTIVE 3) (ex_memb 1 ANX_MD_MEMBER_SPARE 3)
       (ex_memb 2 ANX_MD_MEMBER_SPARE 3)) [ex_pool sec_a sec_a p0, ex_pool sec_b sec_b p1, ex_pool sec_b sec_b p2]"
    "\<exists>s1. anx_md_add (mock_io n) 0 1 ex_degraded = (ANX_OK, s1) \<and> anx_md_add (mock_io n) 0 2 s1 = (ANX_OK, s2)"
    unfolding ex_degraded_def using ex_add1 [of n "[]" "[]" "[]"] ex_add2 by metis
  note 3 = ex_step [of n "[2, 2, 2]" p0 p1 p2, folded 2(1)]
  obtain q0 q1 q2 where 4: "anx_md_fail (mock_io n) 0 1 (ex_raid [2, 2, 2] (ex_mirror 3 1 1 (ex_memb 0 ANX_MD_MEMBER_ACTIVE 3)
       (ex_memb 1 ANX_MD_MEMBER_SPARE 3) (ex_memb 2 ANX_MD_MEMBER_SPARE 3)) [ex_pool sec_a sec_a p0, ex_pool sec_a sec_b p1, ex_pool sec_b sec_b p2])
     = (ANX_OK, ex_raid [2, 2, 2] (ex_mirror 4 1 1 (ex_memb 0 ANX_MD_MEMBER_ACTIVE 4) (ex_memb 1 ANX_MD_MEMBER_FAULTY 4)
       (ex_memb 2 ANX_MD_MEMBER_SPARE 4)) [ex_pool sec_a sec_a q0, ex_pool sec_a sec_b q1, ex_pool sec_b sec_b q2])" (is "_ = (_, ?s4)")
    using ex_fail by blast
  obtain r0 r1 r2 where 5: "anx_md_resync_step (mock_io n) 0 0 ?s4
     = (1, ex_raid [2, 2, 2] (ex_mirror 5 1 2 (ex_memb 0 ANX_MD_MEMBER_ACTIVE 5) (ex_memb 1 ANX_MD_MEMBER_FAULTY 5)
       (ex_memb 2 ANX_MD_MEMBER_ACTIVE 5)) [ex_pool sec_a sec_a r0, ex_pool sec_a sec_b r1, ex_pool sec_b sec_a r2])" (is "_ = (_, ?s5)")
    using ex_last_step by blast
  have sp: "raid1_spare ?s4 0 = 2" "raid1_spare ?s5 0 = ANX_MD_MAX_MEMBERS" "(2 = ANX_MD_MAX_MEMBERS) = False"
    by (simp_all only: ex_spare_of) (simp_all add: md_consts ANX_MD_MAX_MEMBERS_def)
  have lev: "a_used (arr ?s4 0)" "a_level (arr ?s4 0) = ANX_MD_LEVEL_RAID1" by (simp_all add: ex_mirror_def)
  have "anx_md_resync (mock_io n) 0 (Suc (Suc 0)) ?s4 = Some (ANX_OK, ?s5)"
  proof -
    define s4 s5 where "s4 = ?s4" and "s5 = ?s5"
    have "resync_loop (mock_io n) 0 (Suc 0) s5 = Some (ANX_OK, s5)" using sp(2) by (simp add: s5_def del: One_nat_def)
    then have "resync_loop (mock_io n) 0 (Suc (Suc 0)) s4 = Some (ANX_OK, s5)"
      using sp(1,3) 5 unfolding s4_def [symmetric] s5_def [symmetric] by simp
    then show ?thesis using lev sp(1,3) unfolding s4_def [symmetric] s5_def [symmetric] anx_md_resync_def by simp
  qed
  then show ?thesis using 2(2) 3 4 ex_read sec_neq unfolding ex_degraded_def numeral_2_eq_2 by blast
qed

subsection \<open>The hypotheses hold for arrays on the harness drives\<close>

lemma ex_memb_simps [simp]:
  "m_dev (ex_memb d st e) = Some d" "m_data_offset (ex_memb d st e) = 0" "m_state (ex_memb d st e) = st"
  by (simp_all add: ex_memb_def)

lemma ex_mirror_memb:
  "i < 3 \<Longrightarrow> a_members (ex_mirror ev cur off (ex_memb 0 st0 e) (ex_memb 1 st1 e) (ex_memb 2 st2 e)) ! i
     = ex_memb i (if i = 0 then st0 else if i = 1 then st1 else st2) e"
  by (auto simp: ex_mirror_def less_Suc_eq numeral_3_eq_3 numeral_2_eq_2)

lemma ex_geom: "geom (mock_io n) {0, 1, 2} 0 (ex_raid fl (ex_mirror ev cur off (ex_memb 0 st0 e) (ex_memb 1 st1 e) (ex_memb 2 st2 e)) pool)"
proof -
  have "unat (a_member_count (ex_mirror ev cur off m0 m1 m2)) = 3" for m0 m1 m2 by (simp add: ex_mirror_def)
  moreover have "md_super_sector (mock_io n) d True (ex_raid fl x pool) = Inr 2" if "d < 3" for d x
    using that by (simp add: md_super_sector_def Let_def ANX_MD_SB_TAIL_BACK_def)
  moreover have "a_tail_meta (ex_mirror ev cur off m0 m1 m2)" "a_used (ex_mirror ev cur off m0 m1 m2)"
    "length (a_members (ex_mirror ev cur off m0 m1 m2)) = 8" "a_member_sectors (ex_mirror ev cur off m0 m1 m2) = 2" for m0 m1 m2
    by (simp_all add: ex_mirror_def)
  ultimately show ?thesis
    unfolding geom_def by (auto simp: ex_mirror_memb ANX_MD_MAX_MEMBERS_def simp del: One_nat_def)
qed

lemma ex_repr:
  assumes "length p0 = 10" "length p1 = 10" "length p2 = 10"
  shows "mock_repr {0, 1, 2} (ex_raid fl x [p0, p1, p2]) (\<lambda>d k. [p0, p1, p2] ! d ! k)"
  unfolding mock_repr_def by (simp add: ex_dev ex_mock assms)

lemma ex_holds:
  assumes "st0 = ANX_MD_MEMBER_ACTIVE" "st1 = ANX_MD_MEMBER_ACTIVE \<or> (st1 = ANX_MD_MEMBER_SPARE \<and> off = 0)"
    "st2 = ANX_MD_MEMBER_ACTIVE" "st1 = ANX_MD_MEMBER_ACTIVE \<Longrightarrow> x = sec_a \<and> y = sec_a"
  shows "raid1_holds (mock_io n) {0, 1, 2} (mock_repr {0, 1, 2}) 0
     (ex_raid fl (ex_mirror 1 0 off (ex_memb 0 st0 1) (ex_memb 1 st1 1) (ex_memb 2 st2 1))
       [ex_pool sec_a sec_a [], ex_pool x y [], ex_pool sec_a sec_a []]) (\<lambda>_. sec_a)"
proof -
  let ?C = "\<lambda>d k. [ex_pool sec_a sec_a [], ex_pool x y [], ex_pool sec_a sec_a []] ! d ! k"
  let ?x = "ex_mirror 1 0 off (ex_memb 0 st0 1) (ex_memb 1 st1 1) (ex_memb 2 st2 1)"
  have n: "unat (a_member_count ?x) = 3" "unat (a_member_sectors ?x) = 2" "a_resync_offset ?x = off" by (simp_all add: ex_mirror_def)
  have md: "mdata ?x ?C i k = ?C i k" if "i < 3" for i k
    using that by (simp add: mdata_def ex_mirror_memb del: One_nat_def)
  have dat: "?C i k = sec_a" if "i < 3" "k < 2" "i = 1 \<longrightarrow> x = sec_a \<and> y = sec_a" for i k
    using that by (auto simp: less_Suc_eq numeral_3_eq_3 numeral_2_eq_2 ex_pool_def)
  have "mirror_at ?x ?C (\<lambda>_ _. sec_a)"
    unfolding mirror_at_def n
  proof (intro allI impI conjI)
    fix i k :: nat assume i: "i < 3" "k < 2" "m_state (a_members ?x ! i) = ANX_MD_MEMBER_ACTIVE"
    then have "i = 1 \<longrightarrow> x = sec_a \<and> y = sec_a" using assms(4) by (auto simp: ex_mirror_memb simp del: One_nat_def)
    then show "mdata ?x ?C i k = sec_a" using dat i md by simp
  next
    fix i k assume i: "i < 3" "m_state (a_members ?x ! i) = ANX_MD_MEMBER_SPARE" "k < unat off"
    then have "st1 = ANX_MD_MEMBER_SPARE"
      using assms(1,3) md_states_distinct by (auto simp: ex_mirror_memb simp del: One_nat_def split: if_splits)
    then show "mdata ?x ?C i k = sec_a" using assms(2) i(3) md_states_distinct by auto
  qed
  moreover have "mock_repr {0, 1, 2} (ex_raid fl ?x [ex_pool sec_a sec_a [], ex_pool x y [], ex_pool sec_a sec_a []]) ?C"
    by (rule ex_repr) (simp_all add: ex_pool_def)
  ultimately show ?thesis unfolding raid1_holds_def using ex_geom by (auto simp: ex_mirror_def)
qed

definition ex_clean :: mock_storage where
  "ex_clean = ex_raid [2, 2, 2] (ex_mirror 1 0 0 (ex_memb 0 ANX_MD_MEMBER_ACTIVE 1) (ex_memb 1 ANX_MD_MEMBER_ACTIVE 1)
     (ex_memb 2 ANX_MD_MEMBER_ACTIVE 1)) [ex_pool sec_a sec_a [], ex_pool sec_a sec_a [], ex_pool sec_a sec_a []]"

lemma ex_clean_holds: "raid1_holds (mock_io n) {0, 1, 2} (mock_repr {0, 1, 2}) 0 ex_clean (\<lambda>_. sec_a)"
  unfolding ex_clean_def by (rule ex_holds) simp_all

lemma ex_clean_write:
  obtains t u data where "md_write (mock_io n) 0 1 1 [sec_b] ex_clean = (ANX_OK, t)"
    "md_read (mock_io n) 0 1 1 t = ((ANX_OK, data), u)"
proof -
  have "\<exists>t u data. md_write (mock_io n) 0 1 1 [sec_b] ex_clean = (ANX_OK, t) \<and> md_read (mock_io n) 0 1 1 t = ((ANX_OK, data), u)"
    by (simp add: ex_clean_def md_write_def md_read_def anx_md_raid1_write_def ex_eval ex_pool_def)
  then show thesis using that by blast
qed

theorem raid_read_after_write_witness:
  "\<exists>t u. md_write (mock_io 0) 0 1 1 [sec_b] ex_clean = (ANX_OK, t) \<and> md_read (mock_io 0) 0 1 1 t = ((ANX_OK, [sec_b]), u)"
proof -
  obtain t u data where *: "md_write (mock_io 0) 0 1 1 [sec_b] ex_clean = (ANX_OK, t)"
    "md_read (mock_io 0) 0 1 1 t = ((ANX_OK, data), u)" by (rule ex_clean_write)
  have "md_holds (mock_io 0) {0, 1, 2} (mock_repr {0, 1, 2}) 0 ex_clean (\<lambda>_. sec_a)"
    using ex_clean_holds by (simp add: md_holds_def)
  from raid_read_after_write [OF mock.block_devs_axioms this _ _ *(1) _ *(2)] have "data = [sec_b]" by simp
  then show ?thesis using * by blast
qed

theorem raid1_read_survives_witness:
  "\<exists>t. md_read (mock_io 0) 0 0 2 ex_clean = ((ANX_OK, [sec_a, sec_a]), t)"
proof -
  have n: "unat (a_array_sectors (arr ex_clean 0)) = 2" "mcount ex_clean 0 = 3" "unat (a_read_cursor (arr ex_clean 0)) = 0"
    "memb ex_clean 0 1 = ex_memb 1 ANX_MD_MEMBER_ACTIVE 1"
    by (simp_all add: ex_clean_def ex_mirror_def)
  then have j: "raid1_readable ex_clean 0 1" "m_dev (memb ex_clean 0 1) = Some 1"
    by (simp_all add: raid1_readable_def)
  have sv: "fst (fst (io_read (mock_io 0) 1 (m_data_offset (memb ex_clean 0 1) + 0) 2 t)) = ANX_OK"
    if "mock_repr {0, 1, 2} t C" "io_capacity (mock_io 0) 1 t = io_capacity (mock_io 0) 1 ex_clean" for t C
  proof -
    have "mk_sectors (mock_of t 1) = 10"
      using that(2) mock_io_driver(3) [OF that(1), of 1] by (simp add: mock_blk_capacity_def ex_clean_def)
    moreover have "\<exists>p. mk_mem (mock_of t 1) = Some p" using that(1) unfolding mock_repr_def by blast
    ultimately show ?thesis using n(4) mock_io_driver(1) [OF that(1), of 1]
      by (auto simp: mock_blk_read_def)
  qed
  have "\<exists>t. md_read (mock_io 0) 0 0 2 ex_clean = ((ANX_OK, map (\<lambda>_. sec_a) [unat (0::u64)..<unat (0::u64) + unat (2::u32)]), t)
      \<and> raid1_holds (mock_io 0) {0, 1, 2} (mock_repr {0, 1, 2}) 0 t (\<lambda>_. sec_a)"
    by (rule raid1_read_survives [OF mock.block_devs_axioms ex_clean_holds _ _ j _ sv]) (simp_all add: n)
  then show ?thesis by (auto simp: upt_rec)
qed

definition ex_one_spare :: mock_storage where
  "ex_one_spare = ex_raid [2, 2, 2] (ex_mirror 1 0 0 (ex_memb 0 ANX_MD_MEMBER_ACTIVE 1) (ex_memb 1 ANX_MD_MEMBER_SPARE 1)
     (ex_memb 2 ANX_MD_MEMBER_ACTIVE 1)) [ex_pool sec_a sec_a [], ex_pool sec_b sec_b [], ex_pool sec_a sec_a []]"

theorem raid1_rebuild_completes_witness:
  "\<exists>r t. anx_md_resync (mock_io 0) 0 3 ex_one_spare = Some (r, t)
     \<and> raid1_holds (mock_io 0) {0, 1, 2} (mock_repr {0, 1, 2}) 0 t (\<lambda>_. sec_a)"
proof -
  have h: "raid1_holds (mock_io 0) {0, 1, 2} (mock_repr {0, 1, 2}) 0 ex_one_spare (\<lambda>_. sec_a)"
    unfolding ex_one_spare_def by (rule ex_holds) (simp_all add: md_consts)
  have sole: "sole_spare ex_one_spare 0 1"
  proof -
    have "mcount ex_one_spare 0 = 3" by (simp add: ex_one_spare_def ex_mirror_def)
    moreover have "memb ex_one_spare 0 i = ex_memb i (if i = 1 then ANX_MD_MEMBER_SPARE else ANX_MD_MEMBER_ACTIVE) 1" if "i < 3" for i
      using that by (auto simp: ex_one_spare_def ex_mirror_memb simp del: One_nat_def)
    ultimately show ?thesis using md_states_distinct by (auto simp: sole_spare_def is_spare_def split: if_splits)
  qed
  have "a_resync_offset (arr ex_one_spare 0) < a_member_sectors (arr ex_one_spare 0)"
    "unat (a_member_sectors (arr ex_one_spare 0)) < 3"
    by (simp_all add: ex_one_spare_def ex_mirror_def)
  from raid1_rebuild_completes [OF mock.block_devs_axioms h sole this] show ?thesis by blast
qed

end
