(* ===== verification/Uuid.thy ===== *)
theory Uuid
  imports Prelude
begin

text \<open>
  Identifiers (\<^verbatim>\<open>kernel/lib/uuid.c\<close>, \<^verbatim>\<open>kernel/lib/hashtable.c\<close>): version 7 UUIDs, their order, hash and printed
  form, and the environment that the object-plane theories share: the clock
  (\<open>arch_time_now\<close>), which successive readings give, the allocator, which may refuse any
  request, and the state of the generator.
\<close>

subsection \<open>The environment\<close>

record kenv =
  clock :: "nat \<Rightarrow> u64"
  ticks :: nat
  heap :: "nat \<Rightarrow> bool"
  requests :: nat
  prng_state :: u64

definition arch_time_now :: "'a kenv_scheme \<Rightarrow> u64 \<times> 'a kenv_scheme" where
  "arch_time_now s = (clock s (ticks s), s\<lparr>ticks := ticks s + 1\<rparr>)"

text \<open>\<open>anx_alloc\<close> and \<open>anx_zalloc\<close>: \<open>False\<close> stands for a NULL result.\<close>

definition anx_alloc :: "'a kenv_scheme \<Rightarrow> bool \<times> 'a kenv_scheme" where
  "anx_alloc s = (heap s (requests s), s\<lparr>requests := requests s + 1\<rparr>)"

subsection \<open>UUIDs\<close>

datatype anx_uuid = UUID (uu_hi: u64) (uu_lo: u64)

definition ANX_UUID_NIL :: anx_uuid where "ANX_UUID_NIL = UUID 0 0"

definition anx_uuid_is_nil :: "anx_uuid \<Rightarrow> bool" where
  "anx_uuid_is_nil u \<longleftrightarrow> uu_hi u = 0 \<and> uu_lo u = 0"

definition anx_uuid_compare :: "anx_uuid \<Rightarrow> anx_uuid \<Rightarrow> int" where
  "anx_uuid_compare a b =
     (if uu_hi a \<noteq> uu_hi b then (if uu_hi a < uu_hi b then - 1 else 1)
      else if uu_lo a \<noteq> uu_lo b then (if uu_lo a < uu_lo b then - 1 else 1)
      else 0)"

lemma anx_uuid_is_nil [simp]: "anx_uuid_is_nil u \<longleftrightarrow> u = ANX_UUID_NIL"
  by (cases u) (simp add: anx_uuid_is_nil_def ANX_UUID_NIL_def)

lemma anx_uuid_compare_zero [simp]: "anx_uuid_compare a b = 0 \<longleftrightarrow> a = b"
  by (cases a; cases b) (simp add: anx_uuid_compare_def)

text \<open>The comparison makes identifiers a linear order.\<close>

instantiation anx_uuid :: linorder
begin

definition less_eq_anx_uuid :: "anx_uuid \<Rightarrow> anx_uuid \<Rightarrow> bool" where
  "less_eq_anx_uuid a b \<longleftrightarrow> anx_uuid_compare a b \<le> 0"

definition less_anx_uuid :: "anx_uuid \<Rightarrow> anx_uuid \<Rightarrow> bool" where
  "less_anx_uuid a b \<longleftrightarrow> anx_uuid_compare a b < 0"

instance
proof
  fix a b c :: anx_uuid
  show "a < b \<longleftrightarrow> a \<le> b \<and> \<not> b \<le> a"
    by (cases a; cases b) (auto simp: less_eq_anx_uuid_def less_anx_uuid_def anx_uuid_compare_def)
  show "a \<le> a" by (simp add: less_eq_anx_uuid_def anx_uuid_compare_def)
  show "a \<le> b \<Longrightarrow> b \<le> c \<Longrightarrow> a \<le> c"
    by (cases a; cases b; cases c) (auto simp: less_eq_anx_uuid_def anx_uuid_compare_def split: if_splits)
  show "a \<le> b \<Longrightarrow> b \<le> a \<Longrightarrow> a = b"
    by (cases a; cases b) (auto simp: less_eq_anx_uuid_def anx_uuid_compare_def split: if_splits)
  show "a \<le> b \<or> b \<le> a"
    by (cases a; cases b) (auto simp: less_eq_anx_uuid_def anx_uuid_compare_def)
qed

end

definition anx_hash_u64 :: "u64 \<Rightarrow> u64" where
  "anx_hash_u64 val =
     (let v1 = val XOR drop_bit 33 val; v2 = v1 * 0xff51afd7ed558ccd; v3 = v2 XOR drop_bit 33 v2;
          v4 = v3 * 0xc4ceb9fe1a85ec53 in
      v4 XOR drop_bit 33 v4)"

definition FNV_OFFSET :: u64 where "FNV_OFFSET = 0xcbf29ce484222325"

definition FNV_PRIME :: u64 where "FNV_PRIME = 0x100000001b3"

definition anx_hash_bytes :: "u8 list \<Rightarrow> u64" where
  "anx_hash_bytes bs = fold (\<lambda>b hash. (hash XOR ucast b) * FNV_PRIME) bs FNV_OFFSET"

definition anx_uuid_hash :: "anx_uuid \<Rightarrow> u64" where
  "anx_uuid_hash u = anx_hash_u64 (uu_hi u XOR uu_lo u)"

subsection \<open>Generation\<close>

definition xorshift64 :: "'a kenv_scheme \<Rightarrow> u64 \<times> 'a kenv_scheme" where
  "xorshift64 s =
     (case (if prng_state s = 0 then (case arch_time_now s of (t, s1) \<Rightarrow> (t OR 1, s1)) else (prng_state s, s)) of
        (x0, s1) \<Rightarrow>
          let x1 = x0 XOR push_bit 13 x0; x2 = x1 XOR drop_bit 7 x1; x3 = x2 XOR push_bit 17 x2 in
          (x3, s1\<lparr>prng_state := x3\<rparr>))"

definition anx_uuid_generate :: "'a kenv_scheme \<Rightarrow> anx_uuid \<times> 'a kenv_scheme" where
  "anx_uuid_generate s =
     (case arch_time_now s of (ts_ns, s1) \<Rightarrow>
        let ts_ms = ts_ns div 1000000 in
        case xorshift64 s1 of (rand1, s2) \<Rightarrow>
        case xorshift64 s2 of (rand2, s3) \<Rightarrow>
          (UUID (push_bit 16 ts_ms OR push_bit 12 7 OR (rand1 AND 0xFFF))
                (push_bit 62 2 OR (rand2 AND 0x3FFFFFFFFFFFFFFF)), s3))"

subsection \<open>The printed form\<close>

definition hex :: string where "hex = ''0123456789abcdef''"

text \<open>\<open>put_hex\<close> writes its digits from the last one backwards.\<close>

fun put_hex :: "u64 \<Rightarrow> nat \<Rightarrow> string" where
  "put_hex val 0 = []"
| "put_hex val (Suc n) = put_hex (drop_bit 4 val) n @ [hex ! unat (val AND 0xf)]"

text \<open>\<open>buf\<close> is what the buffer held: a buffer shorter than 37 bytes is left alone.\<close>

definition anx_uuid_to_string :: "anx_uuid \<Rightarrow> nat \<Rightarrow> string \<Rightarrow> string" where
  "anx_uuid_to_string u len buf =
     (if len < 37 then buf
      else put_hex (drop_bit 32 (uu_hi u)) 8 @ ''-'' @ put_hex (drop_bit 16 (uu_hi u)) 4 @ ''-''
        @ put_hex (uu_hi u) 4 @ ''-'' @ put_hex (drop_bit 48 (uu_lo u)) 4 @ ''-'' @ put_hex (uu_lo u) 12)"

subsection \<open>The printed form determines the identifier\<close>

lemma hex_inj: "m < 16 \<Longrightarrow> n < 16 \<Longrightarrow> hex ! m = hex ! n \<Longrightarrow> m = n"
  using nth_eq_iff_index_eq [of hex m n] by (simp add: hex_def)

lemma unat_nibble: "unat (v AND 0xf :: u64) < 16"
proof -
  have "v AND 0xf = take_bit 4 v" by (simp add: take_bit_eq_mask mask_eq_exp_minus_1)
  then show ?thesis using take_bit_nat_less_exp [of 4 "unat v"] by (simp add: unsigned_take_bit_eq)
qed

lemma length_put_hex [simp]: "length (put_hex v n) = n"
  by (induction n arbitrary: v) simp_all

lemma put_hex_inj:
  "put_hex v n = put_hex w n \<Longrightarrow> i < 4 * n \<Longrightarrow> bit v i = bit (w :: u64) i"
proof (induction n arbitrary: v w i)
  case (Suc n)
  have rest: "put_hex (drop_bit 4 v) n = put_hex (drop_bit 4 w) n" and "hex ! unat (v AND 0xf) = hex ! unat (w AND 0xf)"
    using Suc.prems(1) by simp_all
  then have "unat (v AND 0xf) = unat (w AND 0xf)" using hex_inj unat_nibble by blast
  then have low: "v AND 0xf = w AND 0xf" by (simp only: word_unat_eq_iff)
  show ?case
  proof (cases "i < 4")
    case True
    then have "bit (v AND 0xf) i = bit v i" "bit (w AND 0xf) i = bit w i"
      by (auto simp: bit_and_iff less_Suc_eq numeral_eq_Suc)
    then show ?thesis using low by simp
  next
    case False
    then show ?thesis using Suc.IH [OF rest, of "i - 4"] Suc.prems(2) by (simp add: bit_drop_bit_eq)
  qed
qed simp

lemma to_string_parts:
  assumes "anx_uuid_to_string u 37 b = anx_uuid_to_string v 37 c"
  shows "put_hex (drop_bit 32 (uu_hi u)) 8 = put_hex (drop_bit 32 (uu_hi v)) 8"
    "put_hex (drop_bit 16 (uu_hi u)) 4 = put_hex (drop_bit 16 (uu_hi v)) 4" "put_hex (uu_hi u) 4 = put_hex (uu_hi v) 4"
    "put_hex (drop_bit 48 (uu_lo u)) 4 = put_hex (drop_bit 48 (uu_lo v)) 4" "put_hex (uu_lo u) 12 = put_hex (uu_lo v) 12"
  using assms by (auto simp: anx_uuid_to_string_def simp del: put_hex.simps)

lemma bit_64_eqI: "(\<And>i. i < 64 \<Longrightarrow> bit v i = bit w i) \<Longrightarrow> v = (w :: u64)"
  by (rule bit_eqI) (simp add: bit_simps)

subsection \<open>Generated identifiers\<close>

lemma xorshift_ticks: "xorshift64 s = (r, t) \<Longrightarrow> clock t = clock s \<and> ticks s \<le> ticks t"
  by (auto simp: xorshift64_def arch_time_now_def Let_def split: if_splits)

lemma uuid_generate_hi:
  assumes "anx_uuid_generate s = (u, t)"
  shows "\<exists>r. uu_hi u = push_bit 16 (clock s (ticks s) div 1000000) OR push_bit 12 7 OR (r AND 0xFFF)"
    "\<exists>r. uu_lo u = push_bit 62 2 OR (r AND 0x3FFFFFFFFFFFFFFF)"
  using assms by (auto simp: anx_uuid_generate_def arch_time_now_def Let_def split: prod.splits)

lemma bit_masks: "bit (0xFFF :: u64) i \<longleftrightarrow> i < 12" "bit (7 :: u64) i \<longleftrightarrow> i < 3"
  "bit (0x3FFFFFFFFFFFFFFF :: u64) i \<longleftrightarrow> i < 62" "bit (2 :: u64) i \<longleftrightarrow> i = 1"
proof -
  have eq: "(0xFFF :: u64) = mask 12" "(7 :: u64) = mask 3" "(0x3FFFFFFFFFFFFFFF :: u64) = mask 62"
    by (simp_all add: mask_eq_exp_minus_1)
  show "bit (0xFFF :: u64) i \<longleftrightarrow> i < 12" "bit (7 :: u64) i \<longleftrightarrow> i < 3" "bit (0x3FFFFFFFFFFFFFFF :: u64) i \<longleftrightarrow> i < 62"
    unfolding eq bit_mask_iff by (auto simp: possible_bit_def)
  show "bit (2 :: u64) i \<longleftrightarrow> i = 1"
    using bit_exp_iff [where 'a = u64, of 1 i] by (auto simp: possible_bit_def)
qed

lemma bit_hi: "bit (push_bit 16 ts OR push_bit 12 7 OR (r AND 0xFFF) :: u64) i \<longleftrightarrow>
    i < 64 \<and> (16 \<le> i \<and> bit ts (i - 16) \<or> 12 \<le> i \<and> i < 15 \<or> i < 12 \<and> bit r i)"
  by (auto simp only: bit_or_iff bit_and_iff bit_push_bit_iff bit_masks) (auto simp: bit_simps)

lemma bit_lo: "bit (push_bit 62 2 OR (r AND 0x3FFFFFFFFFFFFFFF) :: u64) i \<longleftrightarrow> i = 63 \<or> i < 62 \<and> bit r i"
  by (auto simp only: bit_or_iff bit_and_iff bit_push_bit_iff bit_masks) (auto simp: bit_simps)

lemma uuid_hi_parts:
  fixes ts r :: u64
  defines "h \<equiv> push_bit 16 ts OR push_bit 12 7 OR (r AND 0xFFF)"
  shows "drop_bit 16 h = take_bit 48 ts" "take_bit 4 (drop_bit 12 h) = 7"
proof -
  show "drop_bit 16 h = take_bit 48 ts"
    by (rule bit_64_eqI) (unfold h_def bit_drop_bit_eq bit_take_bit_iff bit_hi o_def, auto)
  show "take_bit 4 (drop_bit 12 h) = 7"
    by (rule bit_64_eqI) (unfold h_def bit_drop_bit_eq bit_take_bit_iff bit_hi bit_masks o_def, auto)
qed

lemma xor_push_nonzero:
  assumes "x \<noteq> (0 :: u64)" "0 < k"
  shows "x XOR push_bit k x \<noteq> 0"
proof
  assume "x XOR push_bit k x = 0"
  then have eq: "x = push_bit k x" by (simp add: bit_eq_iff bit_xor_iff)
  have "\<not> bit x i" for i
  proof (induction i rule: less_induct)
    case (less i)
    show ?case
    proof
      assume "bit x i"
      then have "bit (push_bit k x) i" using eq by simp
      then have "k \<le> i" "bit x (i - k)" by (auto simp: bit_push_bit_iff)
      then show False using less.IH [of "i - k"] assms(2) by simp
    qed
  qed
  then show False using assms(1) by (simp add: bit_eq_iff)
qed

lemma xor_drop_nonzero:
  assumes "x \<noteq> (0 :: u64)" "0 < k"
  shows "x XOR drop_bit k x \<noteq> 0"
proof
  assume "x XOR drop_bit k x = 0"
  then have eq: "x = drop_bit k x" by (simp add: bit_eq_iff bit_xor_iff)
  have "\<not> bit x (64 - j)" if "j \<le> 64" for j
    using that
  proof (induction j rule: less_induct)
    case (less j)
    show ?case
    proof
      assume b: "bit x (64 - j)"
      then have "bit x (64 - j + k)" using eq by (metis add.commute bit_drop_bit_eq comp_apply)
      then have "64 - j + k < 64" by (rule bit_imp_le_length [where 'a = 64, simplified])
      then have "k < j" using less.prems by linarith
      then have "64 - j + k = 64 - (j - k)" using less.prems by linarith
      then show False using less.IH [of "j - k"] \<open>bit x (64 - j + k)\<close> \<open>k < j\<close> less.prems assms(2) by simp
    qed
  qed
  then have "\<not> bit x i" if "i < 64" for i using that [THEN less_imp_le] by (metis diff_diff_cancel diff_le_self)
  then have "x = 0" by (intro bit_64_eqI) simp
  then show False using assms(1) by simp
qed

lemma xorshift_state:
  assumes "xorshift64 s = (r, t)"
  shows "prng_state t = r \<and> r \<noteq> 0"
proof -
  obtain x0 s1 where x0: "(if prng_state s = 0 then (case arch_time_now s of (t, s1) \<Rightarrow> (t OR 1, s1)) else (prng_state s, s)) = (x0, s1)"
    by fastforce
  have "x0 \<noteq> 0"
  proof (cases "prng_state s = 0")
    case True
    then have "bit x0 0" using x0 by (auto simp: arch_time_now_def bit_or_iff)
    then show ?thesis by auto
  next
    case False
    then show ?thesis using x0 by auto
  qed
  then have "x0 XOR push_bit 13 x0 \<noteq> 0" by (rule xor_push_nonzero) simp
  then have "(x0 XOR push_bit 13 x0) XOR drop_bit 7 (x0 XOR push_bit 13 x0) \<noteq> 0" by (rule xor_drop_nonzero) simp
  then have "((x0 XOR push_bit 13 x0) XOR drop_bit 7 (x0 XOR push_bit 13 x0))
      XOR push_bit 17 ((x0 XOR push_bit 13 x0) XOR drop_bit 7 (x0 XOR push_bit 13 x0)) \<noteq> 0"
    by (rule xor_push_nonzero) simp
  moreover have "r = ((x0 XOR push_bit 13 x0) XOR drop_bit 7 (x0 XOR push_bit 13 x0))
      XOR push_bit 17 ((x0 XOR push_bit 13 x0) XOR drop_bit 7 (x0 XOR push_bit 13 x0))" "prng_state t = r"
    using assms unfolding xorshift64_def x0 Let_def by auto
  ultimately show ?thesis by simp
qed

lemma drop_bit_less:
  assumes "drop_bit n x < drop_bit n (y :: u64)"
  shows "x < y"
proof (rule ccontr)
  assume "\<not> x < y"
  then have "unat y div 2 ^ n \<le> unat x div 2 ^ n" by (intro div_le_mono) (simp add: word_less_nat_alt)
  moreover have "unat (drop_bit n z) = unat z div 2 ^ n" for z :: u64
    unfolding unsigned_drop_bit_eq by (simp add: drop_bit_eq_div take_bit_nat_eq_self)
  ultimately show False using assms by (simp add: word_less_nat_alt)
qed

definition ex_env :: kenv where
  "ex_env = \<lparr>clock = (\<lambda>i. of_nat i * 1000000), ticks = 5, heap = (\<lambda>_. True), requests = 0, prng_state = 1\<rparr>"

subsection \<open>Properties\<close>

text \<open>C15: Generated identifiers are version 7 UUIDs that sort by time. Every identifier carries
  the milliseconds of the clock in its top 48 bits, version 7 and the RFC variant; the
  generator never reaches its stuck state 0; and of two identifiers the one generated at the later
  millisecond is greater in the order of \<open>anx_uuid_compare\<close> (until the 48-bit timestamp overflows).\<close>

theorem uuid_generate_v7:
  assumes "anx_uuid_generate s = (u, s')" "anx_uuid_generate t = (v, t')"
  shows "drop_bit 16 (uu_hi u) = take_bit 48 (clock s (ticks s) div 1000000)
    \<and> take_bit 4 (drop_bit 12 (uu_hi u)) = 7 \<and> drop_bit 62 (uu_lo u) = 2 \<and> prng_state s' \<noteq> 0
    \<and> (clock s (ticks s) div 1000000 < clock t (ticks t) div 1000000
        \<and> clock t (ticks t) div 1000000 < 2 ^ 48 \<longrightarrow> anx_uuid_compare u v < 0)"
proof -
  have hi: "drop_bit 16 (uu_hi u) = take_bit 48 (clock s (ticks s) div 1000000)" "take_bit 4 (drop_bit 12 (uu_hi u)) = 7"
    "drop_bit 16 (uu_hi v) = take_bit 48 (clock t (ticks t) div 1000000)"
    using uuid_generate_hi(1) [OF assms(1)] uuid_generate_hi(1) [OF assms(2)] uuid_hi_parts by auto
  have lo: "drop_bit 62 (uu_lo u) = 2"
    using uuid_generate_hi(2) [OF assms(1)]
    by (elim exE) (rule bit_64_eqI, simp only: bit_drop_bit_eq bit_lo bit_masks o_def, auto)
  have prng: "prng_state s' \<noteq> 0"
    using assms(1) xorshift_state by (auto simp: anx_uuid_generate_def Let_def split: prod.splits)
  have "anx_uuid_compare u v < 0" if "clock s (ticks s) div 1000000 < clock t (ticks t) div 1000000"
    "clock t (ticks t) div 1000000 < 2 ^ 48"
  proof -
    have small: "take_bit 48 x = x" if "x < 2 ^ 48" for x :: u64
      using that less_mask_eq [of x 48] by (simp add: take_bit_eq_mask mask_eq_exp_minus_1)
    have "drop_bit 16 (uu_hi u) < drop_bit 16 (uu_hi v)"
      unfolding hi using that small less_trans [OF that] by simp
    then have "uu_hi u < uu_hi v" by (rule drop_bit_less)
    then show ?thesis by (auto simp: anx_uuid_compare_def)
  qed
  then show ?thesis using hi lo prng by blast
qed

theorem uuid_generate_v7_witness:
  "anx_uuid_compare (fst (anx_uuid_generate ex_env)) (fst (anx_uuid_generate (ex_env\<lparr>ticks := 9\<rparr>))) < 0"
proof -
  obtain u s' v t' where *: "anx_uuid_generate ex_env = (u, s')" "anx_uuid_generate (ex_env\<lparr>ticks := 9\<rparr>) = (v, t')" by fastforce
  have "clock ex_env (ticks ex_env) div 1000000 = 5" "clock (ex_env\<lparr>ticks := 9\<rparr>) (ticks (ex_env\<lparr>ticks := 9\<rparr>)) div 1000000 = 9"
    by (simp_all add: ex_env_def)
  then show ?thesis using uuid_generate_v7 [OF *] * by simp
qed

text \<open>C16: The printed form of an identifier determines it: two identifiers that print alike are
  equal, so looking an object up by its full printed identifier cannot confuse two objects.\<close>

theorem uuid_to_string_inj:
  "anx_uuid_to_string u 37 b = anx_uuid_to_string v 37 c \<longleftrightarrow> u = v"
proof
  assume eq: "anx_uuid_to_string u 37 b = anx_uuid_to_string v 37 c"
  note parts = to_string_parts [OF eq]
  have hi: "bit (uu_hi u) i = bit (uu_hi v) i" if "i < 64" for i
  proof -
    consider "i < 16" | "16 \<le> i" "i < 32" | "32 \<le> i" using that by linarith
    then show ?thesis
    proof cases
      case 1 then show ?thesis using put_hex_inj [OF parts(3), of i] by simp
    next
      case 2 then show ?thesis using put_hex_inj [OF parts(2), of "i - 16"] by (simp add: bit_drop_bit_eq)
    next
      case 3 then show ?thesis using put_hex_inj [OF parts(1), of "i - 32"] that by (simp add: bit_drop_bit_eq)
    qed
  qed
  have lo: "bit (uu_lo u) i = bit (uu_lo v) i" if "i < 64" for i
  proof (cases "i < 48")
    case True then show ?thesis using put_hex_inj [OF parts(5), of i] by simp
  next
    case False then show ?thesis using put_hex_inj [OF parts(4), of "i - 48"] that by (simp add: bit_drop_bit_eq)
  qed
  show "u = v" using bit_64_eqI [OF hi] bit_64_eqI [OF lo] by (cases u; cases v) simp
qed (simp add: anx_uuid_to_string_def)

end
