(* ===== verification/DList.thy ===== *)
theory DList
  imports Uuid "HOL-Library.Monad_Syntax"
begin

text \<open>
  The intrusive doubly-linked list of \<^verbatim>\<open>kernel/include/anx/list.h\<close> and the chained hash table of
  \<^verbatim>\<open>kernel/lib/hashtable.c\<close>, at the level of pointers: a heap maps the address of a node to its two
  links, and \<open>None\<close> is the NULL pointer as well as the result of following one. The
  refinement lemmas show that on well-formed rings the pointer operations are the operations
  on lists that the stores of the kernel use.
\<close>

subsection \<open>Lists\<close>

record 'n anx_list_head =
  ln_next :: "'n option"
  ln_prev :: "'n option"

type_synonym 'n list_heap = "'n \<Rightarrow> 'n anx_list_head"

definition set_next :: "'n option \<Rightarrow> 'n option \<Rightarrow> 'n list_heap \<Rightarrow> 'n list_heap option" where
  "set_next p v h = (case p of None \<Rightarrow> None | Some n \<Rightarrow> Some (h(n := (h n)\<lparr>ln_next := v\<rparr>)))"

definition set_prev :: "'n option \<Rightarrow> 'n option \<Rightarrow> 'n list_heap \<Rightarrow> 'n list_heap option" where
  "set_prev p v h = (case p of None \<Rightarrow> None | Some n \<Rightarrow> Some (h(n := (h n)\<lparr>ln_prev := v\<rparr>)))"

definition anx_list_init :: "'n \<Rightarrow> 'n list_heap \<Rightarrow> 'n list_heap" where
  "anx_list_init head h = h(head := \<lparr>ln_next = Some head, ln_prev = Some head\<rparr>)"

definition anx_list_add :: "'n \<Rightarrow> 'n \<Rightarrow> 'n list_heap \<Rightarrow> 'n list_heap option" where
  "anx_list_add entry head h =
     do { h1 \<leftarrow> set_next (Some entry) (ln_next (h head)) h;
          h2 \<leftarrow> set_prev (Some entry) (Some head) h1;
          h3 \<leftarrow> set_prev (ln_next (h2 head)) (Some entry) h2;
          set_next (Some head) (Some entry) h3 }"

definition anx_list_add_tail :: "'n \<Rightarrow> 'n \<Rightarrow> 'n list_heap \<Rightarrow> 'n list_heap option" where
  "anx_list_add_tail entry head h =
     do { h1 \<leftarrow> set_next (Some entry) (Some head) h;
          h2 \<leftarrow> set_prev (Some entry) (ln_prev (h1 head)) h1;
          h3 \<leftarrow> set_next (ln_prev (h2 head)) (Some entry) h2;
          set_prev (Some head) (Some entry) h3 }"

definition anx_list_del :: "'n \<Rightarrow> 'n list_heap \<Rightarrow> 'n list_heap option" where
  "anx_list_del entry h =
     do { h1 \<leftarrow> set_next (ln_prev (h entry)) (ln_next (h entry)) h;
          h2 \<leftarrow> set_prev (ln_next (h1 entry)) (ln_prev (h1 entry)) h1;
          h3 \<leftarrow> set_next (Some entry) None h2;
          set_prev (Some entry) None h3 }"

definition anx_list_empty :: "'n \<Rightarrow> 'n list_heap \<Rightarrow> bool" where
  "anx_list_empty head h \<longleftrightarrow> ln_next (h head) = Some head"

text \<open>The nodes \<open>ANX_LIST_FOR_EACH\<close> visits from \<open>pos\<close> on; a ring that never comes back to its
  head gives no result.\<close>

partial_function (option) list_for_each :: "'n list_heap \<Rightarrow> 'n \<Rightarrow> 'n option \<Rightarrow> 'n list option" where
  "list_for_each h head pos =
     (case pos of None \<Rightarrow> None
      | Some p \<Rightarrow> if p = head then Some []
                 else Option.bind (list_for_each h head (ln_next (h p))) (\<lambda>ps. Some (p # ps)))"

subsection \<open>Rings\<close>

fun links :: "'n list_heap \<Rightarrow> 'n list \<Rightarrow> bool" where
  "links h (x # y # zs) \<longleftrightarrow> ln_next (h x) = Some y \<and> ln_prev (h y) = Some x \<and> links h (y # zs)"
| "links h _ \<longleftrightarrow> True"

text \<open>The ring at \<open>head\<close> holds the nodes \<open>xs\<close>, in this order.\<close>

definition dlist :: "'n list_heap \<Rightarrow> 'n \<Rightarrow> 'n list \<Rightarrow> bool" where
  "dlist h head xs \<longleftrightarrow> distinct (head # xs) \<and> links h (head # xs @ [head])"

lemma links_append: "links h (xs @ y # zs) \<longleftrightarrow> links h (xs @ [y]) \<and> links h (y # zs)"
  by (induction xs rule: induct_list012) auto

lemma links_snoc: "links h (xs @ [x, y]) \<longleftrightarrow> links h (xs @ [x]) \<and> ln_next (h x) = Some y \<and> ln_prev (h y) = Some x"
  using links_append [of h xs x "[y]"] by simp

text \<open>A chain of links does not depend on the backward link of its first node, nor on the
  forward link of its last.\<close>

lemma links_cong:
  assumes "\<And>x. x \<in> set (butlast xs) \<Longrightarrow> ln_next (h' x) = ln_next (h x)" "\<And>x. x \<in> set (tl xs) \<Longrightarrow> ln_prev (h' x) = ln_prev (h x)"
  shows "links h' xs \<longleftrightarrow> links h xs"
  using assms
proof (induction xs rule: induct_list012)
  case (3 x y zs)
  have "links h' (y # zs) \<longleftrightarrow> links h (y # zs)"
    using 3(3,4) by (intro 3(2)) (auto split: if_splits)
  then show ?case using 3(3) [of x] 3(4) [of y] by simp
qed simp_all

lemma links_keep:
  "links h xs \<Longrightarrow> (\<And>x. x \<in> set (butlast xs) \<Longrightarrow> ln_next (h' x) = ln_next (h x)) \<Longrightarrow>
     (\<And>x. x \<in> set (tl xs) \<Longrightarrow> ln_prev (h' x) = ln_prev (h x)) \<Longrightarrow> links h' xs"
  using links_cong [of xs h' h] by blast

lemma dlist_init [simp]: "dlist (anx_list_init head h) head []"
  by (simp add: dlist_def anx_list_init_def)

lemma dlist_empty_iff: "dlist h head xs \<Longrightarrow> anx_list_empty head h \<longleftrightarrow> xs = []"
  by (cases xs) (auto simp: dlist_def anx_list_empty_def)

lemma list_for_each_links:
  "links h (p # ps @ [head]) \<Longrightarrow> head \<notin> set (p # ps) \<Longrightarrow> list_for_each h head (Some p) = Some (p # ps)"
proof (induction ps arbitrary: p)
  case Nil
  then show ?case by (auto simp: list_for_each.simps [of h head "Some p"] list_for_each.simps [of h head "Some head"])
next
  case (Cons q qs)
  then have "list_for_each h head (Some q) = Some (q # qs)" by simp
  then show ?case using Cons.prems by (auto simp: list_for_each.simps [of h head "Some p"])
qed

text \<open>The iteration over a ring terminates and visits its nodes in order.\<close>

lemma list_for_each_dlist: "dlist h head xs \<Longrightarrow> list_for_each h head (ln_next (h head)) = Some xs"
  by (cases xs) (auto simp: dlist_def list_for_each_links list_for_each.simps [of h head "Some head"])

lemma dlist_frame:
  "dlist h head xs \<Longrightarrow> \<forall>p\<in>set (head # xs). h' p = h p \<Longrightarrow> dlist h' head xs"
  unfolding dlist_def by (auto elim!: links_keep)

lemma dlist_add:
  assumes "dlist h head xs" "entry \<notin> set (head # xs)"
  obtains h' where "anx_list_add entry head h = Some h'" "dlist h' head (entry # xs)"
    "\<And>p. p \<noteq> entry \<Longrightarrow> p \<notin> set (head # xs) \<Longrightarrow> h' p = h p"
proof -
  define n where "n = hd (xs @ [head])"
  have n: "ln_next (h head) = Some n" "n \<in> set (head # xs)" "n \<noteq> entry"
    using assms by (cases xs; auto simp: dlist_def n_def)+
  define h' where "h' = (let h2 = h(entry := \<lparr>ln_next = Some n, ln_prev = Some head\<rparr>); h3 = h2(n := (h2 n)\<lparr>ln_prev := Some entry\<rparr>)
     in h3(head := (h3 head)\<lparr>ln_next := Some entry\<rparr>))"
  have add: "anx_list_add entry head h = Some h'"
    using n assms(2) by (auto simp: anx_list_add_def set_next_def set_prev_def h'_def Let_def fun_eq_iff)
  have tail: "links h (n # tl (xs @ [head]))" using assms(1) by (cases xs) (auto simp: dlist_def n_def)
  have "links h' (n # tl (xs @ [head]))"
    using assms by (intro links_keep [OF tail]; cases xs) (auto simp: h'_def Let_def dlist_def n_def split: if_splits)
  moreover have "xs @ [head] = n # tl (xs @ [head])" by (cases xs) (simp_all add: n_def)
  ultimately have "links h' (xs @ [head])" by simp
  moreover have "ln_next (h' head) = Some entry" "ln_prev (h' entry) = Some head" "ln_next (h' entry) = Some n" "ln_prev (h' n) = Some entry"
    using assms(2) n(3) by (auto simp: h'_def Let_def)
  ultimately have "links h' (head # entry # xs @ [head])"
    by (cases xs) (simp_all add: n_def)
  then have "dlist h' head (entry # xs)" using assms by (auto simp: dlist_def)
  moreover have "h' p = h p" if "p \<noteq> entry" "p \<notin> set (head # xs)" for p using that n(2) by (auto simp: h'_def Let_def)
  ultimately show thesis using that [OF add] by blast
qed

lemma dlist_add_tail:
  assumes "dlist h head xs" "entry \<notin> set (head # xs)"
  obtains h' where "anx_list_add_tail entry head h = Some h'" "dlist h' head (xs @ [entry])"
    "\<And>p. p \<noteq> entry \<Longrightarrow> p \<notin> set (head # xs) \<Longrightarrow> h' p = h p"
proof -
  define pre where "pre = butlast (head # xs)"
  define l where "l = last (head # xs)"
  have split: "head # xs = pre @ [l]" using append_butlast_last_id [of "head # xs"] by (simp only: l_def pre_def) simp
  have ring: "head # xs @ ys = pre @ l # ys" for ys using split by (metis append.assoc append_Cons append_Nil)
  have "links h (pre @ [l, head])"
    using assms(1) ring by (simp add: dlist_def)
  then have l: "links h (pre @ [l])" "ln_next (h l) = Some head" "ln_prev (h head) = Some l" "l \<in> set (head # xs)" "l \<noteq> entry"
    using links_snoc [of h pre l head] last_in_set [of "head # xs"] assms(2) by (auto simp: l_def)
  define h' where "h' = (let h2 = h(entry := \<lparr>ln_next = Some head, ln_prev = Some l\<rparr>); h3 = h2(l := (h2 l)\<lparr>ln_next := Some entry\<rparr>)
     in h3(head := (h3 head)\<lparr>ln_prev := Some entry\<rparr>))"
  have add: "anx_list_add_tail entry head h = Some h'"
    using l assms(2) by (auto simp: anx_list_add_tail_def set_next_def set_prev_def h'_def Let_def fun_eq_iff)
  have lb: "l \<notin> set pre" "head \<notin> set xs"
    using assms(1) split unfolding dlist_def by (metis distinct_append disjoint_insert(1) distinct.simps(2) list.simps(15))+
  have sub: "set pre \<subseteq> set (head # xs)" "tl (pre @ [l]) = xs" unfolding split by auto (metis split list.sel(3))
  have "links h' (pre @ [l])"
    using lb assms(2) sub by (intro links_keep [OF l(1)]) (auto simp: h'_def Let_def split: if_splits)
  moreover have "ln_next (h' l) = Some entry" "ln_prev (h' entry) = Some l" "ln_next (h' entry) = Some head" "ln_prev (h' head) = Some entry"
    using assms(2) l(5) by (auto simp: h'_def Let_def)
  ultimately have "links h' (pre @ [l, entry, head])"
    using links_append [of h' pre l "[entry, head]"] by simp
  moreover have "head # (xs @ [entry]) @ [head] = pre @ [l, entry, head]"
    using ring [of "[entry, head]"] by simp
  ultimately have "links h' (head # (xs @ [entry]) @ [head])" by (simp only:)
  then have "dlist h' head (xs @ [entry])" using assms unfolding dlist_def by auto
  moreover have "h' p = h p" if "p \<noteq> entry" "p \<notin> set (head # xs)" for p using that l(4) by (auto simp: h'_def Let_def)
  ultimately show thesis using that [OF add] by blast
qed

lemma dlist_del:
  assumes "dlist h head (as @ entry # bs)"
  obtains h' where "anx_list_del entry h = Some h'" "dlist h' head (as @ bs)"
    "ln_next (h' entry) = None" "\<And>p. p \<notin> set (head # as @ entry # bs) \<Longrightarrow> h' p = h p"
proof -
  define pre where "pre = butlast (head # as)"
  define suf where "suf = tl (bs @ [head])"
  define p where "p = last (head # as)"
  define n where "n = hd (bs @ [head])"
  have sa: "head # as = pre @ [p]" using append_butlast_last_id [of "head # as"] by (simp only: p_def pre_def) simp
  have sb: "bs @ [head] = n # suf" by (cases bs) (simp_all add: n_def suf_def)
  have cat: "head # as @ ys = pre @ p # ys" for ys using sa by (metis append.assoc append_Cons append_Nil)
  have "links h (pre @ p # entry # n # suf)"
    using assms unfolding dlist_def append_assoc append_Cons cat sb by simp
  then have 1: "links h (pre @ [p])" "links h (n # suf)"
    "ln_next (h p) = Some entry" "ln_prev (h entry) = Some p" "ln_next (h entry) = Some n" "ln_prev (h n) = Some entry"
    using links_append [of h pre p "entry # n # suf"] by auto
  have d: "distinct (head # as @ entry # bs)" using assms by (simp add: dlist_def)
  have ne: "p \<noteq> entry" "n \<noteq> entry" "p \<in> set (head # as)" "n \<in> insert head (set bs)"
    using d last_in_set [of "head # as"] list.set_sel(1) [of "bs @ [head]"] by (auto simp: p_def n_def)
  define h' where "h' = (let h1 = h(p := (h p)\<lparr>ln_next := Some n\<rparr>); h2 = h1(n := (h1 n)\<lparr>ln_prev := Some p\<rparr>)
     in h2(entry := \<lparr>ln_next = None, ln_prev = None\<rparr>))"
  have del: "anx_list_del entry h = Some h'"
    using 1 ne by (auto simp: anx_list_del_def set_next_def set_prev_def h'_def Let_def fun_eq_iff)
  have "distinct (pre @ [p])" "distinct (n # suf)" using d unfolding sa [symmetric] sb [symmetric] by auto
  moreover have "set pre \<subseteq> set (head # as)" "tl (pre @ [p]) = as" unfolding sa by auto (metis sa list.sel(3))
  moreover have "set suf \<subseteq> insert head (set bs)" "set (butlast (n # suf)) \<subseteq> set bs" "n \<in> set bs \<or> n = head \<and> bs = []"
    unfolding sb [symmetric] by (cases bs; auto simp: suf_def n_def)+
  ultimately have "links h' (pre @ [p])" "links h' (n # suf)"
    using d ne by (intro links_keep [OF 1(1)] links_keep [OF 1(2)]; force simp: h'_def Let_def split: if_splits)+
  moreover have "ln_next (h' p) = Some n" "ln_prev (h' n) = Some p" using ne by (auto simp: h'_def Let_def)
  ultimately have "links h' (pre @ p # n # suf)"
    using links_append [of h' pre p "n # suf"] by simp
  moreover have "head # (as @ bs) @ [head] = pre @ p # n # suf"
    using cat [of "bs @ [head]"] sb by simp
  ultimately have "links h' (head # (as @ bs) @ [head])" by (simp only:)
  then have "dlist h' head (as @ bs)" using d unfolding dlist_def by auto
  moreover have "h' q = h q" if "q \<notin> set (head # as @ entry # bs)" for q using that ne by (auto simp: h'_def Let_def)
  moreover have "ln_next (h' entry) = None" by (simp add: h'_def Let_def)
  ultimately show thesis using that [OF del] by blast
qed

subsection \<open>Hash tables\<close>

record 'n anx_htable =
  ht_buckets :: "'n list option"
  ht_bits :: u32
  ht_count :: u32

text \<open>The index of \<open>anx_htable_bucket\<close>: the hash modulo the number of buckets, by masking.\<close>

definition bucket_index :: "u32 \<Rightarrow> u64 \<Rightarrow> nat" where
  "bucket_index bits hash = unat (hash AND ucast ((push_bit (unat bits) 1 :: u32) - 1))"

definition anx_htable_bucket :: "'n anx_htable \<Rightarrow> u64 \<Rightarrow> 'n option" where
  "anx_htable_bucket ht hash =
     (case ht_buckets ht of None \<Rightarrow> None
      | Some bs \<Rightarrow> if bucket_index (ht_bits ht) hash < length bs then Some (bs ! bucket_index (ht_bits ht) hash) else None)"

text \<open>\<open>addr i\<close> is the address of the \<open>i\<close>-th head of the array the allocator returns.\<close>

definition anx_htable_init ::
  "(nat \<Rightarrow> 'n) \<Rightarrow> u32 \<Rightarrow> 'n anx_htable \<Rightarrow> 'n list_heap \<Rightarrow> 'a kenv_scheme \<Rightarrow> int \<times> 'n anx_htable \<times> 'n list_heap \<times> 'a kenv_scheme" where
  "anx_htable_init addr bits ht h s =
     (let nbuckets = unat (push_bit (unat bits) 1 :: u32); (ok, s) = anx_alloc s
      in if \<not> ok then (ANX_ENOMEM, ht\<lparr>ht_buckets := None\<rparr>, h, s)
         else let bs = map addr [0..<nbuckets]
              in (ANX_OK, ht\<lparr>ht_buckets := Some bs, ht_bits := bits, ht_count := 0\<rparr>, fold anx_list_init bs h, s))"

definition anx_htable_destroy :: "'n anx_htable \<Rightarrow> 'n anx_htable" where
  "anx_htable_destroy ht = ht\<lparr>ht_buckets := None, ht_count := 0\<rparr>"

definition anx_htable_add :: "'n \<Rightarrow> u64 \<Rightarrow> 'n anx_htable \<times> 'n list_heap \<Rightarrow> ('n anx_htable \<times> 'n list_heap) option" where
  "anx_htable_add node hash = (\<lambda>(ht, h).
     do { bucket \<leftarrow> anx_htable_bucket ht hash;
          h' \<leftarrow> anx_list_add node bucket h;
          Some (ht\<lparr>ht_count := ht_count ht + 1\<rparr>, h') })"

definition anx_htable_del :: "'n \<Rightarrow> 'n anx_htable \<times> 'n list_heap \<Rightarrow> ('n anx_htable \<times> 'n list_heap) option" where
  "anx_htable_del node = (\<lambda>(ht, h).
     do { h' \<leftarrow> anx_list_del node h; Some (ht\<lparr>ht_count := ht_count ht - 1\<rparr>, h') })"

text \<open>The visit of \<open>ANX_HTABLE_FOR_BUCKET\<close>.\<close>

definition htable_for_bucket :: "'n anx_htable \<times> 'n list_heap \<Rightarrow> u64 \<Rightarrow> 'n list option" where
  "htable_for_bucket = (\<lambda>(ht, h) hash.
     do { bucket \<leftarrow> anx_htable_bucket ht hash; list_for_each h bucket (ln_next (h bucket)) })"

subsection \<open>Chains\<close>

text \<open>The abstract table: for every bucket the list of its nodes. These are the operations the
  stores of the kernel are modelled with.\<close>

type_synonym 'n chains = "'n list list"

definition chain_init :: "u32 \<Rightarrow> 'n chains" where
  "chain_init bits = replicate (2 ^ unat bits) []"

definition chain_add :: "u32 \<Rightarrow> u64 \<Rightarrow> 'n \<Rightarrow> 'n chains \<Rightarrow> 'n chains" where
  "chain_add bits hash node ls = ls[bucket_index bits hash := node # ls ! bucket_index bits hash]"

definition chain_del :: "'n \<Rightarrow> 'n chains \<Rightarrow> 'n chains" where
  "chain_del node = map (remove1 node)"

definition chain_bucket :: "u32 \<Rightarrow> u64 \<Rightarrow> 'n chains \<Rightarrow> 'n list" where
  "chain_bucket bits hash ls = ls ! bucket_index bits hash"

text \<open>The rings of a table represent its chains, and no node is in two places.\<close>

definition htable_rel :: "'n anx_htable \<times> 'n list_heap \<Rightarrow> 'n chains \<Rightarrow> bool" where
  "htable_rel = (\<lambda>(ht, h) ls.
     unat (ht_bits ht) < 32 \<and>
     (\<exists>bs. ht_buckets ht = Some bs \<and> length bs = 2 ^ unat (ht_bits ht) \<and> length ls = length bs \<and>
           (\<forall>i<length bs. dlist h (bs ! i) (ls ! i)) \<and>
           (\<forall>i<length bs. \<forall>j<length bs. i \<noteq> j \<longrightarrow> set (bs ! i # ls ! i) \<inter> set (bs ! j # ls ! j) = {})))"

lemma bucket_index_bound: "unat bits < 32 \<Longrightarrow> bucket_index bits hash < 2 ^ unat bits"
proof -
  assume b: "unat bits < 32"
  have "(push_bit (unat bits) 1 :: u32) - 1 = mask (unat bits)" by (simp add: mask_eq_decr_exp push_bit_eq_mult)
  moreover have "ucast (mask (unat bits) :: u32) = (mask (unat bits) :: u64)"
    using b by (intro bit_word_eqI) (auto simp: bit_mask_iff bit_simps)
  ultimately have "bucket_index bits hash = unat (take_bit (unat bits) hash)"
    by (simp add: bucket_index_def take_bit_eq_mask and.commute)
  then show ?thesis by (simp only: unsigned_take_bit_eq take_bit_nat_less_exp)
qed

lemma init_rings:
  assumes "distinct bs"
  shows "i < length bs \<Longrightarrow> dlist (fold anx_list_init bs h) (bs ! i) []"
proof -
  have keep: "p \<notin> set bs \<Longrightarrow> fold anx_list_init bs h p = h p" for p bs and h :: "'a list_heap"
    by (induction bs arbitrary: h) (auto simp: anx_list_init_def)
  show "i < length bs \<Longrightarrow> dlist (fold anx_list_init bs h) (bs ! i) []"
    using assms
  proof (induction bs arbitrary: i h)
    case (Cons b bs)
    show ?case
    proof (cases i)
      case 0
      have "fold anx_list_init bs (anx_list_init b h) b = anx_list_init b h b" using Cons.prems keep by auto
      then show ?thesis using 0 dlist_frame [OF dlist_init [of b h]] by simp
    next
      case (Suc k)
      then show ?thesis using Cons.IH [of k "anx_list_init b h"] Cons.prems by simp
    qed
  qed simp
qed

lemma htable_init_rel:
  assumes "unat bits < 32" "inj_on addr {..<2 ^ unat bits}" "heap s (requests s)"
  obtains ht' h' s' where "anx_htable_init addr bits ht h s = (ANX_OK, ht', h', s')" "htable_rel (ht', h') (chain_init bits)"
    "ht_bits ht' = bits" "ht_count ht' = 0"
proof -
  have "(push_bit (unat bits) 1 :: u32) = of_nat (2 ^ unat bits)" by (simp add: push_bit_eq_mult)
  moreover have "(2::nat) ^ unat bits < 2 ^ 32" using assms(1) by (intro power_strict_increasing) simp_all
  ultimately have n: "unat (push_bit (unat bits) 1 :: u32) = 2 ^ unat bits"
    by (simp only: unat_of_nat_u32)
  define bs where "bs = map addr [0..<2 ^ unat bits]"
  have d: "distinct bs" using assms(2) by (simp add: bs_def distinct_map atLeast0LessThan)
  have "htable_rel (ht\<lparr>ht_buckets := Some bs, ht_bits := bits, ht_count := 0\<rparr>, fold anx_list_init bs h) (chain_init bits)"
    using assms(1) d init_rings [OF d, of _ h] assms(2) by (auto simp: htable_rel_def chain_init_def bs_def inj_on_eq_iff simp del: fold_map)
  moreover have "anx_htable_init addr bits ht h s =
      (ANX_OK, ht\<lparr>ht_buckets := Some bs, ht_bits := bits, ht_count := 0\<rparr>, fold anx_list_init bs h, s\<lparr>requests := requests s + 1\<rparr>)"
    unfolding anx_htable_init_def n Let_def anx_alloc_def bs_def using assms(3) by simp
  ultimately show thesis using that by simp
qed

lemma htable_add_rel:
  assumes "htable_rel (ht, h) ls" "\<forall>i<length ls. node \<notin> set (the (ht_buckets ht) ! i # ls ! i)"
  obtains ht' h' where "anx_htable_add node hash (ht, h) = Some (ht', h')" "htable_rel (ht', h') (chain_add (ht_bits ht) hash node ls)"
    "ht_count ht' = ht_count ht + 1"
proof -
  from assms(1) obtain bs where b: "unat (ht_bits ht) < 32" "ht_buckets ht = Some bs" "length bs = 2 ^ unat (ht_bits ht)" "length ls = length bs"
    "\<And>i. i < length bs \<Longrightarrow> dlist h (bs ! i) (ls ! i)"
    "\<And>i j. i < length bs \<Longrightarrow> j < length bs \<Longrightarrow> i \<noteq> j \<Longrightarrow> set (bs ! i # ls ! i) \<inter> set (bs ! j # ls ! j) = {}"
    unfolding htable_rel_def by blast
  define i where "i = bucket_index (ht_bits ht) hash"
  have i: "i < length bs" using bucket_index_bound b(1,3) i_def by simp
  have fresh: "\<And>j. j < length bs \<Longrightarrow> node \<notin> set (bs ! j # ls ! j)" using assms(2) b(2,4) by simp
  obtain h' where h': "anx_list_add node (bs ! i) h = Some h'" "dlist h' (bs ! i) (node # ls ! i)"
    "\<And>p. p \<noteq> node \<Longrightarrow> p \<notin> set (bs ! i # ls ! i) \<Longrightarrow> h' p = h p"
    using dlist_add [OF b(5) [OF i] fresh [OF i]] by blast
  have other: "dlist h' (bs ! j) (ls ! j)" if j: "j < length bs" "j \<noteq> i" for j
  proof (rule dlist_frame [OF b(5) [OF j(1)]], rule ballI)
    fix p assume p: "p \<in> set (bs ! j # ls ! j)"
    then have "p \<noteq> node" "p \<notin> set (bs ! i # ls ! i)" using fresh [OF j(1)] b(6) [OF j(1) i j(2)] by blast+
    then show "h' p = h p" by (rule h'(3))
  qed
  let ?ls = "chain_add (ht_bits ht) hash node ls"
  have nth: "j < length bs \<Longrightarrow> ?ls ! j = (if j = i then node # ls ! i else ls ! j)" for j
    using i b(4) by (simp add: chain_add_def i_def)
  have "htable_rel (ht\<lparr>ht_count := ht_count ht + 1\<rparr>, h') ?ls"
    unfolding htable_rel_def prod.case
  proof (intro conjI exI allI impI)
    show "dlist h' (bs ! j) (?ls ! j)" if "j < length bs" for j using that nth h'(2) other by simp
    show "set (bs ! j # ?ls ! j) \<inter> set (bs ! k # ?ls ! k) = {}" if "j < length bs" "k < length bs" "j \<noteq> k" for j k
      using b(6) [OF that] fresh [OF that(1)] fresh [OF that(2)] that by (auto simp: nth)
  qed (use b in \<open>simp_all add: chain_add_def\<close>)
  then show thesis using that b(2) i h'(1) by (simp add: anx_htable_add_def anx_htable_bucket_def i_def)
qed

lemma htable_del_rel:
  assumes "htable_rel (ht, h) ls" "node \<in> set (concat ls)"
  obtains ht' h' where "anx_htable_del node (ht, h) = Some (ht', h')" "htable_rel (ht', h') (chain_del node ls)"
    "ht_count ht' = ht_count ht - 1"
proof -
  from assms(1) obtain bs where b: "unat (ht_bits ht) < 32" "ht_buckets ht = Some bs" "length bs = 2 ^ unat (ht_bits ht)" "length ls = length bs"
    "\<And>i. i < length bs \<Longrightarrow> dlist h (bs ! i) (ls ! i)"
    "\<And>i j. i < length bs \<Longrightarrow> j < length bs \<Longrightarrow> i \<noteq> j \<Longrightarrow> set (bs ! i # ls ! i) \<inter> set (bs ! j # ls ! j) = {}"
    unfolding htable_rel_def by blast
  from assms(2) b(4) obtain i where i: "i < length bs" "node \<in> set (ls ! i)" by (auto simp: in_set_conv_nth [of _ ls])
  then obtain as cs where sp: "ls ! i = as @ node # cs" "node \<notin> set as" by (metis split_list_first)
  obtain h' where h': "anx_list_del node h = Some h'" "dlist h' (bs ! i) (as @ cs)"
    "\<And>p. p \<notin> set (bs ! i # as @ node # cs) \<Longrightarrow> h' p = h p"
    using dlist_del [of h "bs ! i" as node cs] b(5) [OF i(1)] sp(1) by metis
  have other: "node \<notin> set (ls ! j) \<and> dlist h' (bs ! j) (ls ! j)" if j: "j < length bs" "j \<noteq> i" for j
  proof -
    have "p \<notin> set (bs ! i # ls ! i)" if "p \<in> set (bs ! j # ls ! j)" for p using b(6) [OF j(1) i(1) j(2)] that by blast
    then show ?thesis using i(2) dlist_frame [OF b(5) [OF j(1)]] h'(3) sp(1) by (metis list.set_intros(2))
  qed
  let ?ls = "chain_del node ls"
  have nth: "j < length bs \<Longrightarrow> ?ls ! j = (if j = i then as @ cs else ls ! j)" for j
    using sp b(4) other by (simp add: chain_del_def remove1_append remove1_idem)
  have "htable_rel (ht\<lparr>ht_count := ht_count ht - 1\<rparr>, h') ?ls"
    unfolding htable_rel_def prod.case
  proof (intro conjI exI allI impI)
    show "dlist h' (bs ! j) (?ls ! j)" if "j < length bs" for j using that nth h'(2) other by simp
    show "set (bs ! j # ?ls ! j) \<inter> set (bs ! k # ?ls ! k) = {}" if "j < length bs" "k < length bs" "j \<noteq> k" for j k
      using b(6) [OF that] that sp(1) by (auto simp: nth)
  qed (use b in \<open>simp_all add: chain_del_def\<close>)
  then show thesis using that h'(1) by (simp add: anx_htable_del_def)
qed

lemma htable_bucket_rel:
  "htable_rel (ht, h) ls \<Longrightarrow> htable_for_bucket (ht, h) hash = Some (chain_bucket (ht_bits ht) hash ls)"
  using bucket_index_bound [of "ht_bits ht" hash] list_for_each_dlist
  by (fastforce simp: htable_rel_def htable_for_bucket_def anx_htable_bucket_def chain_bucket_def)

subsection \<open>Keyed chains\<close>

text \<open>Every store of the kernel hashes a key, walks the bucket and compares keys.\<close>

definition chain_find :: "u32 \<Rightarrow> u64 \<Rightarrow> ('n \<Rightarrow> bool) \<Rightarrow> 'n chains \<Rightarrow> 'n option" where
  "chain_find bits hash P ls = find P (chain_bucket bits hash ls)"

text \<open>Every node is in the bucket its key hashes to, and in no other place.\<close>

definition chains_placed :: "u32 \<Rightarrow> ('k \<Rightarrow> u64) \<Rightarrow> ('n \<Rightarrow> 'k) \<Rightarrow> 'n chains \<Rightarrow> bool" where
  "chains_placed bits hash key ls \<longleftrightarrow>
     length ls = 2 ^ unat bits \<and> (\<forall>i<length ls. distinct (ls ! i)) \<and>
     (\<forall>i<length ls. \<forall>n\<in>set (ls ! i). bucket_index bits (hash (key n)) = i)"

lemma length_chain_add [simp]: "length (chain_add bits hash n ls) = length ls"
  by (simp add: chain_add_def)

lemma set_concat_nth: "n \<in> set (concat ls) \<longleftrightarrow> (\<exists>i<length ls. n \<in> set (ls ! i))"
  by (metis UN_iff in_set_conv_nth set_concat)

lemma chains_placed_cong:
  "\<forall>n\<in>set (concat ls). key' n = key n \<Longrightarrow> chains_placed bits hash key' ls \<longleftrightarrow> chains_placed bits hash key ls"
  unfolding chains_placed_def by (metis (no_types, opaque_lifting) UN_iff nth_mem set_concat)

lemma chain_add_concat:
  "unat bits < 32 \<Longrightarrow> length ls = 2 ^ unat bits \<Longrightarrow>
     set (concat (chain_add bits hash n ls)) = insert n (set (concat ls)) \<and> length (concat (chain_add bits hash n ls)) = length (concat ls) + 1"
proof -
  assume "unat bits < 32" "length ls = 2 ^ unat bits"
  then have i: "bucket_index bits hash < length ls" using bucket_index_bound by simp
  then have "chain_add bits hash n ls = take (bucket_index bits hash) ls @ (n # ls ! bucket_index bits hash) # drop (Suc (bucket_index bits hash)) ls"
    by (simp add: chain_add_def upd_conv_take_nth_drop)
  moreover have "ls = take (bucket_index bits hash) ls @ ls ! bucket_index bits hash # drop (Suc (bucket_index bits hash)) ls"
    using i by (rule id_take_nth_drop)
  ultimately show ?thesis
    by (metis (no_types, lifting) Un_insert_left Un_insert_right add.assoc add.commute append_Cons concat.simps(2) concat_append length_Cons length_append list.simps(15) plus_1_eq_Suc set_append)
qed

locale hash_index =
  fixes bits :: u32 and hash :: "'k \<Rightarrow> u64"
  assumes bits_small: "unat bits < 32"
begin

lemma placed_init: "chains_placed bits hash key (chain_init bits)" "set (concat (chain_init bits)) = {}"
  by (auto simp: chains_placed_def chain_init_def set_concat_nth)

lemma index_bound: "bucket_index bits (hash k) < 2 ^ unat bits"
  using bucket_index_bound bits_small .

lemma placed_in:
  "chains_placed bits hash key ls \<Longrightarrow> n \<in> set (concat ls) \<longleftrightarrow> n \<in> set (ls ! bucket_index bits (hash (key n)))"
  using index_bound [of "key n"] unfolding chains_placed_def set_concat_nth by auto

lemma add_set:
  "chains_placed bits hash key ls \<Longrightarrow> set (concat (chain_add bits (hash k) n ls)) = insert n (set (concat ls))"
  using chain_add_concat [OF bits_small, of ls "hash k" n] unfolding chains_placed_def by blast

lemma placed_add:
  assumes "chains_placed bits hash key ls" "n \<notin> set (concat ls)"
  shows "chains_placed bits hash key (chain_add bits (hash (key n)) n ls)"
proof -
  let ?i = "bucket_index bits (hash (key n))"
  have nth: "chain_add bits (hash (key n)) n ls ! j = (if j = ?i then n # ls ! ?i else ls ! j)" if "j < length ls" for j
    using that by (simp add: chain_add_def)
  have "n \<notin> set (ls ! ?i)" using placed_in [OF assms(1)] assms(2) by blast
  moreover have "?i < length ls" using index_bound assms(1) by (simp add: chains_placed_def)
  ultimately show ?thesis
    using assms(1) nth unfolding chains_placed_def length_chain_add by auto
qed

lemma del_set:
  assumes "chains_placed bits hash key ls"
  shows "set (concat (chain_del n ls)) = set (concat ls) - {n}"
proof -
  have "distinct x" if "x \<in> set ls" for x using assms that unfolding chains_placed_def by (metis in_set_conv_nth)
  then show ?thesis by (auto simp: chain_del_def set_remove1_eq)
qed

lemma placed_del: "chains_placed bits hash key ls \<Longrightarrow> chains_placed bits hash key (chain_del n ls)"
  unfolding chains_placed_def chain_del_def by (auto simp: set_remove1_eq)

lemma find_some:
  "chains_placed bits hash key ls \<Longrightarrow> chain_find bits (hash k) (\<lambda>n. key n = k) ls = Some n \<Longrightarrow> n \<in> set (concat ls) \<and> key n = k"
  using placed_in [of key ls n] by (auto simp: chain_find_def chain_bucket_def find_Some_iff)

lemma find_none:
  "chains_placed bits hash key ls \<Longrightarrow> chain_find bits (hash k) (\<lambda>n. key n = k) ls = None \<longleftrightarrow> k \<notin> key ` set (concat ls)"
proof -
  assume p: "chains_placed bits hash key ls"
  have "x \<in> set (concat ls) \<longleftrightarrow> x \<in> set (ls ! bucket_index bits (hash k))" if "key x = k" for x
    using placed_in [OF p, of x] that by simp
  then show ?thesis unfolding chain_find_def chain_bucket_def find_None_iff image_iff by metis
qed

lemma find_unique:
  assumes "chains_placed bits hash key ls" "inj_on key (set (concat ls))"
  shows "chain_find bits (hash k) (\<lambda>n. key n = k) ls = Some n \<longleftrightarrow> n \<in> set (concat ls) \<and> key n = k"
proof
  assume n: "n \<in> set (concat ls) \<and> key n = k"
  then have "chain_find bits (hash k) (\<lambda>n. key n = k) ls \<noteq> None" unfolding find_none [OF assms(1)] by blast
  then obtain m where m: "chain_find bits (hash k) (\<lambda>n. key n = k) ls = Some m" by blast
  then have "m = n" using find_some [OF assms(1) m] n assms(2) by (auto dest: inj_onD)
  then show "chain_find bits (hash k) (\<lambda>n. key n = k) ls = Some n" using m by simp
qed (rule find_some [OF assms(1)])

lemma find_add:
  assumes "chains_placed bits hash key ls"
  shows "chain_find bits (hash k) (\<lambda>n. key n = k) (chain_add bits (hash (key m)) m ls) =
           (if key m = k then Some m else chain_find bits (hash k) (\<lambda>n. key n = k) ls)"
  using index_bound [of k] assms
  by (cases "bucket_index bits (hash (key m)) = bucket_index bits (hash k)")
    (auto simp: chain_find_def chain_bucket_def chain_add_def chains_placed_def)

lemma find_del:
  assumes "chains_placed bits hash key ls" "key m \<noteq> k"
  shows "chain_find bits (hash k) (\<lambda>n. key n = k) (chain_del m ls) = chain_find bits (hash k) (\<lambda>n. key n = k) ls"
proof -
  have "find P (remove1 m xs) = find P xs" if "\<not> P m" for P xs using that by (induction xs) auto
  then show ?thesis using assms index_bound [of k] by (simp add: chain_find_def chain_bucket_def chain_del_def chains_placed_def)
qed

end

subsection \<open>Histories\<close>

datatype 'n htop = HAdd 'n u64 | HDel 'n

fun htable_run :: "'n htop list \<Rightarrow> 'n anx_htable \<times> 'n list_heap \<Rightarrow> ('n anx_htable \<times> 'n list_heap) option" where
  "htable_run [] t = Some t"
| "htable_run (HAdd n hash # ops) t = Option.bind (anx_htable_add n hash t) (htable_run ops)"
| "htable_run (HDel n # ops) t = Option.bind (anx_htable_del n t) (htable_run ops)"

fun chain_run :: "u32 \<Rightarrow> 'n htop list \<Rightarrow> 'n chains \<Rightarrow> 'n chains" where
  "chain_run bits [] ls = ls"
| "chain_run bits (HAdd n hash # ops) ls = chain_run bits ops (chain_add bits hash n ls)"
| "chain_run bits (HDel n # ops) ls = chain_run bits ops (chain_del n ls)"

text \<open>Callers add nodes that are in no list and remove nodes of the table; \<open>heads\<close> are the
  addresses of the bucket array.\<close>

fun history_ok :: "'n set \<Rightarrow> 'n htop list \<Rightarrow> 'n set \<Rightarrow> bool" where
  "history_ok heads [] live \<longleftrightarrow> True"
| "history_ok heads (HAdd n hash # ops) live \<longleftrightarrow> n \<notin> heads \<and> n \<notin> live \<and> history_ok heads ops (insert n live)"
| "history_ok heads (HDel n # ops) live \<longleftrightarrow> n \<in> live \<and> history_ok heads ops (live - {n})"

lemma htable_rel_distinct:
  assumes "htable_rel (ht, h) ls" shows "distinct (concat ls)"
proof -
  from assms obtain bs where l: "length ls = length bs" and d: "\<And>i. i < length bs \<Longrightarrow> dlist h (bs ! i) (ls ! i)"
    and e: "\<And>i j. i < length bs \<Longrightarrow> j < length bs \<Longrightarrow> i \<noteq> j \<Longrightarrow> set (bs ! i # ls ! i) \<inter> set (bs ! j # ls ! j) = {}"
    unfolding htable_rel_def by blast
  have "\<forall>i<length ls. distinct (ls ! i)" using d l by (simp add: dlist_def)
  moreover have "set (ls ! i) \<inter> set (ls ! j) = {}" if "i < length ls" "j < length ls" "i \<noteq> j" for i j
    using e [of i j] that l by auto
  ultimately show ?thesis
  proof (induction ls)
    case (Cons x xs)
    have "distinct (xs ! i)" if "i < length xs" for i using Cons.prems(1) that by (metis Suc_less_eq length_Cons nth_Cons_Suc)
    moreover have "set (xs ! i) \<inter> set (xs ! j) = {}" if "i < length xs" "j < length xs" "i \<noteq> j" for i j
      using Cons.prems(2) [of "Suc i" "Suc j"] that by simp
    ultimately have "distinct (concat xs)" using Cons.IH by blast
    moreover have "set x \<inter> set (xs ! i) = {}" if "i < length xs" for i using Cons.prems(2) [of 0 "Suc i"] that by simp
    then have "set x \<inter> set (concat xs) = {}" unfolding disjoint_iff set_concat_nth by blast
    moreover have "distinct x" using Cons.prems(1) by (metis length_Cons nth_Cons_0 zero_less_Suc)
    ultimately show ?case by simp
  qed simp
qed

lemma chain_del_concat:
  "distinct (concat ls) \<Longrightarrow> n \<in> set (concat ls) \<Longrightarrow> set (concat (chain_del n ls)) = set (concat ls) - {n} \<and> length (concat (chain_del n ls)) = length (concat ls) - 1"
proof -
  assume a: "distinct (concat ls)" "n \<in> set (concat ls)"
  have "concat (chain_del n ls) = remove1 n (concat ls)" if "distinct (concat ls)" for ls
    using that
  proof (induction ls)
    case (Cons x xs)
    have "remove1 n y = y" if "n \<notin> set y" for y using that by (rule remove1_idem)
    moreover have "chain_del n xs = xs" if "n \<in> set x"
      using Cons.prems that by (auto simp: chain_del_def intro!: map_idI remove1_idem)
    ultimately show ?case using Cons by (auto simp: chain_del_def remove1_append)
  qed (simp add: chain_del_def)
  then show ?thesis using a by (simp add: set_remove1_eq length_remove1)
qed

lemma htable_run_rel:
  assumes "htable_rel (ht, h) ls" "history_ok (set (the (ht_buckets ht))) ops (set (concat ls))" "ht_count ht = of_nat (length (concat ls))"
  shows "\<exists>ht' h'. htable_run ops (ht, h) = Some (ht', h') \<and> ht_bits ht' = ht_bits ht \<and> htable_rel (ht', h') (chain_run (ht_bits ht) ops ls) \<and>
     ht_count ht' = of_nat (length (concat (chain_run (ht_bits ht) ops ls)))"
  using assms
proof (induction ops arbitrary: ht h ls)
  case (Cons op ops)
  have l: "unat (ht_bits ht) < 32" "length ls = 2 ^ unat (ht_bits ht)" "length (the (ht_buckets ht)) = length ls"
    using Cons.prems(1) by (auto simp: htable_rel_def)
  show ?case
  proof (cases op)
    case (HAdd n hash)
    have "n \<notin> set (the (ht_buckets ht) ! i # ls ! i)" if "i < length ls" for i
      using Cons.prems(2) HAdd that l(3) by (auto dest: nth_mem)
    then obtain ht1 h1 where 1: "anx_htable_add n hash (ht, h) = Some (ht1, h1)" "htable_rel (ht1, h1) (chain_add (ht_bits ht) hash n ls)" "ht_count ht1 = ht_count ht + 1"
      using htable_add_rel [OF Cons.prems(1), of n hash] by metis
    have b: "ht_bits ht1 = ht_bits ht" "ht_buckets ht1 = ht_buckets ht"
      using 1(1) by (auto simp: anx_htable_add_def Option.bind_eq_Some_conv)
    show ?thesis
      using Cons.IH [of ht1 h1 "chain_add (ht_bits ht) hash n ls"] 1 b Cons.prems(2,3) HAdd chain_add_concat [OF l(1,2), of hash n] by (simp add: add.commute)
  next
    case (HDel n)
    then have n: "n \<in> set (concat ls)" using Cons.prems(2) by simp
    then obtain ht1 h1 where 1: "anx_htable_del n (ht, h) = Some (ht1, h1)" "htable_rel (ht1, h1) (chain_del n ls)" "ht_count ht1 = ht_count ht - 1"
      using htable_del_rel [OF Cons.prems(1)] by metis
    have b: "ht_bits ht1 = ht_bits ht" "ht_buckets ht1 = ht_buckets ht"
      using 1(1) by (auto simp: anx_htable_del_def Option.bind_eq_Some_conv)
    obtain k where "length (concat ls) = Suc k" using n by (metis length_pos_if_in_set gr0_conv_Suc)
    then have "(of_nat (length (concat ls) - 1) :: u32) = of_nat (length (concat ls)) - 1" by (simp only:) simp
    then show ?thesis
      using Cons.IH [of ht1 h1 "chain_del n ls"] 1 b Cons.prems(2,3) HDel chain_del_concat [OF htable_rel_distinct [OF Cons.prems(1)] n] by simp
  qed
qed simp

text \<open>C5: the hash table implements its abstract chains: after \<open>anx_htable_init\<close> and any history
  of additions of fresh nodes and removals of present ones, no operation follows a NULL pointer,
  every bucket walk terminates and visits exactly the nodes of the abstract chain, newest first,
  and the counter is the number of nodes.\<close>

theorem htable_refines_chains:
  assumes "unat bits < 32" and "inj_on addr {..<2 ^ unat bits}" and "heap s (requests s)"
    and "history_ok (addr ` {..<2 ^ unat bits}) ops {}"
  shows "\<exists>ht h s' ht' h'. anx_htable_init addr bits ht0 h0 s = (ANX_OK, ht, h, s') \<and>
     htable_run ops (ht, h) = Some (ht', h') \<and>
     (\<forall>hash. htable_for_bucket (ht', h') hash = Some (chain_bucket bits hash (chain_run bits ops (chain_init bits)))) \<and>
     ht_count ht' = of_nat (length (concat (chain_run bits ops (chain_init bits))))"
proof -
  obtain ht h s' where i: "anx_htable_init addr bits ht0 h0 s = (ANX_OK, ht, h, s')" "htable_rel (ht, h) (chain_init bits)" "ht_bits ht = bits" "ht_count ht = 0"
    using htable_init_rel [OF assms(1-3)] by metis
  have "set (the (ht_buckets ht)) = addr ` {..<2 ^ unat bits}"
  proof -
    have "(push_bit (unat bits) 1 :: u32) = of_nat (2 ^ unat bits)" by (simp add: push_bit_eq_mult)
    moreover have "(2::nat) ^ unat bits < 2 ^ 32" using assms(1) by (intro power_strict_increasing) simp_all
    ultimately have "unat (push_bit (unat bits) 1 :: u32) = 2 ^ unat bits" by (simp only: unat_of_nat_u32)
    then show ?thesis using i(1) assms(3) by (auto simp: anx_htable_init_def anx_alloc_def Let_def atLeast0LessThan simp del: fold_map)
  qed
  moreover have e: "concat (chain_init bits) = []" by (simp add: chain_init_def)
  note run = htable_run_rel [OF i(2), of ops, unfolded e i(3)]
  ultimately obtain ht' h' where "htable_run ops (ht, h) = Some (ht', h')" "ht_bits ht' = bits" "htable_rel (ht', h') (chain_run bits ops (chain_init bits))"
     "ht_count ht' = of_nat (length (concat (chain_run bits ops (chain_init bits))))"
    using run assms(4) i(4) by auto
  then show ?thesis using i(1) htable_bucket_rel [of ht' h'] by metis
qed

lemma ex_init_run: "chain_run 1 [HAdd (5::nat) 0, HAdd 6 0, HAdd 7 1, HDel 5] (chain_init 1) = [[6], [7]]"
  by (simp add: chain_init_def chain_add_def chain_del_def bucket_index_def numeral_2_eq_2)

theorem htable_refines_chains_witness:
  "let ht0 = \<lparr>ht_buckets = None, ht_bits = 0, ht_count = 0\<rparr>; h0 = \<lambda>_. \<lparr>ln_next = None, ln_prev = None\<rparr> in \<exists>ht h s' ht' h'. anx_htable_init id 1 ht0 h0 ex_env = (ANX_OK, ht, h, s') \<and>
     htable_run [HAdd (5::nat) 0, HAdd 6 0, HAdd 7 1, HDel 5] (ht, h) = Some (ht', h') \<and>
     htable_for_bucket (ht', h') 0 = Some [6] \<and> ht_count ht' = 2"
proof -
  have b: "chain_bucket 1 0 [[6], [7 :: nat]] = [6]" "(of_nat (length (concat [[6], [7 :: nat]])) :: u32) = 2"
    by (simp_all add: chain_bucket_def bucket_index_def)
  have "history_ok (id ` {..<2 ^ unat (1 :: u32)}) [HAdd (5::nat) 0, HAdd 6 0, HAdd 7 1, HDel 5] {}" by simp
  then obtain ht h s' ht' h' where r:
    "anx_htable_init id 1 \<lparr>ht_buckets = None, ht_bits = 0, ht_count = 0\<rparr> (\<lambda>_. \<lparr>ln_next = None, ln_prev = None\<rparr>) ex_env = (ANX_OK, ht, h, s')"
    "htable_run [HAdd (5::nat) 0, HAdd 6 0, HAdd 7 1, HDel 5] (ht, h) = Some (ht', h')"
    "\<forall>hash. htable_for_bucket (ht', h') hash = Some (chain_bucket 1 hash [[6], [7]])" "ht_count ht' = of_nat (length (concat [[6], [7 :: nat]]))"
    using htable_refines_chains [of 1 "id :: nat \<Rightarrow> nat" ex_env "[HAdd 5 0, HAdd 6 0, HAdd 7 1, HDel 5]"
        "\<lparr>ht_buckets = None, ht_bits = 0, ht_count = 0\<rparr>" "\<lambda>_. \<lparr>ln_next = None, ln_prev = None\<rparr>", unfolded ex_init_run]
    by (simp add: ex_env_def) blast
  show ?thesis unfolding Let_def by (intro exI conjI, rule r(1), rule r(2)) (use r(3,4) b in simp_all)
qed

end
