(* ===== verification/Hash.thy ===== *)
theory Hash
  imports Prelude
begin

text \<open>
  The hash functions of \<^verbatim>\<open>kernel/lib/crypto\<close>: SHA-1, SHA-256 and SHA-512 with their streaming
  interfaces, HMAC over the first two, PBKDF2 and the 802.11 PRF. A byte buffer is a list;
  the message of a call is the list of its bytes. The locale \<open>md_stream\<close> states the
  contract of a streaming context, once for the three algorithms: feeding a message in pieces
  and finishing gives the padded-block digest of the whole message.
\<close>

subsection \<open>Buffers\<close>

text \<open>\<open>anx_memcpy\<close> of \<open>ys\<close> to position \<open>n\<close> of a buffer, and \<open>anx_memset\<close> of \<open>k\<close> bytes to zero there.\<close>

definition copy_at :: "nat \<Rightarrow> u8 list \<Rightarrow> u8 list \<Rightarrow> u8 list" where
  "copy_at n ys xs = take n xs @ ys @ drop (n + length ys) xs"

definition zero_at :: "nat \<Rightarrow> nat \<Rightarrow> u8 list \<Rightarrow> u8 list" where
  "zero_at n k xs = copy_at n (replicate k 0) xs"

definition load_be32 :: "u8 list \<Rightarrow> nat \<Rightarrow> u32" where
  "load_be32 p i = push_bit 24 (ucast (p ! i)) OR push_bit 16 (ucast (p ! (i + 1))) OR
     push_bit 8 (ucast (p ! (i + 2))) OR ucast (p ! (i + 3))"

definition store_be32 :: "u32 \<Rightarrow> u8 list" where
  "store_be32 v = [ucast (drop_bit 24 v), ucast (drop_bit 16 v), ucast (drop_bit 8 v), ucast v]"

definition store_be64 :: "u64 \<Rightarrow> u8 list" where
  "store_be64 v = store_be32 (ucast (drop_bit 32 v)) @ store_be32 (ucast v)"

record 'w hash_ctx =
  hc_state :: "'w list"
  hc_buf :: "u8 list"
  hc_total :: u64

text \<open>The loop over full blocks: the remaining bytes are returned.\<close>

function block_loop :: "nat \<Rightarrow> ('w list \<Rightarrow> u8 list \<Rightarrow> 'w list) \<Rightarrow> 'w list \<Rightarrow> u8 list \<Rightarrow> 'w list \<times> u8 list" where
  "block_loop B compress st p =
     (if 0 < B \<and> B \<le> length p then block_loop B compress (compress st (take B p)) (drop B p) else (st, p))"
  by pat_completeness auto
termination by (relation "measure (\<lambda>(B, c, st, p). length p)") auto

declare block_loop.simps [simp del]

subsection \<open>SHA-1\<close>

definition ROL32 :: "u32 \<Rightarrow> nat \<Rightarrow> u32" where
  "ROL32 x n = push_bit n x OR drop_bit (32 - n) x"

definition sha1_schedule :: "u8 list \<Rightarrow> u32 list" where
  "sha1_schedule block =
     fold (\<lambda>i w. w @ [ROL32 (w ! (i - 3) XOR w ! (i - 8) XOR w ! (i - 14) XOR w ! (i - 16)) 1]) [16..<80]
       (map (\<lambda>i. load_be32 block (i * 4)) [0..<16])"

definition sha1_round :: "u32 list \<Rightarrow> nat \<Rightarrow> u32 \<times> u32 \<times> u32 \<times> u32 \<times> u32 \<Rightarrow> u32 \<times> u32 \<times> u32 \<times> u32 \<times> u32" where
  "sha1_round w i = (\<lambda>(a, b, c, d, e).
     let (f, k) = (if i < 20 then ((b AND c) OR (NOT b AND d), 0x5A827999)
                   else if i < 40 then (b XOR c XOR d, 0x6ED9EBA1)
                   else if i < 60 then ((b AND c) OR (b AND d) OR (c AND d), 0x8F1BBCDC)
                   else (b XOR c XOR d, 0xCA62C1D6));
         tmp = ROL32 a 5 + f + e + k + w ! i
     in (tmp, a, ROL32 b 30, c, d))"

definition sha1_compress :: "u32 list \<Rightarrow> u8 list \<Rightarrow> u32 list" where
  "sha1_compress st block =
     (let w = sha1_schedule block;
          (a, b, c, d, e) = fold (sha1_round w) [0..<80] (st ! 0, st ! 1, st ! 2, st ! 3, st ! 4)
      in [st ! 0 + a, st ! 1 + b, st ! 2 + c, st ! 3 + d, st ! 4 + e])"

definition SHA1_IV :: "u32 list" where
  "SHA1_IV = [0x67452301, 0xEFCDAB89, 0x98BADCFE, 0x10325476, 0xC3D2E1F0]"

definition anx_sha1_init :: "u32 hash_ctx \<Rightarrow> u32 hash_ctx" where
  "anx_sha1_init ctx = ctx\<lparr>hc_state := SHA1_IV, hc_total := 0\<rparr>"

definition anx_sha1_update :: "u32 hash_ctx \<Rightarrow> u8 list \<Rightarrow> u32 hash_ctx" where
  "anx_sha1_update ctx p =
     (let buffered = unat (hc_total ctx AND 63); ctx = ctx\<lparr>hc_total := hc_total ctx + of_nat (length p)\<rparr>;
          blocks = (\<lambda>ctx p. let (st, rest) = block_loop 64 sha1_compress (hc_state ctx) p
                            in ctx\<lparr>hc_state := st, hc_buf := copy_at 0 rest (hc_buf ctx)\<rparr>)
      in if 0 < buffered then
           let space = 64 - buffered
           in if length p < space then ctx\<lparr>hc_buf := copy_at buffered p (hc_buf ctx)\<rparr>
              else let buf = copy_at buffered (take space p) (hc_buf ctx)
                   in blocks (ctx\<lparr>hc_buf := buf, hc_state := sha1_compress (hc_state ctx) buf\<rparr>) (drop space p)
         else blocks ctx p)"

definition anx_sha1_final :: "u32 hash_ctx \<Rightarrow> u8 list" where
  "anx_sha1_final ctx =
     (let total_bits = hc_total ctx * 8; buffered = unat (hc_total ctx AND 63);
          buf = copy_at buffered [0x80] (hc_buf ctx); buffered = buffered + 1;
          (st, buf, buffered) =
            (if 56 < buffered then
               let buf = zero_at buffered (64 - buffered) buf in (sha1_compress (hc_state ctx) buf, buf, 0)
             else (hc_state ctx, buf, buffered));
          buf = zero_at buffered (56 - buffered) buf;
          buf = copy_at 56 (store_be64 total_bits) buf
      in concat (map store_be32 (sha1_compress st buf)))"

text \<open>The one-shot functions start from a context on the stack, of which \<open>init\<close> leaves the
  buffer as it is.\<close>

definition fresh_ctx :: "nat \<Rightarrow> 'w hash_ctx" where
  "fresh_ctx B = \<lparr>hc_state = [], hc_buf = replicate B 0, hc_total = 0\<rparr>"

definition anx_sha1 :: "u8 list \<Rightarrow> u8 list" where
  "anx_sha1 data = anx_sha1_final (anx_sha1_update (anx_sha1_init (fresh_ctx 64)) data)"

subsection \<open>SHA-256\<close>

text \<open>The table of 64 round constants is the argument \<open>K\<close>: nothing below depends on its entries.\<close>

definition ROR32 :: "u32 \<Rightarrow> nat \<Rightarrow> u32" where
  "ROR32 x n = drop_bit n x OR push_bit (32 - n) x"

definition CH :: "'a::len word \<Rightarrow> 'a word \<Rightarrow> 'a word \<Rightarrow> 'a word" where
  "CH x y z = (x AND y) XOR (NOT x AND z)"

definition MAJ :: "'a::len word \<Rightarrow> 'a word \<Rightarrow> 'a word \<Rightarrow> 'a word" where
  "MAJ x y z = (x AND y) XOR (x AND z) XOR (y AND z)"

definition sha256_EP0 :: "u32 \<Rightarrow> u32" where "sha256_EP0 x = ROR32 x 2 XOR ROR32 x 13 XOR ROR32 x 22"
definition sha256_EP1 :: "u32 \<Rightarrow> u32" where "sha256_EP1 x = ROR32 x 6 XOR ROR32 x 11 XOR ROR32 x 25"
definition sha256_SIG0 :: "u32 \<Rightarrow> u32" where "sha256_SIG0 x = ROR32 x 7 XOR ROR32 x 18 XOR drop_bit 3 x"
definition sha256_SIG1 :: "u32 \<Rightarrow> u32" where "sha256_SIG1 x = ROR32 x 17 XOR ROR32 x 19 XOR drop_bit 10 x"

definition sha256_schedule :: "u8 list \<Rightarrow> u32 list" where
  "sha256_schedule block =
     fold (\<lambda>i w. w @ [sha256_SIG1 (w ! (i - 2)) + w ! (i - 7) + sha256_SIG0 (w ! (i - 15)) + w ! (i - 16)]) [16..<64]
       (map (\<lambda>i. load_be32 block (i * 4)) [0..<16])"

definition sha256_round :: "u32 list \<Rightarrow> u32 list \<Rightarrow> nat \<Rightarrow> u32 \<times> u32 \<times> u32 \<times> u32 \<times> u32 \<times> u32 \<times> u32 \<times> u32 \<Rightarrow>
    u32 \<times> u32 \<times> u32 \<times> u32 \<times> u32 \<times> u32 \<times> u32 \<times> u32" where
  "sha256_round K w i = (\<lambda>(a, b, c, d, e, f, g, h).
     let t1 = h + sha256_EP1 e + CH e f g + K ! i + w ! i; t2 = sha256_EP0 a + MAJ a b c
     in (t1 + t2, a, b, c, d + t1, e, f, g))"

definition sha256_compress :: "u32 list \<Rightarrow> u32 list \<Rightarrow> u8 list \<Rightarrow> u32 list" where
  "sha256_compress K st block =
     (let w = sha256_schedule block;
          (a, b, c, d, e, f, g, h) = fold (sha256_round K w) [0..<64]
            (st ! 0, st ! 1, st ! 2, st ! 3, st ! 4, st ! 5, st ! 6, st ! 7)
      in [st ! 0 + a, st ! 1 + b, st ! 2 + c, st ! 3 + d, st ! 4 + e, st ! 5 + f, st ! 6 + g, st ! 7 + h])"

definition SHA256_IV :: "u32 list" where
  "SHA256_IV = [0x6a09e667, 0xbb67ae85, 0x3c6ef372, 0xa54ff53a, 0x510e527f, 0x9b05688c, 0x1f83d9ab, 0x5be0cd19]"

definition anx_sha256_init :: "u32 hash_ctx \<Rightarrow> u32 hash_ctx" where
  "anx_sha256_init ctx = ctx\<lparr>hc_state := SHA256_IV, hc_total := 0\<rparr>"

definition anx_sha256_update :: "u32 list \<Rightarrow> u32 hash_ctx \<Rightarrow> u8 list \<Rightarrow> u32 hash_ctx" where
  "anx_sha256_update K ctx p =
     (let buffered = unat (hc_total ctx AND 63); ctx = ctx\<lparr>hc_total := hc_total ctx + of_nat (length p)\<rparr>;
          blocks = (\<lambda>ctx p. let (st, rest) = block_loop 64 (sha256_compress K) (hc_state ctx) p
                            in ctx\<lparr>hc_state := st, hc_buf := copy_at 0 rest (hc_buf ctx)\<rparr>)
      in if 0 < buffered then
           let space = 64 - buffered
           in if length p < space then ctx\<lparr>hc_buf := copy_at buffered p (hc_buf ctx)\<rparr>
              else let buf = copy_at buffered (take space p) (hc_buf ctx)
                   in blocks (ctx\<lparr>hc_buf := buf, hc_state := sha256_compress K (hc_state ctx) buf\<rparr>) (drop space p)
         else blocks ctx p)"

definition anx_sha256_final :: "u32 list \<Rightarrow> u32 hash_ctx \<Rightarrow> u8 list" where
  "anx_sha256_final K ctx =
     (let total_bits = hc_total ctx * 8; buffered = unat (hc_total ctx AND 63);
          buf = copy_at buffered [0x80] (hc_buf ctx); buffered = buffered + 1;
          (st, buf, buffered) =
            (if 56 < buffered then
               let buf = zero_at buffered (64 - buffered) buf in (sha256_compress K (hc_state ctx) buf, buf, 0)
             else (hc_state ctx, buf, buffered));
          buf = zero_at buffered (56 - buffered) buf;
          buf = copy_at 56 (store_be64 total_bits) buf
      in concat (map store_be32 (sha256_compress K st buf)))"

definition anx_sha256 :: "u32 list \<Rightarrow> u8 list \<Rightarrow> u8 list" where
  "anx_sha256 K data = anx_sha256_final K (anx_sha256_update K (anx_sha256_init (fresh_ctx 64)) data)"

subsection \<open>SHA-512\<close>

definition ROR64 :: "u64 \<Rightarrow> nat \<Rightarrow> u64" where
  "ROR64 x n = drop_bit n x OR push_bit (64 - n) x"

definition sha512_EP0 :: "u64 \<Rightarrow> u64" where "sha512_EP0 x = ROR64 x 28 XOR ROR64 x 34 XOR ROR64 x 39"
definition sha512_EP1 :: "u64 \<Rightarrow> u64" where "sha512_EP1 x = ROR64 x 14 XOR ROR64 x 18 XOR ROR64 x 41"
definition sha512_SIG0 :: "u64 \<Rightarrow> u64" where "sha512_SIG0 x = ROR64 x 1 XOR ROR64 x 8 XOR drop_bit 7 x"
definition sha512_SIG1 :: "u64 \<Rightarrow> u64" where "sha512_SIG1 x = ROR64 x 19 XOR ROR64 x 61 XOR drop_bit 6 x"

definition load_be64 :: "u8 list \<Rightarrow> nat \<Rightarrow> u64" where
  "load_be64 p i = push_bit 56 (ucast (p ! i)) OR push_bit 48 (ucast (p ! (i + 1))) OR push_bit 40 (ucast (p ! (i + 2))) OR
     push_bit 32 (ucast (p ! (i + 3))) OR push_bit 24 (ucast (p ! (i + 4))) OR push_bit 16 (ucast (p ! (i + 5))) OR
     push_bit 8 (ucast (p ! (i + 6))) OR ucast (p ! (i + 7))"

definition sha512_store_be64 :: "u64 \<Rightarrow> u8 list" where
  "sha512_store_be64 v = [ucast (drop_bit 56 v), ucast (drop_bit 48 v), ucast (drop_bit 40 v), ucast (drop_bit 32 v),
     ucast (drop_bit 24 v), ucast (drop_bit 16 v), ucast (drop_bit 8 v), ucast v]"

definition sha512_schedule :: "u8 list \<Rightarrow> u64 list" where
  "sha512_schedule block =
     fold (\<lambda>i w. w @ [sha512_SIG1 (w ! (i - 2)) + w ! (i - 7) + sha512_SIG0 (w ! (i - 15)) + w ! (i - 16)]) [16..<80]
       (map (\<lambda>i. load_be64 block (i * 8)) [0..<16])"

definition sha512_round :: "u64 list \<Rightarrow> u64 list \<Rightarrow> nat \<Rightarrow> u64 \<times> u64 \<times> u64 \<times> u64 \<times> u64 \<times> u64 \<times> u64 \<times> u64 \<Rightarrow>
    u64 \<times> u64 \<times> u64 \<times> u64 \<times> u64 \<times> u64 \<times> u64 \<times> u64" where
  "sha512_round K w i = (\<lambda>(a, b, c, d, e, f, g, h).
     let t1 = h + sha512_EP1 e + CH e f g + K ! i + w ! i; t2 = sha512_EP0 a + MAJ a b c
     in (t1 + t2, a, b, c, d + t1, e, f, g))"

definition sha512_compress :: "u64 list \<Rightarrow> u64 list \<Rightarrow> u8 list \<Rightarrow> u64 list" where
  "sha512_compress K st block =
     (let w = sha512_schedule block;
          (a, b, c, d, e, f, g, h) = fold (sha512_round K w) [0..<80]
            (st ! 0, st ! 1, st ! 2, st ! 3, st ! 4, st ! 5, st ! 6, st ! 7)
      in [st ! 0 + a, st ! 1 + b, st ! 2 + c, st ! 3 + d, st ! 4 + e, st ! 5 + f, st ! 6 + g, st ! 7 + h])"

definition SHA512_IV :: "u64 list" where
  "SHA512_IV = [0x6a09e667f3bcc908, 0xbb67ae8584caa73b, 0x3c6ef372fe94f82b, 0xa54ff53a5f1d36f1,
     0x510e527fade682d1, 0x9b05688c2b3e6c1f, 0x1f83d9abfb41bd6b, 0x5be0cd19137e2179]"

definition anx_sha512_init :: "u64 hash_ctx \<Rightarrow> u64 hash_ctx" where
  "anx_sha512_init ctx = ctx\<lparr>hc_state := SHA512_IV, hc_total := 0\<rparr>"

definition anx_sha512_update :: "u64 list \<Rightarrow> u64 hash_ctx \<Rightarrow> u8 list \<Rightarrow> u64 hash_ctx" where
  "anx_sha512_update K ctx p =
     (let buffered = unat (hc_total ctx AND 127); ctx = ctx\<lparr>hc_total := hc_total ctx + of_nat (length p)\<rparr>;
          blocks = (\<lambda>ctx p. let (st, rest) = block_loop 128 (sha512_compress K) (hc_state ctx) p
                            in ctx\<lparr>hc_state := st, hc_buf := copy_at 0 rest (hc_buf ctx)\<rparr>)
      in if 0 < buffered then
           let space = 128 - buffered
           in if length p < space then ctx\<lparr>hc_buf := copy_at buffered p (hc_buf ctx)\<rparr>
              else let buf = copy_at buffered (take space p) (hc_buf ctx)
                   in blocks (ctx\<lparr>hc_buf := buf, hc_state := sha512_compress K (hc_state ctx) buf\<rparr>) (drop space p)
         else blocks ctx p)"

definition anx_sha512_final :: "u64 list \<Rightarrow> u64 hash_ctx \<Rightarrow> u8 list" where
  "anx_sha512_final K ctx =
     (let total_bits = hc_total ctx * 8; buffered = unat (hc_total ctx AND 127);
          buf = copy_at buffered [0x80] (hc_buf ctx); buffered = buffered + 1;
          (st, buf, buffered) =
            (if 112 < buffered then
               let buf = zero_at buffered (128 - buffered) buf in (sha512_compress K (hc_state ctx) buf, buf, 0)
             else (hc_state ctx, buf, buffered));
          buf = zero_at buffered (112 - buffered) buf;
          buf = zero_at 112 8 buf;
          buf = copy_at 120 (sha512_store_be64 total_bits) buf
      in concat (map sha512_store_be64 (sha512_compress K st buf)))"

definition anx_sha512 :: "u64 list \<Rightarrow> u8 list \<Rightarrow> u8 list" where
  "anx_sha512 K data = anx_sha512_final K (anx_sha512_update K (anx_sha512_init (fresh_ctx 128)) data)"

subsection \<open>HMAC, PBKDF2 and the 802.11 PRF\<close>

text \<open>The key block: 64 bytes of \<open>c\<close>, the key xored into the first ones.\<close>

definition hmac_kpad :: "u8 \<Rightarrow> u8 list \<Rightarrow> u8 list" where
  "hmac_kpad c key = fold (\<lambda>i kpad. kpad[i := kpad ! i XOR key ! i]) [0..<length key] (replicate 64 c)"

definition anx_hmac_sha256 :: "u32 list \<Rightarrow> u8 list \<Rightarrow> u8 list \<Rightarrow> u8 list" where
  "anx_hmac_sha256 K key data =
     (let key = (if 64 < length key then anx_sha256 K key else key);
          ctx = anx_sha256_update K (anx_sha256_init (fresh_ctx 64)) (hmac_kpad 0x36 key);
          out = anx_sha256_final K (anx_sha256_update K ctx data);
          ctx = anx_sha256_update K (anx_sha256_init (fresh_ctx 64)) (hmac_kpad 0x5c key)
      in anx_sha256_final K (anx_sha256_update K ctx out))"

definition anx_hmac_sha1 :: "u8 list \<Rightarrow> u8 list \<Rightarrow> u8 list" where
  "anx_hmac_sha1 key data =
     (let key = (if 64 < length key then anx_sha1 key else key);
          ctx = anx_sha1_update (anx_sha1_init (fresh_ctx 64)) (hmac_kpad 0x36 key);
          out = anx_sha1_final (anx_sha1_update ctx data);
          ctx = anx_sha1_update (anx_sha1_init (fresh_ctx 64)) (hmac_kpad 0x5c key)
      in anx_sha1_final (anx_sha1_update ctx out))"

definition xor_bytes :: "u8 list \<Rightarrow> u8 list \<Rightarrow> u8 list" where
  "xor_bytes xs ys = map2 (XOR) xs ys"

text \<open>The inner loop: \<open>U\<close> is hashed again and xored into the block.\<close>

primrec pbkdf2_iter :: "u8 list \<Rightarrow> nat \<Rightarrow> u8 list \<times> u8 list \<Rightarrow> u8 list \<times> u8 list" where
  "pbkdf2_iter pass 0 bu = bu"
| "pbkdf2_iter pass (Suc n) bu =
     (let (block, U) = bu; U = anx_hmac_sha1 pass U in pbkdf2_iter pass n (xor_bytes block U, U))"

function pbkdf2_loop :: "u8 list \<Rightarrow> u8 list \<Rightarrow> u32 \<Rightarrow> u32 \<Rightarrow> nat \<Rightarrow> u8 list" where
  "pbkdf2_loop pass salt iters blk out_len =
     (if out_len = 0 then []
      else let U = anx_hmac_sha1 pass (salt @ store_be32 blk);
               block = fst (pbkdf2_iter pass (unat iters - 1) (U, U));
               tk = (if 20 < out_len then 20 else out_len)
           in take tk block @ pbkdf2_loop pass salt iters (blk + 1) (out_len - tk))"
  by pat_completeness auto
termination by (relation "measure (\<lambda>(p, s, i, b, n). n)") auto

declare pbkdf2_loop.simps [simp del]

definition anx_pbkdf2_hmac_sha1 :: "u8 list \<Rightarrow> u8 list \<Rightarrow> u32 \<Rightarrow> nat \<Rightarrow> u8 list" where
  "anx_pbkdf2_hmac_sha1 pass salt iters out_len = pbkdf2_loop pass (if 252 < length salt then take 252 salt else salt) iters 1 out_len"

text \<open>The PRF builds its input in a buffer of 512 bytes on the stack and never checks that the
  label and the data fit: a write behind the end of a buffer has no result.\<close>

definition store_at :: "nat \<Rightarrow> u8 list \<Rightarrow> u8 list \<Rightarrow> u8 list option" where
  "store_at n ys buf = (if n + length ys \<le> length buf then Some (copy_at n ys buf) else None)"

function prf_loop :: "u8 list \<Rightarrow> nat \<Rightarrow> u8 \<Rightarrow> nat \<Rightarrow> u8 list \<Rightarrow> u8 list option" where
  "prf_loop key base_len counter out_len ibuf =
     (if out_len = 0 then Some []
      else case store_at base_len [counter] ibuf of
             None \<Rightarrow> None
           | Some ibuf \<Rightarrow>
               let hash = anx_hmac_sha1 key (take (base_len + 1) ibuf); tk = (if 20 < out_len then 20 else out_len)
               in map_option (\<lambda>rest. take tk hash @ rest) (prf_loop key base_len (counter + 1) (out_len - tk) ibuf))"
  by pat_completeness auto
termination by (relation "measure (\<lambda>(k, b, c, n, i). n)") auto

declare prf_loop.simps [simp del]

definition anx_prf_sha1 :: "u8 list \<Rightarrow> u8 list \<Rightarrow> u8 list \<Rightarrow> nat \<Rightarrow> u8 list option" where
  "anx_prf_sha1 key label data out_len =
     (case store_at 0 label (replicate 512 0) of
        None \<Rightarrow> None
      | Some ibuf \<Rightarrow>
          case store_at (length label) [0] ibuf of
            None \<Rightarrow> None
          | Some ibuf \<Rightarrow>
              case store_at (length label + 1) data ibuf of
                None \<Rightarrow> None
              | Some ibuf \<Rightarrow> prf_loop key (length label + 1 + length data) 0 out_len ibuf)"

subsection \<open>Padded blocks\<close>

text \<open>The reference: the message is padded with one bit, zeros and its length in bits up to a
  multiple of the block size \<open>B\<close>, \<open>F\<close> bytes of it being the length field, and the blocks are
  compressed in order.\<close>

definition md_pad :: "nat \<Rightarrow> nat \<Rightarrow> (u64 \<Rightarrow> u8 list) \<Rightarrow> u8 list \<Rightarrow> u8 list" where
  "md_pad B F lf msg =
     msg @ [0x80] @ replicate ((B - (length msg + 1 + F) mod B) mod B) 0 @ lf (of_nat (length msg * 8))"

definition md_digest :: "nat \<Rightarrow> nat \<Rightarrow> (u64 \<Rightarrow> u8 list) \<Rightarrow> ('w \<Rightarrow> u8 list) \<Rightarrow> ('w list \<Rightarrow> u8 list \<Rightarrow> 'w list) \<Rightarrow> 'w list \<Rightarrow> u8 list \<Rightarrow> u8 list" where
  "md_digest B F lf emit compress iv msg = concat (map emit (fst (block_loop B compress iv (md_pad B F lf msg))))"

definition be128_length :: "u64 \<Rightarrow> u8 list" where
  "be128_length v = replicate 8 0 @ sha512_store_be64 v"

definition sha1_digest :: "u8 list \<Rightarrow> u8 list" where
  "sha1_digest = md_digest 64 8 store_be64 store_be32 sha1_compress SHA1_IV"

definition sha256_digest :: "u32 list \<Rightarrow> u8 list \<Rightarrow> u8 list" where
  "sha256_digest K = md_digest 64 8 store_be64 store_be32 (sha256_compress K) SHA256_IV"

definition sha512_digest :: "u64 list \<Rightarrow> u8 list \<Rightarrow> u8 list" where
  "sha512_digest K = md_digest 128 16 be128_length sha512_store_be64 (sha512_compress K) SHA512_IV"

text \<open>The shape the three implementations share.\<close>

definition md_update :: "nat \<Rightarrow> ('w list \<Rightarrow> u8 list \<Rightarrow> 'w list) \<Rightarrow> 'w hash_ctx \<Rightarrow> u8 list \<Rightarrow> 'w hash_ctx" where
  "md_update B compress ctx p =
     (let buffered = unat (hc_total ctx) mod B; ctx = ctx\<lparr>hc_total := hc_total ctx + of_nat (length p)\<rparr>;
          blocks = (\<lambda>ctx p. let (st, rest) = block_loop B compress (hc_state ctx) p
                            in ctx\<lparr>hc_state := st, hc_buf := copy_at 0 rest (hc_buf ctx)\<rparr>)
      in if 0 < buffered then
           let space = B - buffered
           in if length p < space then ctx\<lparr>hc_buf := copy_at buffered p (hc_buf ctx)\<rparr>
              else let buf = copy_at buffered (take space p) (hc_buf ctx)
                   in blocks (ctx\<lparr>hc_buf := buf, hc_state := compress (hc_state ctx) buf\<rparr>) (drop space p)
         else blocks ctx p)"

definition md_final :: "nat \<Rightarrow> nat \<Rightarrow> (u64 \<Rightarrow> u8 list) \<Rightarrow> ('w \<Rightarrow> u8 list) \<Rightarrow> ('w list \<Rightarrow> u8 list \<Rightarrow> 'w list) \<Rightarrow> 'w hash_ctx \<Rightarrow> u8 list" where
  "md_final B F lf emit compress ctx =
     (let buffered = unat (hc_total ctx) mod B;
          buf = copy_at buffered [0x80] (hc_buf ctx); buffered = buffered + 1;
          (st, buf, buffered) =
            (if B - F < buffered then
               let buf = zero_at buffered (B - buffered) buf in (compress (hc_state ctx) buf, buf, 0)
             else (hc_state ctx, buf, buffered));
          buf = zero_at buffered (B - F - buffered) buf;
          buf = copy_at (B - F) (lf (hc_total ctx * 8)) buf
      in concat (map emit (compress st buf)))"

lemma length_copy_at: "n + length ys \<le> length xs \<Longrightarrow> length (copy_at n ys xs) = length xs"
  by (simp add: copy_at_def)

lemma take_copy_at: "n \<le> length xs \<Longrightarrow> take (n + length ys) (copy_at n ys xs) = take n xs @ ys"
  by (simp add: copy_at_def)

lemma copy_at_full: "n + length ys = length xs \<Longrightarrow> copy_at n ys xs = take n xs @ ys"
  by (simp add: copy_at_def)

lemma block_loop_short: "length p < B \<Longrightarrow> block_loop B c st p = (st, p)"
  by (simp add: block_loop.simps)

lemma block_loop_full: "0 < B \<Longrightarrow> length b = B \<Longrightarrow> block_loop B c st (b @ p) = block_loop B c (c st b) p"
  by (simp add: block_loop.simps [of B c st])

lemma block_loop_rest: "0 < B \<Longrightarrow> block_loop B c st p = (st', r) \<Longrightarrow> length r = length p mod B"
proof (induction "length p" arbitrary: p st rule: less_induct)
  case less
  show ?case
  proof (cases "B \<le> length p")
    case True
    then have "block_loop B c (c st (take B p)) (drop B p) = (st', r)" using less.prems by (simp add: block_loop.simps [of B c st p])
    then have "length r = (length p - B) mod B" using less.hyps [of "drop B p"] less.prems(1) True by simp
    then show ?thesis using True by (simp add: le_mod_geq)
  next
    case False
    then show ?thesis using less.prems by (simp add: block_loop_short)
  qed
qed

lemma block_loop_append:
  "0 < B \<Longrightarrow> block_loop B c st p = (st', r) \<Longrightarrow> block_loop B c st (p @ q) = block_loop B c st' (r @ q)"
proof (induction "length p" arbitrary: p st rule: less_induct)
  case less
  show ?case
  proof (cases "B \<le> length p")
    case True
    then have 1: "block_loop B c (c st (take B p)) (drop B p) = (st', r)" using less.prems by (simp add: block_loop.simps [of B c st p])
    have "block_loop B c st (p @ q) = block_loop B c (c st (take B p)) (drop B p @ q)"
      using block_loop_full [of B "take B p" c st "drop B p @ q"] less.prems(1) True by (simp flip: append_assoc)
    then show ?thesis using less.hyps [OF _ less.prems(1) 1] less.prems(1) True by simp
  next
    case False
    then show ?thesis using less.prems by (simp add: block_loop_short)
  qed
qed

subsection \<open>Streaming contexts\<close>

locale md_stream =
  fixes B F :: nat and lf :: "u64 \<Rightarrow> u8 list" and emit :: "'w \<Rightarrow> u8 list"
    and compress :: "'w list \<Rightarrow> u8 list \<Rightarrow> 'w list" and iv :: "'w list"
    and init :: "'w hash_ctx \<Rightarrow> 'w hash_ctx" and update :: "'w hash_ctx \<Rightarrow> u8 list \<Rightarrow> 'w hash_ctx" and final :: "'w hash_ctx \<Rightarrow> u8 list"
  assumes field: "F < B" and block: "B dvd 2 ^ 64" and field_length: "length (lf v) = F"
    and init_eq: "init ctx = ctx\<lparr>hc_state := iv, hc_total := 0\<rparr>"
    and update_eq: "update ctx p = md_update B compress ctx p"
    and final_eq: "length (hc_buf ctx) = B \<Longrightarrow> final ctx = md_final B F lf emit compress ctx"
begin

text \<open>The context has absorbed \<open>msg\<close>.\<close>

definition absorbed :: "'w hash_ctx \<Rightarrow> u8 list \<Rightarrow> bool" where
  "absorbed ctx msg \<longleftrightarrow> length (hc_buf ctx) = B \<and> hc_total ctx = of_nat (length msg) \<and>
     (\<exists>r. block_loop B compress iv msg = (hc_state ctx, r) \<and> take (length r) (hc_buf ctx) = r)"

lemma positive: "0 < B" using field by simp

lemma buffered: "unat (of_nat n :: u64) mod B = n mod B"
  using block by (simp add: unat_of_nat mod_mod_cancel)

lemma absorbed_init: "length (hc_buf ctx) = B \<Longrightarrow> absorbed (init ctx) []"
  using positive by (simp add: absorbed_def init_eq block_loop_short)

lemma absorbed_update:
  assumes "absorbed ctx msg"
  shows "absorbed (update ctx p) (msg @ p)"
proof -
  from assms obtain r where r: "block_loop B compress iv msg = (hc_state ctx, r)" "take (length r) (hc_buf ctx) = r"
    and b: "length (hc_buf ctx) = B" "hc_total ctx = of_nat (length msg)" by (auto simp: absorbed_def)
  have len: "length r = length msg mod B" "length r < B" using block_loop_rest [OF positive r(1)] positive by simp_all
  have rp: "block_loop B compress iv (msg @ p) = block_loop B compress (hc_state ctx) (r @ p)"
    by (rule block_loop_append [OF positive r(1)])
  have tail: "absorbed (let (st, rest) = block_loop B compress (hc_state c) q in c\<lparr>hc_state := st, hc_buf := copy_at 0 rest (hc_buf c)\<rparr>) (msg @ p)"
    if c: "length (hc_buf c) = B" "hc_total c = of_nat (length (msg @ p))" and q: "block_loop B compress (hc_state ctx) (r @ p) = block_loop B compress (hc_state c) q" for c q
  proof -
    obtain st rest where l: "block_loop B compress (hc_state c) q = (st, rest)" by fastforce
    have "length rest < B" using block_loop_rest [OF positive l] positive by simp
    then show ?thesis using c q l rp length_copy_at [of 0 rest "hc_buf c"] take_copy_at [of 0 "hc_buf c" rest] by (simp add: absorbed_def)
  qed
  show ?thesis
  proof (cases "r = []")
    case True
    then show ?thesis using tail [of "ctx\<lparr>hc_total := hc_total ctx + of_nat (length p)\<rparr>" p] b len
      by (simp add: update_eq md_update_def buffered Let_def)
  next
    case False
    then have ne: "0 < length msg mod B" "length msg mod B = length r" using len(1) by (metis length_greater_0_conv, metis)
    show ?thesis
    proof (cases "length p < B - length r")
      case True
      then have "block_loop B compress (hc_state ctx) (r @ p) = (hc_state ctx, r @ p)" by (simp add: block_loop_short)
      then show ?thesis using True ne b len(2) rp r(2) take_copy_at [of "length r" "hc_buf ctx" p] length_copy_at [of "length r" p "hc_buf ctx"]
        by (simp add: update_eq md_update_def buffered Let_def absorbed_def)
    next
      case full: False
      let ?s = "B - length r"
      have buf: "copy_at (length r) (take ?s p) (hc_buf ctx) = r @ take ?s p"
        using copy_at_full [of "length r" "take ?s p" "hc_buf ctx"] b r(2) full len by simp
      have "block_loop B compress (hc_state ctx) (r @ p) = block_loop B compress (compress (hc_state ctx) (r @ take ?s p)) (drop ?s p)"
        using block_loop_full [of B "r @ take ?s p" compress "hc_state ctx" "drop ?s p"] positive full len by simp
      then show ?thesis
        using tail [of "ctx\<lparr>hc_total := hc_total ctx + of_nat (length p), hc_buf := r @ take ?s p, hc_state := compress (hc_state ctx) (r @ take ?s p)\<rparr>" "drop ?s p"]
          full ne b len(2) buf by (simp add: update_eq md_update_def buffered Let_def)
    qed
  qed
qed

lemma absorbed_fold: "absorbed ctx msg \<Longrightarrow> absorbed (fold (\<lambda>p ctx. update ctx p) ps ctx) (msg @ concat ps)"
proof (induction ps arbitrary: ctx msg)
  case (Cons p ps)
  then show ?case using Cons.IH [OF absorbed_update [OF Cons.prems, of p]] by simp
qed simp

lemma pad_zeros:
  assumes "r < B"
  shows "(B - (m * B + r + 1 + F) mod B) mod B = (if B - F < r + 1 then (B - (r + 1)) + (B - F) else B - F - (r + 1))"
proof (cases "B - F < r + 1")
  case True
  then have "r + 1 + F < 2 * B" "B < r + 1 + F" using field assms by simp_all
  then have "(m * B + r + 1 + F) mod B = r + 1 + F - B"
    by (metis (no_types, lifting) add.assoc le_mod_geq less_imp_le_nat mod_less mod_mult_self3 mult_2 nat_add_left_cancel_less ordered_cancel_comm_monoid_diff_class.le_diff_conv2 ordered_cancel_comm_monoid_diff_class.add_diff_inverse)
  then show ?thesis using True field assms by simp
next
  case False
  then have "r + 1 + F \<le> B" using field by simp
  moreover have "(m * B + r + 1 + F) mod B = (r + 1 + F) mod B" by (metis add.assoc mod_mult_self3)
  ultimately show ?thesis using False field by (cases "r + 1 + F = B") simp_all
qed

lemma final_absorbed:
  assumes "absorbed ctx msg"
  shows "final ctx = md_digest B F lf emit compress iv msg"
proof -
  from assms obtain r where r: "block_loop B compress iv msg = (hc_state ctx, r)" "take (length r) (hc_buf ctx) = r"
    and b: "length (hc_buf ctx) = B" "hc_total ctx = of_nat (length msg)" by (auto simp: absorbed_def)
  let ?n = "length r" and ?l = "lf (of_nat (length msg) * 8)"
  have len: "?n = length msg mod B" "?n < B" using block_loop_rest [OF positive r(1)] positive by simp_all
  have z: "(B - (length msg + 1 + F) mod B) mod B = (if B - F < ?n + 1 then (B - (?n + 1)) + (B - F) else B - F - (?n + 1))"
    using pad_zeros [OF len(2), of "length msg div B"] len(1) by simp
  have buf0: "length (copy_at ?n [0x80] (hc_buf ctx)) = B" "take (?n + 1) (copy_at ?n [0x80] (hc_buf ctx)) = r @ [0x80]"
    using len b r(2) length_copy_at [of ?n "[0x80]" "hc_buf ctx"] take_copy_at [of ?n "hc_buf ctx" "[0x80]"] by simp_all
  have last: "copy_at (B - F) ?l (zero_at k (B - F - k) c) = take k c @ replicate (B - F - k) 0 @ ?l" if "length c = B" "k \<le> B - F" for k c
    using that field field_length by (simp add: zero_at_def copy_at_def)
  have pad: "block_loop B compress iv (md_pad B F lf msg) =
      block_loop B compress (hc_state ctx) (r @ [0x80] @ replicate ((B - (length msg + 1 + F) mod B) mod B) 0 @ ?l)"
    unfolding md_pad_def of_nat_mult of_nat_numeral by (rule block_loop_append [OF positive r(1)])
  show ?thesis
  proof (cases "B - F < ?n + 1")
    case True
    let ?b1 = "r @ [0x80] @ replicate (B - (?n + 1)) 0" and ?b2 = "replicate (B - F) 0 @ ?l"
    have b1: "zero_at (?n + 1) (B - (?n + 1)) (copy_at ?n [0x80] (hc_buf ctx)) = ?b1"
      using copy_at_full [of "?n + 1" "replicate (B - (?n + 1)) 0" "copy_at ?n [0x80] (hc_buf ctx)"] buf0 len by (simp add: zero_at_def)
    have "block_loop B compress (hc_state ctx) (?b1 @ ?b2) = (compress (compress (hc_state ctx) ?b1) ?b2, [])"
      using block_loop_full [of B ?b1 compress "hc_state ctx" ?b2] block_loop_full [of B ?b2 compress _ "[]"] positive len field field_length
        block_loop_short [of "[]" B] by simp
    moreover have "?b1 @ ?b2 = r @ [0x80] @ replicate ((B - (length msg + 1 + F) mod B) mod B) 0 @ ?l" using z True by (simp add: replicate_add)
    ultimately have "block_loop B compress iv (md_pad B F lf msg) = (compress (compress (hc_state ctx) ?b1) ?b2, [])"
      unfolding pad by (simp only:)
    then have "md_digest B F lf emit compress iv msg = concat (map emit (compress (compress (hc_state ctx) ?b1) ?b2))"
      by (simp only: md_digest_def fst_conv)
    moreover have "final ctx = concat (map emit (compress (compress (hc_state ctx) ?b1) ?b2))"
      using True b1 last [of ?b1 0] len b by (simp add: final_eq md_final_def buffered Let_def)
    ultimately show ?thesis by simp
  next
    case False
    let ?b = "r @ [0x80] @ replicate (B - F - (?n + 1)) 0 @ ?l"
    have "length ?b = B" using False field field_length len by simp
    then have "block_loop B compress (hc_state ctx) ?b = (compress (hc_state ctx) ?b, [])"
      using block_loop_full [of B ?b compress "hc_state ctx" "[]"] block_loop_short [of "[]" B] positive by simp
    then have "md_digest B F lf emit compress iv msg = concat (map emit (compress (hc_state ctx) ?b))"
      unfolding md_digest_def pad using z False by simp
    moreover have "final ctx = concat (map emit (compress (hc_state ctx) ?b))"
      using False last [of "copy_at ?n [0x80] (hc_buf ctx)" "?n + 1"] buf0 len b by (simp add: final_eq md_final_def buffered Let_def)
    ultimately show ?thesis by simp
  qed
qed

lemma stream_digest:
  "length (hc_buf ctx) = B \<Longrightarrow> final (fold (\<lambda>p ctx. update ctx p) ps (init ctx)) = md_digest B F lf emit compress iv (concat ps)"
  using final_absorbed [OF absorbed_fold [OF absorbed_init]] by simp

lemma two_digest:
  "length (hc_buf ctx) = B \<Longrightarrow> final (update (update (init ctx) p) q) = md_digest B F lf emit compress iv (p @ q)"
  using stream_digest [of ctx "[p, q]"] by simp

lemma one_digest: "length (hc_buf ctx) = B \<Longrightarrow> final (update (init ctx) p) = md_digest B F lf emit compress iv p"
  using stream_digest [of ctx "[p]"] by simp

end

lemma unat_mask_mod: "unat (t AND 63 :: u64) = unat t mod 64" "unat (t AND 127 :: u64) = unat t mod 128"
proof -
  have "(63 :: u64) = mask 6" "(127 :: u64) = mask 7" by (simp_all add: mask_eq_decr_exp)
  then have "t AND 63 = take_bit 6 t" "t AND 127 = take_bit 7 t" by (simp_all only: take_bit_eq_mask)
  then show "unat (t AND 63) = unat t mod 64" "unat (t AND 127) = unat t mod 128"
    by (simp_all only: unsigned_take_bit_eq) (simp_all add: take_bit_eq_mod)
qed

lemma length_store [simp]: "length (store_be32 v) = 4" "length (store_be64 w) = 8" "length (sha512_store_be64 w) = 8" "length (be128_length w) = 16"
  by (simp_all add: store_be32_def store_be64_def sha512_store_be64_def be128_length_def)

lemma length_zero_at: "n + k \<le> length xs \<Longrightarrow> length (zero_at n k xs) = length xs"
  by (simp add: zero_at_def length_copy_at)

lemma sha512_final_field:
  "length buf = 128 \<Longrightarrow> copy_at 120 (sha512_store_be64 v) (zero_at 112 8 buf) = copy_at 112 (be128_length v) buf"
  by (simp add: copy_at_def zero_at_def be128_length_def)

interpretation sha1: md_stream 64 8 store_be64 store_be32 sha1_compress SHA1_IV anx_sha1_init anx_sha1_update anx_sha1_final
  by unfold_locales
    (simp_all add: anx_sha1_init_def anx_sha1_update_def md_update_def anx_sha1_final_def md_final_def unat_mask_mod Let_def)

interpretation sha256: md_stream 64 8 store_be64 store_be32 "sha256_compress K" SHA256_IV anx_sha256_init "anx_sha256_update K" "anx_sha256_final K" for K
  by unfold_locales
    (simp_all add: anx_sha256_init_def anx_sha256_update_def md_update_def anx_sha256_final_def md_final_def unat_mask_mod Let_def)

lemma sha512_final_eq:
  assumes "length (hc_buf ctx) = 128"
  shows "anx_sha512_final K ctx = md_final 128 16 be128_length sha512_store_be64 (sha512_compress K) ctx"
proof -
  have "unat (hc_total ctx) mod 128 < 128" by simp
  then have "unat (hc_total ctx) mod 128 + 1 \<le> 128" by simp
  then show ?thesis
    using assms unfolding anx_sha512_final_def md_final_def unat_mask_mod Let_def
    by (auto simp: sha512_final_field length_copy_at length_zero_at split: prod.splits if_splits)
qed

interpretation sha512: md_stream 128 16 be128_length sha512_store_be64 "sha512_compress K" SHA512_IV anx_sha512_init "anx_sha512_update K" "anx_sha512_final K" for K
  by unfold_locales (simp_all add: anx_sha512_init_def anx_sha512_update_def md_update_def sha512_final_eq unat_mask_mod Let_def)

lemma length_fresh_ctx [simp]: "length (hc_buf (fresh_ctx B)) = B"
  by (simp add: fresh_ctx_def)

lemma one_shot:
  "anx_sha1 m = sha1_digest m" "anx_sha256 K m = sha256_digest K m" "anx_sha512 K5 m = sha512_digest K5 m"
  by (simp_all add: anx_sha1_def anx_sha256_def anx_sha512_def sha1_digest_def sha256_digest_def sha512_digest_def
      sha1.one_digest sha256.one_digest sha512.one_digest)

text \<open>C7: the streaming interfaces compute the digest of the concatenation of the pieces fed to
  them, whatever the pieces and whatever the buffer of the context held before, and the one-shot
  functions the digest of their argument: for SHA-1, SHA-256 and SHA-512.\<close>

theorem sha_streaming:
  assumes "length (hc_buf c1) = 64" and "length (hc_buf c2) = 64" and "length (hc_buf c5) = 128"
  shows "anx_sha1_final (fold (\<lambda>p ctx. anx_sha1_update ctx p) ps (anx_sha1_init c1)) = sha1_digest (concat ps) \<and>
    anx_sha256_final K (fold (\<lambda>p ctx. anx_sha256_update K ctx p) ps (anx_sha256_init c2)) = sha256_digest K (concat ps) \<and>
    anx_sha512_final K5 (fold (\<lambda>p ctx. anx_sha512_update K5 ctx p) ps (anx_sha512_init c5)) = sha512_digest K5 (concat ps) \<and>
    anx_sha1 m = sha1_digest m \<and> anx_sha256 K m = sha256_digest K m \<and> anx_sha512 K5 m = sha512_digest K5 m"
  using sha1.stream_digest [OF assms(1), of ps] sha256.stream_digest [OF assms(2), of K ps] sha512.stream_digest [OF assms(3), of K5 ps]
  by (simp add: one_shot) (simp add: sha1_digest_def sha256_digest_def sha512_digest_def)

theorem sha_streaming_witness:
  "let K = map of_nat [0..<64]
   in anx_sha256_final K (anx_sha256_update K (anx_sha256_update K (anx_sha256_init (fresh_ctx 64)) [0x61]) [0x62, 0x63]) = anx_sha256 K [0x61, 0x62, 0x63]"
  unfolding Let_def
  using sha_streaming [of "fresh_ctx 64" "fresh_ctx 64" "fresh_ctx 128" "[[0x61], [0x62, 0x63]]" "map of_nat [0..<64]" "[]" "[0x61, 0x62, 0x63]"]
  by simp

subsection \<open>HMAC\<close>

definition hmac_key :: "(u8 list \<Rightarrow> u8 list) \<Rightarrow> u8 list \<Rightarrow> u8 list" where
  "hmac_key H key = (let k = (if 64 < length key then H key else key) in k @ replicate (64 - length k) 0)"

definition hmac_spec :: "(u8 list \<Rightarrow> u8 list) \<Rightarrow> u8 list \<Rightarrow> u8 list \<Rightarrow> u8 list" where
  "hmac_spec H key data =
     H (map (\<lambda>b. b XOR 0x5c) (hmac_key H key) @ H (map (\<lambda>b. b XOR 0x36) (hmac_key H key) @ data))"

lemma hmac_kpad_fold:
  "n \<le> length key \<Longrightarrow> length key \<le> length xs \<Longrightarrow>
     fold (\<lambda>i kpad. kpad[i := kpad ! i XOR key ! i]) [0..<n] xs = map2 (XOR) (take n xs) (take n key) @ drop n xs"
proof (induction n)
  case (Suc n)
  let ?z = "map2 (XOR) (take n xs) (take n key)"
  have z: "length ?z = n" "drop n xs = xs ! n # drop (Suc n) xs" using Suc.prems by (simp_all add: Cons_nth_drop_Suc)
  have "(?z @ drop n xs)[n := (?z @ drop n xs) ! n XOR key ! n] = ?z @ (xs ! n XOR key ! n) # drop (Suc n) xs"
    using z by (simp add: list_update_append nth_append)
  then show ?case using Suc by (simp add: take_Suc_conv_app_nth)
qed simp

lemma hmac_kpad: "length k \<le> 64 \<Longrightarrow> hmac_kpad c k = map (\<lambda>b. b XOR c) (k @ replicate (64 - length k) 0)"
proof -
  assume k: "length k \<le> 64"
  have "map2 (XOR) (replicate n c) k = map (\<lambda>b. b XOR c) k" if "length k = n" for n
    using that by (intro nth_equalityI) (simp_all add: ac_simps)
  then show ?thesis using hmac_kpad_fold [of "length k" k "replicate 64 c"] k by (simp add: hmac_kpad_def)
qed

lemma length_sha: "length (sha1_compress st b) = 5" "length (sha256_compress K st b) = 8"
  by (simp_all add: sha1_compress_def sha256_compress_def Let_def split: prod.splits)

lemma block_loop_length:
  "0 < B \<Longrightarrow> (\<And>st b. length (c st b) = n) \<Longrightarrow> B \<le> length p \<Longrightarrow> length (fst (block_loop B c st p)) = n"
proof (induction "length p" arbitrary: p st rule: less_induct)
  case less
  have s: "block_loop B c st p = block_loop B c (c st (take B p)) (drop B p)"
    using less.prems by (simp add: block_loop.simps [of B c st p])
  show ?case
  proof (cases "B \<le> length (drop B p)")
    case True
    then show ?thesis using less s by simp
  next
    case False
    then show ?thesis using s block_loop_short [of "drop B p" B c "c st (take B p)"] less.prems(2) by simp
  qed
qed

lemma md_pad_length: "F < B \<Longrightarrow> length (lf (of_nat (length m * 8))) = F \<Longrightarrow> B dvd length (md_pad B F lf m) \<and> B \<le> length (md_pad B F lf m)"
proof -
  assume a: "F < B" "length (lf (of_nat (length m * 8))) = F"
  let ?n = "length m + 1 + F"
  have "length (md_pad B F lf m) = ?n + (B - ?n mod B) mod B" using a by (simp add: md_pad_def)
  moreover have "B dvd ?n + (B - ?n mod B) mod B"
    by (metis (no_types, opaque_lifting) a(1) add.commute diff_add_inverse2 dvd_eq_mod_eq_0 le_add_diff_inverse less_or_eq_imp_le mod_add_left_eq mod_add_right_eq mod_less_divisor mod_self not_less_zero zero_less_iff_neq_zero)
  ultimately show ?thesis using a by (simp add: dvd_imp_le)
qed

lemma concat_length: "(\<And>x. length (f x) = k) \<Longrightarrow> length (concat (map f xs)) = k * length xs"
  by (induction xs) auto

lemma length_digest [simp]: "length (sha1_digest m) = 20" "length (sha256_digest K m) = 32"
  using block_loop_length [of 64 sha1_compress 5 "md_pad 64 8 store_be64 m" SHA1_IV] block_loop_length [of 64 "sha256_compress K" 8 "md_pad 64 8 store_be64 m" SHA256_IV]
    md_pad_length [of 8 64 store_be64 m] length_sha
  by (simp_all add: sha1_digest_def sha256_digest_def md_digest_def concat_length [of store_be32 4])

lemma hmac_shape:
  "anx_hmac_sha256 K key data = hmac_spec (anx_sha256 K) key data" "anx_hmac_sha1 key data = hmac_spec anx_sha1 key data"
proof -
  let ?k = "if 64 < length key then anx_sha256 K key else key" and ?l = "if 64 < length key then anx_sha1 key else key"
  have "length ?k \<le> 64" "length ?l \<le> 64" by (simp_all add: one_shot)
  then have p: "hmac_kpad c ?k = map (\<lambda>b. b XOR c) (hmac_key (anx_sha256 K) key)" "hmac_kpad c ?l = map (\<lambda>b. b XOR c) (hmac_key anx_sha1 key)" for c
    using hmac_kpad by (simp_all add: hmac_key_def Let_def)
  show "anx_hmac_sha256 K key data = hmac_spec (anx_sha256 K) key data"
    unfolding anx_hmac_sha256_def hmac_spec_def Let_def p by (simp add: sha256.two_digest one_shot sha256_digest_def)
  show "anx_hmac_sha1 key data = hmac_spec anx_sha1 key data"
    unfolding anx_hmac_sha1_def hmac_spec_def Let_def p by (simp add: sha1.two_digest one_shot sha1_digest_def)
qed

text \<open>C14: \<open>anx_hmac_sha256\<close> and \<open>anx_hmac_sha1\<close> are HMAC over their hash: the key, hashed when
  longer than a block and zero-filled, is xored with the two pads, and the outer hash covers the
  inner one.\<close>

theorem hmac_correct:
  "anx_hmac_sha256 K key data = hmac_spec (anx_sha256 K) key data \<and> anx_hmac_sha1 key data = hmac_spec anx_sha1 key data"
  by (simp add: hmac_shape)

subsection \<open>Derived keys\<close>

text \<open>Both derivations emit blocks of 20 bytes under a counter until the output is full.\<close>

lemma block_counter:
  fixes f :: "'a::len word \<Rightarrow> nat \<Rightarrow> u8 list"
  assumes "\<And>k n. f k n = (if n = 0 then [] else take (if 20 < n then 20 else n) (g k) @ f (k + 1) (n - (if 20 < n then 20 else n)))"
    and "\<And>k. length (g k) = 20"
  shows "f k n = take n (concat (map (\<lambda>i. g (k + of_nat i)) [0..<(n + 19) div 20]))"
proof (induction n arbitrary: k rule: less_induct)
  case (less n)
  show ?case
  proof (cases "20 < n")
    case True
    have d: "(n + 19) div 20 = Suc ((n - 20 + 19) div 20)" using True by simp
    have "map (\<lambda>i. g (k + of_nat i)) [0..<(n + 19) div 20] = g k # map (\<lambda>i. g (k + 1 + of_nat i)) [0..<(n - 20 + 19) div 20]"
      unfolding d by (simp add: map_upt_Suc add.assoc del: upt_Suc)
    moreover have "f k n = g k @ f (k + 1) (n - 20)" using True assms(1) [of k n] assms(2) [of k] by simp
    ultimately show ?thesis using less [of "n - 20" "k + 1"] True assms(2) by simp
  next
    case False
    show ?thesis
    proof (cases "n = 0")
      case True
      then show ?thesis using assms(1) [of k 0] by simp
    next
      case n: False
      have "(n + 19) div 20 = 1" using False n by simp
      moreover have "f (k + 1) 0 = []" using assms(1) [of "k + 1" 0] by simp
      ultimately show ?thesis using False n assms(1) [of k n] by simp
    qed
  qed
qed

text \<open>The reference of RFC 2898: \<open>T\<close> is the xor of the iterates of the keyed hash, starting
  from the salt and the block number.\<close>

definition pbkdf2_T :: "u8 list \<Rightarrow> u8 list \<Rightarrow> nat \<Rightarrow> u32 \<Rightarrow> u8 list" where
  "pbkdf2_T pass salt iters blk =
     (let U = (\<lambda>k. (anx_hmac_sha1 pass ^^ Suc k) (salt @ store_be32 blk)) in foldl xor_bytes (U 0) (map U [1..<iters]))"

lemma length_hmac [simp]: "length (anx_hmac_sha1 key data) = 20" "length (anx_hmac_sha256 K key data) = 32"
proof -
  have "length (hmac_spec anx_sha1 key data) = 20" "length (hmac_spec (anx_sha256 K) key data) = 32" by (simp_all add: hmac_spec_def one_shot)
  then show "length (anx_hmac_sha1 key data) = 20" "length (anx_hmac_sha256 K key data) = 32"
    using hmac_shape(1) [of K key data] hmac_shape(2) [of key data] by simp_all
qed

lemma pbkdf2_iter_fold:
  "pbkdf2_iter pass n (b, u) = (foldl xor_bytes b (map (\<lambda>k. (anx_hmac_sha1 pass ^^ Suc k) u) [0..<n]), (anx_hmac_sha1 pass ^^ n) u)"
proof (induction n arbitrary: b u)
  case (Suc n)
  have "map (\<lambda>k. (anx_hmac_sha1 pass ^^ Suc k) u) [0..<Suc n] =
      anx_hmac_sha1 pass u # map (\<lambda>k. (anx_hmac_sha1 pass ^^ Suc k) (anx_hmac_sha1 pass u)) [0..<n]"
    by (simp add: map_upt_Suc funpow_swap1 del: upt_Suc)
  then show ?case using Suc.IH [of "xor_bytes b (anx_hmac_sha1 pass u)" "anx_hmac_sha1 pass u"]
    by (simp add: Let_def funpow_Suc_right del: upt_Suc funpow.simps)
qed simp

lemma pbkdf2_block:
  "fst (pbkdf2_iter pass (unat iters - 1) (anx_hmac_sha1 pass (salt @ store_be32 blk), anx_hmac_sha1 pass (salt @ store_be32 blk))) = pbkdf2_T pass salt (unat iters) blk"
proof -
  have "map (\<lambda>k. (anx_hmac_sha1 pass ^^ Suc k) (anx_hmac_sha1 pass x)) [0..<n - 1] = map (\<lambda>k. (anx_hmac_sha1 pass ^^ Suc k) x) [1..<n]" for x n
    by (intro nth_equalityI) (simp_all add: funpow_swap1)
  then show ?thesis unfolding pbkdf2_iter_fold pbkdf2_T_def Let_def by simp
qed

lemma length_pbkdf2_T: "length (pbkdf2_T pass salt n blk) = 20"
proof -
  have "length (foldl xor_bytes b us) = length b" if "\<forall>u\<in>set us. length u = length b" for b us
    using that by (induction us arbitrary: b) (auto simp: xor_bytes_def)
  then show ?thesis unfolding pbkdf2_T_def Let_def by simp
qed

text \<open>The loop of the PRF, as long as the counter byte fits behind the base: the blocks in order.\<close>

primrec prf_blocks :: "u8 list \<Rightarrow> u8 list \<Rightarrow> nat \<Rightarrow> u8 \<Rightarrow> u8 list" where
  "prf_blocks key base 0 k = []"
| "prf_blocks key base (Suc n) k = anx_hmac_sha1 key (base @ [k]) @ prf_blocks key base n (k + 1)"

lemma prf_blocks_concat:
  "prf_blocks key base n k = concat (map (\<lambda>i. anx_hmac_sha1 key (base @ [k + of_nat i])) [0..<n])"
  by (induction n arbitrary: k) (simp_all add: map_upt_Suc add.assoc del: upt_Suc)

lemma length_prf_blocks: "length (prf_blocks key base n k) = 20 * n"
  by (induction n arbitrary: k) simp_all

lemma prf_loop_fits:
  assumes "length base < length ibuf" "take (length base) ibuf = base"
  shows "prf_loop key (length base) k n ibuf = Some (take n (prf_blocks key base ((n + 19) div 20) k))"
  using assms(2,1)
proof (induction n arbitrary: k ibuf rule: less_induct)
  case (less n)
  show ?case
  proof (cases "n = 0")
    case True
    then show ?thesis by (subst prf_loop.simps) simp
  next
    case n: False
    define buf where "buf = copy_at (length base) [k] ibuf"
    have "take (length base) buf = base" "take (length base + 1) buf = base @ [k]" "length buf = length ibuf"
      using less.prems by (simp_all add: buf_def copy_at_def)
    then have "prf_loop key (length base) k n ibuf =
        map_option (\<lambda>rest. take (if 20 < n then 20 else n) (anx_hmac_sha1 key (base @ [k])) @ rest)
          (Some (take (n - (if 20 < n then 20 else n)) (prf_blocks key base ((n - (if 20 < n then 20 else n) + 19) div 20) (k + 1))))"
      using n less.prems less.IH [of "n - (if 20 < n then 20 else n)" buf "k + 1"]
      by (subst prf_loop.simps) (simp add: store_at_def buf_def Let_def)
    moreover have "(n + 19) div 20 = Suc ((n - (if 20 < n then 20 else n) + 19) div 20)" using n by auto
    ultimately show ?thesis by simp
  qed
qed

lemma prf_loop_full: "length ibuf \<le> base_len \<Longrightarrow> prf_loop key base_len k n ibuf = (if n = 0 then Some [] else None)"
  by (subst prf_loop.simps) (simp add: store_at_def)

lemma prf_sha1_eq:
  "anx_prf_sha1 key label data m = (if length label + 1 + length data + (if m = 0 then 0 else 1) \<le> 512
     then Some (take m (prf_blocks key (label @ [0] @ data) ((m + 19) div 20) 0)) else None)"
proof (cases "length label + 1 + length data \<le> 512")
  case True
  define ibuf where "ibuf = copy_at (length label + 1) data (copy_at (length label) [0] (copy_at 0 label (replicate 512 0)))"
  have p: "anx_prf_sha1 key label data m = prf_loop key (length (label @ [0] @ data)) 0 m ibuf"
    using True by (simp add: anx_prf_sha1_def store_at_def ibuf_def copy_at_def)
  have b: "length ibuf = 512" "take (length (label @ [0] @ data)) ibuf = label @ [0] @ data"
    using True by (simp_all add: ibuf_def copy_at_def)
  show ?thesis
  proof (cases "length label + 1 + length data < 512")
    case True
    then show ?thesis unfolding p using prf_loop_fits [of "label @ [0] @ data" ibuf key 0 m] b by simp
  next
    case False
    then show ?thesis unfolding p using True prf_loop_full [of ibuf "length (label @ [0] @ data)" key 0 m] b by simp
  qed
next
  case False
  then show ?thesis by (auto simp: anx_prf_sha1_def store_at_def copy_at_def)
qed

text \<open>C17: \<open>anx_pbkdf2_hmac_sha1\<close> is PBKDF2 over the first 252 bytes of the salt: the output is the
  concatenation of the blocks \<open>T 1, T 2, ...\<close> cut to the requested length. \<open>anx_prf_sha1\<close> is the
  802.11 PRF, keyed hashes of the label, a zero byte, the data and a counter byte, cut
  likewise, exactly as long as label, separator, data and (when any output is asked for) the counter fit into its
  512-byte buffer; otherwise it writes behind the buffer.\<close>

theorem derived_keys:
  "anx_pbkdf2_hmac_sha1 pass salt iters n =
      take n (concat (map (\<lambda>i. pbkdf2_T pass (take 252 salt) (unat iters) (of_nat (i + 1))) [0..<(n + 19) div 20])) \<and>
   anx_prf_sha1 key label data m =
     (if length label + 1 + length data + (if m = 0 then 0 else 1) \<le> 512
      then Some (take m (concat (map (\<lambda>i. hmac_spec anx_sha1 key (label @ [0] @ data @ [of_nat i])) [0..<(m + 19) div 20])))
      else None) \<and>
   length (anx_pbkdf2_hmac_sha1 pass salt iters n) = n \<and>
   map_option length (anx_prf_sha1 key label data m) = (if length label + 1 + length data + (if m = 0 then 0 else 1) \<le> 512 then Some m else None)"
proof -
  have cover: "n \<le> 20 * ((n + 19) div 20)" for n :: nat by presburger
  have "pbkdf2_loop pass salt iters k n = (if n = 0 then [] else take (if 20 < n then 20 else n) (pbkdf2_T pass salt (unat iters) k) @
      pbkdf2_loop pass salt iters (k + 1) (n - (if 20 < n then 20 else n)))" for k n salt
    by (subst pbkdf2_loop.simps) (simp only: pbkdf2_block Let_def)
  from block_counter [of "pbkdf2_loop pass (take 252 salt) iters" "pbkdf2_T pass (take 252 salt) (unat iters)" 1 n, OF this length_pbkdf2_T]
  have 1: "anx_pbkdf2_hmac_sha1 pass salt iters n =
      take n (concat (map (\<lambda>i. pbkdf2_T pass (take 252 salt) (unat iters) (1 + of_nat i)) [0..<(n + 19) div 20]))"
    by (cases "252 < length salt") (simp_all add: anx_pbkdf2_hmac_sha1_def)
  have 2: "anx_prf_sha1 key label data m = (if length label + 1 + length data + (if m = 0 then 0 else 1) \<le> 512
      then Some (take m (prf_blocks key (label @ [0] @ data) ((m + 19) div 20) 0)) else None)"
    by (rule prf_sha1_eq)
  have 3: "length (anx_pbkdf2_hmac_sha1 pass salt iters n) = n"
    unfolding 1 using cover [of n] length_pbkdf2_T by (simp add: concat_length [where k = 20])
  have 4: "map_option length (anx_prf_sha1 key label data m) = (if length label + 1 + length data + (if m = 0 then 0 else 1) \<le> 512 then Some m else None)"
    unfolding 2 using cover [of m] by (simp add: length_prf_blocks)
  have "prf_blocks key (label @ [0] @ data) k 0 = concat (map (\<lambda>i. hmac_spec anx_sha1 key (label @ [0] @ data @ [of_nat i])) [0..<k])" for k
    by (simp add: prf_blocks_concat hmac_shape(2))
  with 2 show ?thesis using 1 3 4 by simp
qed

theorem derived_keys_witness:
  "length (anx_pbkdf2_hmac_sha1 [1, 2] [3] 4096 32) = 32 \<and>
   anx_prf_sha1 [1] [2] [3] 40 = Some (hmac_spec anx_sha1 [1] [2, 0, 3, 0] @ hmac_spec anx_sha1 [1] [2, 0, 3, 1]) \<and>
   anx_prf_sha1 [1] [2] (replicate 510 0) 40 = None"
proof -
  have "length (hmac_spec anx_sha1 k d) = 20" for k d by (simp add: hmac_spec_def one_shot)
  then show ?thesis
    using derived_keys [of "[1, 2]" "[3]" 4096 32 "[1]" "[2]" "[3]" 40] derived_keys [of "[1, 2]" "[3]" 4096 32 "[1]" "[2]" "replicate 510 0" 40]
    by (simp add: upt_rec length_pbkdf2_T)
qed

end
