(* ===== verification/Cipher.thy ===== *)
theory Cipher
  imports Hash
begin

text \<open>
  The stream cipher and the one-time authenticator of \<^verbatim>\<open>kernel/lib/crypto\<close>: ChaCha20
  (\<^verbatim>\<open>chacha20.c\<close>) and Poly1305 (\<^verbatim>\<open>poly1305.c\<close>), the latter in five 26-bit limbs with 64-bit
  accumulators as in the source. Their lemmas show that the keystream is applied byte by byte,
  that decryption inverts encryption, and that the limb arithmetic computes the polynomial
  modulo \<open>2 ^ 130 - 5\<close> that defines the tag.
\<close>

subsection \<open>ChaCha20\<close>

definition load_le32 :: "u8 list \<Rightarrow> nat \<Rightarrow> u32" where
  "load_le32 p i = ucast (p ! i) OR push_bit 8 (ucast (p ! (i + 1))) OR
     push_bit 16 (ucast (p ! (i + 2))) OR push_bit 24 (ucast (p ! (i + 3)))"

definition store_le32 :: "u32 \<Rightarrow> u8 list" where
  "store_le32 v = [ucast v, ucast (drop_bit 8 v), ucast (drop_bit 16 v), ucast (drop_bit 24 v)]"

definition ROTL32 :: "u32 \<Rightarrow> nat \<Rightarrow> u32" where
  "ROTL32 x n = push_bit n x OR drop_bit (32 - n) x"

text \<open>\<open>quarter_round (&x[i], &x[j], &x[k], &x[l])\<close>: the indices are distinct in every call.\<close>

definition quarter_round :: "nat \<Rightarrow> nat \<Rightarrow> nat \<Rightarrow> nat \<Rightarrow> u32 list \<Rightarrow> u32 list" where
  "quarter_round i j k l x =
     (let a = x ! i; b = x ! j; c = x ! k; d = x ! l;
          a = a + b; d = ROTL32 (d XOR a) 16;
          c = c + d; b = ROTL32 (b XOR c) 12;
          a = a + b; d = ROTL32 (d XOR a) 8;
          c = c + d; b = ROTL32 (b XOR c) 7
      in x[i := a, j := b, k := c, l := d])"

definition double_round :: "u32 list \<Rightarrow> u32 list" where
  "double_round x =
     (let x = quarter_round 0 4 8 12 x;
          x = quarter_round 1 5 9 13 x;
          x = quarter_round 2 6 10 14 x;
          x = quarter_round 3 7 11 15 x;
          x = quarter_round 0 5 10 15 x;
          x = quarter_round 1 6 11 12 x;
          x = quarter_round 2 7 8 13 x
      in quarter_round 3 4 9 14 x)"

definition chacha20_block :: "u32 list \<Rightarrow> u8 list" where
  "chacha20_block input =
     (let x = (double_round ^^ 10) input in concat (map (\<lambda>i. store_le32 (x ! i + input ! i)) [0..<16]))"

definition chacha20_state :: "u8 list \<Rightarrow> u8 list \<Rightarrow> u32 \<Rightarrow> u32 list" where
  "chacha20_state key nonce counter =
     [0x61707865, 0x3320646e, 0x79622d32, 0x6b206574] @ map (\<lambda>i. load_le32 key (i * 4)) [0..<8] @
     [counter, load_le32 nonce 0, load_le32 nonce 4, load_le32 nonce 8]"

function chacha20_loop :: "u32 list \<Rightarrow> u8 list \<Rightarrow> u8 list" where
  "chacha20_loop st p =
     (if p = [] then []
      else let keystream = chacha20_block st; block_len = (if length p < 64 then length p else 64)
           in map (\<lambda>i. p ! i XOR keystream ! i) [0..<block_len] @
              chacha20_loop (st[12 := st ! 12 + 1]) (drop block_len p))"
  by pat_completeness auto
termination by (relation "measure (\<lambda>(st, p). length p)") auto

declare chacha20_loop.simps [simp del]

definition anx_chacha20 :: "u8 list \<Rightarrow> u8 list \<Rightarrow> u32 \<Rightarrow> u8 list \<Rightarrow> u8 list" where
  "anx_chacha20 key nonce counter data = chacha20_loop (chacha20_state key nonce counter) data"

subsection \<open>Poly1305\<close>

type_synonym limbs = "u32 \<times> u32 \<times> u32 \<times> u32 \<times> u32"

definition poly1305_r :: "u8 list \<Rightarrow> limbs" where
  "poly1305_r key =
     (load_le32 key 0 AND 0x03ffffff,
      drop_bit 2 (load_le32 key 3) AND 0x03ffff03,
      drop_bit 4 (load_le32 key 6) AND 0x03ffc0ff,
      drop_bit 6 (load_le32 key 9) AND 0x03f03fff,
      drop_bit 8 (load_le32 key 12) AND 0x000fffff)"

definition poly1305_add :: "u8 list \<Rightarrow> u32 \<Rightarrow> limbs \<Rightarrow> limbs" where
  "poly1305_add block hibit = (\<lambda>(h0, h1, h2, h3, h4).
     (h0 + (load_le32 block 0 AND 0x03ffffff),
      h1 + (drop_bit 2 (load_le32 block 3) AND 0x03ffffff),
      h2 + (drop_bit 4 (load_le32 block 6) AND 0x03ffffff),
      h3 + (drop_bit 6 (load_le32 block 9) AND 0x03ffffff),
      h4 + (drop_bit 8 (load_le32 block 12) OR hibit)))"

text \<open>The products of \<open>h *= r\<close>, in 64 bits.\<close>

definition poly1305_mul :: "limbs \<Rightarrow> limbs \<Rightarrow> u64 \<times> u64 \<times> u64 \<times> u64 \<times> u64" where
  "poly1305_mul = (\<lambda>(r0, r1, r2, r3, r4) (h0, h1, h2, h3, h4).
     let s1 = r1 * 5; s2 = r2 * 5; s3 = r3 * 5; s4 = r4 * 5
     in (ucast h0 * ucast r0 + ucast h1 * ucast s4 + ucast h2 * ucast s3 + ucast h3 * ucast s2 + ucast h4 * ucast s1,
         ucast h0 * ucast r1 + ucast h1 * ucast r0 + ucast h2 * ucast s4 + ucast h3 * ucast s3 + ucast h4 * ucast s2,
         ucast h0 * ucast r2 + ucast h1 * ucast r1 + ucast h2 * ucast r0 + ucast h3 * ucast s4 + ucast h4 * ucast s3,
         ucast h0 * ucast r3 + ucast h1 * ucast r2 + ucast h2 * ucast r1 + ucast h3 * ucast r0 + ucast h4 * ucast s4,
         ucast h0 * ucast r4 + ucast h1 * ucast r3 + ucast h2 * ucast r2 + ucast h3 * ucast r1 + ucast h4 * ucast r0))"

definition poly1305_carry :: "u64 \<times> u64 \<times> u64 \<times> u64 \<times> u64 \<Rightarrow> limbs" where
  "poly1305_carry = (\<lambda>(d0, d1, d2, d3, d4).
     let c = ucast (drop_bit 26 d0) :: u32; h0 = ucast d0 AND 0x03ffffff; d1 = d1 + ucast c;
         c = ucast (drop_bit 26 d1) :: u32; h1 = ucast d1 AND 0x03ffffff; d2 = d2 + ucast c;
         c = ucast (drop_bit 26 d2) :: u32; h2 = ucast d2 AND 0x03ffffff; d3 = d3 + ucast c;
         c = ucast (drop_bit 26 d3) :: u32; h3 = ucast d3 AND 0x03ffffff; d4 = d4 + ucast c;
         c = ucast (drop_bit 26 d4) :: u32; h4 = ucast d4 AND 0x03ffffff; h0 = h0 + c * 5;
         c = drop_bit 26 h0; h0 = h0 AND 0x03ffffff; h1 = h1 + c
     in (h0, h1, h2, h3, h4))"

function poly1305_loop :: "limbs \<Rightarrow> u8 list \<Rightarrow> limbs \<Rightarrow> limbs" where
  "poly1305_loop r m h =
     (if m = [] then h
      else let blen = (if length m < 16 then length m else 16);
               (block, hibit) =
                 (if blen < 16 then (copy_at blen [1] (copy_at 0 (take blen m) (replicate 16 0)), 0)
                  else (take 16 m, push_bit 24 1))
           in poly1305_loop r (drop blen m) (poly1305_carry (poly1305_mul r (poly1305_add block hibit h))))"
  by pat_completeness auto
termination by (relation "measure (\<lambda>(r, m, h). length m)") auto

declare poly1305_loop.simps [simp del]

definition poly1305_final_carry :: "limbs \<Rightarrow> limbs" where
  "poly1305_final_carry = (\<lambda>(h0, h1, h2, h3, h4).
     let c = drop_bit 26 h1; h1 = h1 AND 0x03ffffff; h2 = h2 + c;
         c = drop_bit 26 h2; h2 = h2 AND 0x03ffffff; h3 = h3 + c;
         c = drop_bit 26 h3; h3 = h3 AND 0x03ffffff; h4 = h4 + c;
         c = drop_bit 26 h4; h4 = h4 AND 0x03ffffff; h0 = h0 + c * 5;
         c = drop_bit 26 h0; h0 = h0 AND 0x03ffffff; h1 = h1 + c;
         c = drop_bit 26 h1; h1 = h1 AND 0x03ffffff; h2 = h2 + c
     in (h0, h1, h2, h3, h4))"

text \<open>The conditional subtraction of \<open>2 ^ 130 - 5\<close>, by masks.\<close>

definition poly1305_select :: "limbs \<Rightarrow> limbs" where
  "poly1305_select = (\<lambda>(h0, h1, h2, h3, h4).
     let g0 = h0 + 5; c = drop_bit 26 g0; g0 = g0 AND 0x03ffffff;
         g1 = h1 + c; c = drop_bit 26 g1; g1 = g1 AND 0x03ffffff;
         g2 = h2 + c; c = drop_bit 26 g2; g2 = g2 AND 0x03ffffff;
         g3 = h3 + c; c = drop_bit 26 g3; g3 = g3 AND 0x03ffffff;
         g4 = h4 + c - push_bit 26 1;
         msk = drop_bit 31 g4 - 1;
         g0 = g0 AND msk; g1 = g1 AND msk; g2 = g2 AND msk; g3 = g3 AND msk; g4 = g4 AND msk;
         msk = NOT msk
     in ((h0 AND msk) OR g0, (h1 AND msk) OR g1, (h2 AND msk) OR g2, (h3 AND msk) OR g3, (h4 AND msk) OR g4))"

definition poly1305_pack :: "limbs \<Rightarrow> u32 \<times> u32 \<times> u32 \<times> u32" where
  "poly1305_pack = (\<lambda>(h0, h1, h2, h3, h4).
     (h0 OR push_bit 26 h1, drop_bit 6 h1 OR push_bit 20 h2, drop_bit 12 h2 OR push_bit 14 h3, drop_bit 18 h3 OR push_bit 8 h4))"

definition poly1305_tag :: "u8 list \<Rightarrow> u32 \<times> u32 \<times> u32 \<times> u32 \<Rightarrow> u8 list" where
  "poly1305_tag key = (\<lambda>(w0, w1, w2, w3).
     let f = ucast w0 + ucast (load_le32 key 16) :: u64; w0 = ucast f;
         f = ucast w1 + ucast (load_le32 key 20) + drop_bit 32 f; w1 = ucast f;
         f = ucast w2 + ucast (load_le32 key 24) + drop_bit 32 f; w2 = ucast f;
         f = ucast w3 + ucast (load_le32 key 28) + drop_bit 32 f; w3 = ucast f
     in store_le32 w0 @ store_le32 w1 @ store_le32 w2 @ store_le32 w3)"

definition anx_poly1305 :: "u8 list \<Rightarrow> u8 list \<Rightarrow> u8 list" where
  "anx_poly1305 key msg =
     poly1305_tag key (poly1305_pack (poly1305_select (poly1305_final_carry (poly1305_loop (poly1305_r key) msg (0, 0, 0, 0, 0)))))"

definition anx_poly1305_verify :: "u8 list \<Rightarrow> u8 list \<Rightarrow> u8 list \<Rightarrow> int" where
  "anx_poly1305_verify key msg tag =
     (let computed = anx_poly1305 key msg;
          diff = fold (\<lambda>i diff. diff OR (computed ! i XOR tag ! i)) [0..<16] (0 :: u8)
      in if diff = 0 then 0 else - 1)"

subsection \<open>Words as numbers\<close>

lemma unat_drop: "unat (drop_bit n w) = unat w div 2 ^ n"
  by (simp only: unat_drop_bit_eq) (simp add: drop_bit_eq_div)

lemma unat_and26: "unat (w AND 0x03ffffff :: u32) = unat w mod 67108864"
proof -
  have "(0x03ffffff :: u32) = mask 26" by (simp add: mask_eq_decr_exp)
  then have "w AND 0x03ffffff = take_bit 26 w" by (simp only: take_bit_eq_mask)
  then show ?thesis by (simp only: unsigned_take_bit_eq) (simp add: take_bit_eq_mod)
qed

lemma unat_low32: "unat (ucast (d :: u64) :: u32) = unat d mod 4294967296"
  by (simp add: unsigned_ucast_eq take_bit_eq_mod)

lemma unat_wide: "unat (ucast (w :: u32) :: u64) = unat w"
proof -
  have "unat w < 18446744073709551616" using unat_u32_bound [of w] by linarith
  then show ?thesis by (simp add: unsigned_ucast_eq take_bit_eq_mod)
qed

lemma unat_add32: "unat a + unat b < 4294967296 \<Longrightarrow> unat (a + b :: u32) = unat a + unat b"
  by (simp add: unat_word_ariths)

lemma unat_add64: "unat a + unat b < 18446744073709551616 \<Longrightarrow> unat (a + b :: u64) = unat a + unat b"
  by (simp add: unat_word_ariths)

lemma unat_mult64: "unat a * unat b < 18446744073709551616 \<Longrightarrow> unat (a * b :: u64) = unat a * unat b"
  by (simp add: unat_word_ariths)

lemma unat_mult5: "unat a * 5 < 4294967296 \<Longrightarrow> unat (a * 5 :: u32) = unat a * 5"
  by (simp add: unat_word_ariths)

definition limb_value :: "limbs \<Rightarrow> nat" where
  "limb_value = (\<lambda>(h0, h1, h2, h3, h4).
     unat h0 + 2 ^ 26 * unat h1 + 2 ^ 52 * unat h2 + 2 ^ 78 * unat h3 + 2 ^ 104 * unat h4)"

definition p1305 :: nat where "p1305 = 2 ^ 130 - 5"

text \<open>The limbs between two blocks: only the second may exceed 26 bits, and by little.\<close>

definition limbs_ok :: "limbs \<Rightarrow> bool" where
  "limbs_ok = (\<lambda>(h0, h1, h2, h3, h4). unat h0 < 2 ^ 26 \<and> unat h1 < 2 ^ 26 + 42 \<and> unat h2 < 2 ^ 26 \<and> unat h3 < 2 ^ 26 \<and> unat h4 < 2 ^ 26)"

lemma carry_step:
  assumes "unat d < 2 ^ 58" "unat e < 2 ^ 58 - 2 ^ 32"
  shows "unat (e + ucast (ucast (drop_bit 26 d :: u64) :: u32) :: u64) = unat e + unat d div 67108864"
proof -
  have "unat (ucast (ucast (drop_bit 26 d :: u64) :: u32) :: u64) = unat d div 67108864"
    unfolding unat_wide unat_low32 unat_drop using assms(1) by simp
  moreover have "unat d div 67108864 < 4294967296" using assms(1) by simp
  ultimately show ?thesis using assms(2) by (subst unat_add64) simp_all
qed

lemma low26: "unat (ucast (d :: u64) AND 0x03ffffff :: u32) = unat d mod 67108864"
  unfolding unat_and26 unat_low32 by (simp add: mod_mod_cancel)

text \<open>The carry chain as an identity on numbers.\<close>

lemma carry_identity:
  fixes d0 d1 d2 d3 d4 :: nat
  assumes "d0 = q0 * 67108864 + m0" "d1 + q0 = q1 * 67108864 + m1" "d2 + q1 = q2 * 67108864 + m2" "d3 + q2 = q3 * 67108864 + m3"
    "d4 + q3 = q4 * 67108864 + m4" "m0 + q4 * 5 = qg * 67108864 + mg"
  shows "d0 + 67108864 * d1 + 4503599627370496 * d2 + 302231454903657293676544 * d3 + 20282409603651670423947251286016 * d4 =
    mg + 67108864 * (m1 + qg) + 4503599627370496 * m2 + 302231454903657293676544 * m3 + 20282409603651670423947251286016 * m4 +
      1361129467683753853853498429727072845819 * q4"
  using assms(1,6) arg_cong [OF assms(2), of "\<lambda>x. 67108864 * x"] arg_cong [OF assms(3), of "\<lambda>x. 4503599627370496 * x"]
    arg_cong [OF assms(4), of "\<lambda>x. 302231454903657293676544 * x"] arg_cong [OF assms(5), of "\<lambda>x. 20282409603651670423947251286016 * x"]
  by simp

lemma poly1305_carry_value:
  assumes "unat d0 < 2 ^ 58 - 2 ^ 33" "unat d1 < 2 ^ 58 - 2 ^ 33" "unat d2 < 2 ^ 58 - 2 ^ 33" "unat d3 < 2 ^ 58 - 2 ^ 33" "unat d4 < 2 ^ 55"
  shows "limbs_ok (poly1305_carry (d0, d1, d2, d3, d4)) \<and>
    limb_value (poly1305_carry (d0, d1, d2, d3, d4)) mod p1305 =
      (unat d0 + 2 ^ 26 * unat d1 + 2 ^ 52 * unat d2 + 2 ^ 78 * unat d3 + 2 ^ 104 * unat d4) mod p1305"
proof -
  define c where "c = (\<lambda>d. ucast (ucast (drop_bit 26 d :: u64) :: u32) :: u64)"
  define e1 where "e1 = d1 + c d0"
  define e2 where "e2 = d2 + c e1"
  define e3 where "e3 = d3 + c e2"
  define e4 where "e4 = d4 + c e3"
  define lo where "lo = (\<lambda>d. ucast (d :: u64) AND 0x03ffffff :: u32)"
  define g where "g = lo d0 + ucast (drop_bit 26 e4) * 5"
  have E1: "unat e1 = unat d1 + unat d0 div 67108864" unfolding e1_def c_def using assms by (intro carry_step) simp_all
  have b1: "unat e1 < 2 ^ 58" using E1 assms by simp
  have E2: "unat e2 = unat d2 + unat e1 div 67108864" unfolding e2_def c_def using assms b1 by (intro carry_step) simp_all
  have b2: "unat e2 < 2 ^ 58" using E2 b1 assms by simp
  have E3: "unat e3 = unat d3 + unat e2 div 67108864" unfolding e3_def c_def using assms b2 by (intro carry_step) simp_all
  have b3: "unat e3 < 2 ^ 58" using E3 b2 assms by simp
  have E4: "unat e4 = unat d4 + unat e3 div 67108864" unfolding e4_def c_def using assms b3 by (intro carry_step) simp_all
  have b4: "unat e4 < 2 ^ 55 + 2 ^ 32" using E4 b3 assms by simp
  have C4: "unat (ucast (drop_bit 26 e4) :: u32) = unat e4 div 67108864" unfolding unat_low32 unat_drop using b4 by simp
  have M4: "unat (ucast (drop_bit 26 e4) * 5 :: u32) = unat e4 div 67108864 * 5" using b4 C4 by (subst unat_mult5) simp_all
  have lo: "unat (lo d) = unat d mod 67108864" for d unfolding lo_def by (rule low26)
  have G: "unat g = unat d0 mod 67108864 + unat e4 div 67108864 * 5"
    unfolding g_def using M4 lo b4 by (subst unat_add32) simp_all
  have gb: "unat g < 2818572288" using G b4 by simp
  have F: "poly1305_carry (d0, d1, d2, d3, d4) = (g AND 0x03ffffff, lo e1 + drop_bit 26 g, lo e2, lo e3, lo e4)"
    by (simp add: poly1305_carry_def Let_def e4_def e3_def e2_def e1_def c_def lo_def g_def)
  have H1: "unat (lo e1 + drop_bit 26 g) = unat e1 mod 67108864 + unat g div 67108864"
    using lo gb by (subst unat_add32) (simp_all add: unat_drop)
  have ok: "limbs_ok (poly1305_carry (d0, d1, d2, d3, d4))"
    unfolding F limbs_ok_def prod.case H1 using lo gb by (simp add: unat_and26)
  have "unat d0 + 2 ^ 26 * unat d1 + 2 ^ 52 * unat d2 + 2 ^ 78 * unat d3 + 2 ^ 104 * unat d4 =
      limb_value (poly1305_carry (d0, d1, d2, d3, d4)) + p1305 * (unat e4 div 67108864)"
    using carry_identity [of "unat d0" "unat d0 div 67108864" "unat d0 mod 67108864" "unat d1" "unat e1 div 67108864" "unat e1 mod 67108864"
      "unat d2" "unat e2 div 67108864" "unat e2 mod 67108864" "unat d3" "unat e3 div 67108864" "unat e3 mod 67108864"
      "unat d4" "unat e4 div 67108864" "unat e4 mod 67108864" "unat g div 67108864" "unat g mod 67108864"]
    unfolding F limb_value_def prod.case H1 p1305_def unat_and26 lo
    unfolding E1 [symmetric] E2 [symmetric] E3 [symmetric] E4 [symmetric] G [symmetric] by simp
  then show ?thesis using ok by simp
qed

subsection \<open>Little-endian loads\<close>

lemma unat_or_push: "unat x < 2 ^ n \<Longrightarrow> n + 8 \<le> 32 \<Longrightarrow> unat (x OR push_bit n (ucast (b :: u8)) :: u32) = unat x + 2 ^ n * unat b"
proof -
  assume a: "unat x < 2 ^ n" "n + 8 \<le> 32"
  have low: "\<not> bit x k" if "n \<le> k" for k
  proof -
    have "take_bit n x = x" using a by (simp add: word_unat_eq_iff unsigned_take_bit_eq take_bit_nat_eq_self)
    then show ?thesis using that by (metis bit_take_bit_iff not_le)
  qed
  then have "x AND push_bit n (ucast b) = 0" by (intro bit_word_eqI) (auto simp: bit_simps)
  then have e: "x OR push_bit n (ucast b) = x + push_bit n (ucast b)" by (simp add: disjunctive_add_eq_or)
  have b: "unat b < 256" using unsigned_less [of b] by simp
  have s: "2 ^ n * unat b < 2 ^ n * 256" using b by simp
  have p: "(2::nat) ^ n * 256 \<le> 2 ^ 32" using power_increasing [OF a(2), of "2::nat"] by (simp add: power_add)
  have u: "unat (push_bit n (ucast b) :: u32) = 2 ^ n * unat b"
  proof -
    have "push_bit n (ucast b :: u32) = of_nat (2 ^ n * unat b)"
      by (simp add: push_bit_eq_mult word_unat_eq_iff unsigned_ucast_eq unat_word_ariths take_bit_eq_mod ac_simps)
    then show ?thesis using s p by (simp only: unat_of_nat_u32)
  qed
  have "unat x + 2 ^ n * unat b < 2 ^ 32"
  proof -
    have "unat x + 2 ^ n * unat b < 2 ^ n + 2 ^ n * unat b" using a(1) by simp
    also have "\<dots> = 2 ^ n * (unat b + 1)" by simp
    also have "\<dots> \<le> 2 ^ n * 256" using b by (intro mult_le_mono2) simp
    finally show ?thesis using p by simp
  qed
  then show ?thesis using e u by (simp add: unat_add32)
qed

lemma unat_load4:
  "unat (ucast (a :: u8) OR push_bit 8 (ucast (b :: u8)) OR push_bit 16 (ucast (c :: u8)) OR push_bit 24 (ucast (d :: u8)) :: u32) =
     unat a + 256 * unat b + 65536 * unat c + 16777216 * unat d"
proof -
  have bytes: "unat a < 256" "unat b < 256" "unat c < 256" using unsigned_less [of a] unsigned_less [of b] unsigned_less [of c] by simp_all
  have 0: "unat (ucast a :: u32) = unat a" using bytes(1) by (simp add: unsigned_ucast_eq take_bit_nat_eq_self)
  have 1: "unat (ucast a OR push_bit 8 (ucast b) :: u32) = unat a + 256 * unat b"
    using unat_or_push [of "ucast a" 8 b] 0 bytes by simp
  have 2: "unat ((ucast a OR push_bit 8 (ucast b)) OR push_bit 16 (ucast c) :: u32) = unat a + 256 * unat b + 65536 * unat c"
    using unat_or_push [of "ucast a OR push_bit 8 (ucast b)" 16 c] 1 bytes by simp
  have "unat (((ucast a OR push_bit 8 (ucast b)) OR push_bit 16 (ucast c)) OR push_bit 24 (ucast d) :: u32) =
      unat a + 256 * unat b + 65536 * unat c + 16777216 * unat d"
    using unat_or_push [of "(ucast a OR push_bit 8 (ucast b)) OR push_bit 16 (ucast c)" 24 d] 2 bytes by simp
  then show ?thesis by (simp only: or.assoc)
qed

lemma unat_load_le32:
  assumes "i + 4 \<le> length p"
  shows "unat (load_le32 p i) = le_value p div 256 ^ i mod 4294967296"
proof -
  have d: "drop i p = p ! i # p ! (i + 1) # p ! (i + 2) # p ! (i + 3) # drop (i + 4) p"
    using assms by (simp add: Cons_nth_drop_Suc [symmetric] numeral_eq_Suc)
  have "le_value p div 256 ^ i = le_value (drop i p)"
    using le_value_split [of p i] le_value_bound [of "take i p"] assms by (simp add: min_def)
  also have "\<dots> = (unat (p ! i) + 256 * unat (p ! (i + 1)) + 65536 * unat (p ! (i + 2)) + 16777216 * unat (p ! (i + 3))) + 4294967296 * le_value (drop (i + 4) p)"
    unfolding d by simp
  finally have v: "le_value p div 256 ^ i = unat (load_le32 p i) + 4294967296 * le_value (drop (i + 4) p)"
    by (simp add: load_le32_def unat_load4)
  show ?thesis unfolding v using unat_u32_bound [of "load_le32 p i"] by (simp del: unat_u32_bound)
qed

subsection \<open>Limbs of a block\<close>

lemma mod_mult_div: "(x::nat) mod (a * b) div a = x div a mod b"
  by (cases "a = 0") (simp_all add: mod_mult2_eq)

lemma limb_window:
  assumes "i + 4 \<le> length p" "k \<le> 6"
  shows "unat (drop_bit k (load_le32 p i) AND 0x03ffffff) = le_value p div 2 ^ (8 * i + k) mod 67108864"
proof -
  have p: "(4294967296::nat) = 2 ^ k * 2 ^ (32 - k)" using assms(2) by (simp flip: power_add)
  have d: "(67108864::nat) dvd 2 ^ (32 - k)" using assms(2) le_imp_power_dvd [of 26 "32 - k" "2::nat"] by simp
  have "le_value p div 256 ^ i mod 4294967296 div 2 ^ k = le_value p div 256 ^ i div 2 ^ k mod 2 ^ (32 - k)"
    unfolding p by (rule mod_mult_div)
  moreover have "le_value p div 256 ^ i div 2 ^ k = le_value p div 2 ^ (8 * i + k)"
    by (simp add: power_add power_mult div_mult2_eq)
  ultimately show ?thesis
    unfolding unat_and26 unat_drop unat_load_le32 [OF assms(1)] using d by (simp add: mod_mod_cancel)
qed

lemma limb_top:
  assumes "length p = 16"
  shows "unat (drop_bit 8 (load_le32 p 12)) = le_value p div 2 ^ 104" "le_value p div 2 ^ 104 < 16777216"
proof -
  have "le_value p < 2 ^ 128" using le_value_bound [of p] assms by simp
  then have "le_value p div 256 ^ 12 < 4294967296" "le_value p div 2 ^ 104 < 16777216" by (simp_all add: less_mult_imp_div_less)
  moreover have "le_value p div 256 ^ 12 div 2 ^ 8 = le_value p div 2 ^ 104" by (simp flip: div_mult2_eq)
  ultimately show "unat (drop_bit 8 (load_le32 p 12)) = le_value p div 2 ^ 104" "le_value p div 2 ^ 104 < 16777216"
    unfolding unat_drop using unat_load_le32 [of 12 p] assms by simp_all
qed

lemma radix5:
  fixes n :: nat
  assumes "n = m0 + 67108864 * q1" "q1 = m1 + 67108864 * q2" "q2 = m2 + 67108864 * q3" "q3 = m3 + 67108864 * q4"
  shows "n = m0 + 67108864 * m1 + 4503599627370496 * m2 + 302231454903657293676544 * m3 + 20282409603651670423947251286016 * q4"
  unfolding assms by simp

lemma limbs_sum:
  "(n::nat) = n mod 67108864 + 67108864 * (n div 2 ^ 26 mod 67108864) + 4503599627370496 * (n div 2 ^ 52 mod 67108864) +
     302231454903657293676544 * (n div 2 ^ 78 mod 67108864) + 20282409603651670423947251286016 * (n div 2 ^ 104)"
proof -
  have "n div 2 ^ k = n div 2 ^ k mod 67108864 + 67108864 * (n div 2 ^ (k + 26))" for k
  proof -
    have "n div 2 ^ (k + 26) = n div 2 ^ k div 67108864" by (simp add: power_add div_mult2_eq)
    then show ?thesis using mod_mult_div_eq [of "n div 2 ^ k" 67108864] by simp
  qed
  from this [of 0] this [of 26] this [of 52] this [of 78] show ?thesis
    using radix5 [of n "n mod 67108864" "n div 2 ^ 26" "n div 2 ^ 26 mod 67108864" "n div 2 ^ 52" "n div 2 ^ 52 mod 67108864"
        "n div 2 ^ 78" "n div 2 ^ 78 mod 67108864" "n div 2 ^ 104"] by simp
qed

lemma limbs_join:
  "(n::nat) mod 67108864 + 2 ^ 26 * (n div 2 ^ 26 mod 67108864) + 2 ^ 52 * (n div 2 ^ 52 mod 67108864) +
     2 ^ 78 * (n div 2 ^ 78 mod 67108864) + 2 ^ 104 * (n div 2 ^ 104) = n"
  using limbs_sum [of n, symmetric] by simp

lemma limbs_add:
  fixes n :: nat
  assumes "n = x0 + 67108864 * x1 + 4503599627370496 * x2 + 302231454903657293676544 * x3 + 20282409603651670423947251286016 * x4"
    and "20282409603651670423947251286016 * c = (d :: nat)"
  shows "(a0 + x0) + 2 ^ 26 * (a1 + x1) + 2 ^ 52 * (a2 + x2) + 2 ^ 78 * (a3 + x3) + 2 ^ 104 * (a4 + (x4 + c)) =
    (a0 + 2 ^ 26 * a1 + 2 ^ 52 * a2 + 2 ^ 78 * a3 + 2 ^ 104 * a4) + n + d"
  unfolding assms(1) assms(2) [symmetric] by simp

definition block_value :: "u8 list \<Rightarrow> nat" where
  "block_value b = le_value (b @ [1])"

lemma poly1305_add_value:
  assumes "length block = 16" "hibit = 0 \<or> hibit = push_bit 24 1" "limbs_ok h"
  shows "limb_value (poly1305_add block hibit h) = limb_value h + le_value block + (if hibit = 0 then 0 else 2 ^ 128) \<and>
    (\<exists>h0 h1 h2 h3 h4. poly1305_add block hibit h = (h0, h1, h2, h3, h4) \<and>
       unat h0 < 2 ^ 27 \<and> unat h1 < 2 ^ 27 + 42 \<and> unat h2 < 2 ^ 27 \<and> unat h3 < 2 ^ 27 \<and> unat h4 < 2 ^ 26 + 2 ^ 25)"
proof -
  obtain h0 h1 h2 h3 h4 where h: "h = (h0, h1, h2, h3, h4)" by (cases h) auto
  let ?N = "le_value block" and ?t = "drop_bit 8 (load_le32 block 12) OR hibit"
  have ok: "unat h0 < 67108864" "unat h1 < 67108906" "unat h2 < 67108864" "unat h3 < 67108864" "unat h4 < 67108864"
    using assms(3) by (simp_all add: h limbs_ok_def)
  have t: "unat ?t = ?N div 2 ^ 104 + (if hibit = 0 then 0 else 16777216)"
    using assms(2) limb_top [OF assms(1)] unat_or_push [of "drop_bit 8 (load_le32 block 12)" 24 1] by auto
  then have tb: "unat ?t < 67108864" using limb_top(2) [OF assms(1)] by simp
  have w: "unat (load_le32 block 0 AND 0x03ffffff) = ?N mod 67108864"
    "unat (drop_bit 2 (load_le32 block 3) AND 0x03ffffff) = ?N div 2 ^ 26 mod 67108864"
    "unat (drop_bit 4 (load_le32 block 6) AND 0x03ffffff) = ?N div 2 ^ 52 mod 67108864"
    "unat (drop_bit 6 (load_le32 block 9) AND 0x03ffffff) = ?N div 2 ^ 78 mod 67108864"
    using limb_window [of 0 block 0] limb_window [of 3 block 2] limb_window [of 6 block 4] limb_window [of 9 block 6] assms(1) by simp_all
  have add: "unat (x + y) = unat x + unat y" if "unat x < 67108906" "unat y < 67108864" for x y :: u32
    using that by (simp add: unat_add32)
  have m: "unat (x AND 0x03ffffff :: u32) < 67108864" for x by (simp add: unat_and26)
  note u = add [of h0, OF less_trans [OF ok(1)] m] add [OF ok(2) m] add [of h2, OF less_trans [OF ok(3)] m] add [of h3, OF less_trans [OF ok(4)] m]
    add [of h4, OF less_trans [OF ok(5)] tb]
  have u: "unat (h0 + (load_le32 block 0 AND 0x03ffffff)) = unat h0 + ?N mod 67108864"
    "unat (h1 + (drop_bit 2 (load_le32 block 3) AND 0x03ffffff)) = unat h1 + ?N div 2 ^ 26 mod 67108864"
    "unat (h2 + (drop_bit 4 (load_le32 block 6) AND 0x03ffffff)) = unat h2 + ?N div 2 ^ 52 mod 67108864"
    "unat (h3 + (drop_bit 6 (load_le32 block 9) AND 0x03ffffff)) = unat h3 + ?N div 2 ^ 78 mod 67108864"
    "unat (h4 + ?t) = unat h4 + (?N div 2 ^ 104 + (if hibit = 0 then 0 else 16777216))"
    unfolding w [symmetric] t [symmetric] by (rule u; simp)+
  have b: "m mod 67108864 < 67108864" for m :: nat by simp
  have val: "limb_value (poly1305_add block hibit h) = limb_value h + ?N + (if hibit = 0 then 0 else 2 ^ 128)"
    unfolding h poly1305_add_def limb_value_def prod.case u by (rule limbs_add [OF limbs_sum]) auto
  have eq: "poly1305_add block hibit h = (h0 + (load_le32 block 0 AND 0x03ffffff), h1 + (drop_bit 2 (load_le32 block 3) AND 0x03ffffff),
      h2 + (drop_bit 4 (load_le32 block 6) AND 0x03ffffff), h3 + (drop_bit 6 (load_le32 block 9) AND 0x03ffffff), h4 + ?t)"
    by (simp add: h poly1305_add_def)
  have bd: "unat (h0 + (load_le32 block 0 AND 0x03ffffff)) < 134217728" "unat (h1 + (drop_bit 2 (load_le32 block 3) AND 0x03ffffff)) < 134217770"
    "unat (h2 + (drop_bit 4 (load_le32 block 6) AND 0x03ffffff)) < 134217728" "unat (h3 + (drop_bit 6 (load_le32 block 9) AND 0x03ffffff)) < 134217728"
    unfolding u using ok b [of ?N] b [of "?N div 2 ^ 26"] b [of "?N div 2 ^ 52"] b [of "?N div 2 ^ 78"] by linarith+
  have b4: "unat (h4 + ?t) < 100663296" unfolding u using ok(5) limb_top(2) [OF assms(1)] by simp
  show ?thesis by (intro conjI exI, rule val, rule eq) (use bd b4 in simp_all)
qed

subsection \<open>The product\<close>

lemma unat_dot5:
  fixes a0 a1 a2 a3 a4 b0 b1 b2 b3 b4 :: u32
  assumes "unat a0 < 2 ^ 28" "unat a1 < 2 ^ 28" "unat a2 < 2 ^ 28" "unat a3 < 2 ^ 28" "unat a4 < 2 ^ 28"
    "unat b0 \<le> 2 ^ 29" "unat b1 \<le> 2 ^ 29" "unat b2 \<le> 2 ^ 29" "unat b3 \<le> 2 ^ 29" "unat b4 \<le> 2 ^ 29"
  shows "unat (ucast a0 * ucast b0 + ucast a1 * ucast b1 + ucast a2 * ucast b2 + ucast a3 * ucast b3 + ucast a4 * ucast b4 :: u64) =
    unat a0 * unat b0 + unat a1 * unat b1 + unat a2 * unat b2 + unat a3 * unat b3 + unat a4 * unat b4"
proof -
  have m: "unat (ucast a * ucast b :: u64) = unat a * unat b \<and> unat a * unat b < 2 ^ 57" if "unat a < 2 ^ 28" "unat b \<le> 2 ^ 29" for a b :: u32
  proof -
    have "unat a * unat b \<le> unat a * 2 ^ 29" using that by simp
    also have "\<dots> < 2 ^ 57" using that by simp
    finally show ?thesis using unat_mult64 [of "ucast a" "ucast b"] by (simp add: unat_wide)
  qed
  note p = m [OF assms(1,6)] m [OF assms(2,7)] m [OF assms(3,8)] m [OF assms(4,9)] m [OF assms(5,10)]
  have 1: "unat (ucast a0 * ucast b0 + ucast a1 * ucast b1 :: u64) = unat a0 * unat b0 + unat a1 * unat b1"
    using p by (subst unat_add64) simp_all
  have 2: "unat (ucast a0 * ucast b0 + ucast a1 * ucast b1 + ucast a2 * ucast b2 :: u64) = unat a0 * unat b0 + unat a1 * unat b1 + unat a2 * unat b2"
    using p 1 by (subst unat_add64) simp_all
  have 3: "unat (ucast a0 * ucast b0 + ucast a1 * ucast b1 + ucast a2 * ucast b2 + ucast a3 * ucast b3 :: u64) =
      unat a0 * unat b0 + unat a1 * unat b1 + unat a2 * unat b2 + unat a3 * unat b3"
    using p 2 by (subst unat_add64) simp_all
  show ?thesis using p 3 by (subst unat_add64) simp_all
qed

text \<open>Multiplying by limbs and folding the upper half back with factor five is multiplication
  modulo \<open>2 ^ 130 - 5\<close>.\<close>

lemma mul_identity:
  fixes h0 h1 h2 h3 h4 r0 r1 r2 r3 r4 :: nat
  shows "(h0 + 2 ^ 26 * h1 + 2 ^ 52 * h2 + 2 ^ 78 * h3 + 2 ^ 104 * h4) * (r0 + 2 ^ 26 * r1 + 2 ^ 52 * r2 + 2 ^ 78 * r3 + 2 ^ 104 * r4) =
    (h0 * r0 + h1 * (r4 * 5) + h2 * (r3 * 5) + h3 * (r2 * 5) + h4 * (r1 * 5)) +
    2 ^ 26 * (h0 * r1 + h1 * r0 + h2 * (r4 * 5) + h3 * (r3 * 5) + h4 * (r2 * 5)) +
    2 ^ 52 * (h0 * r2 + h1 * r1 + h2 * r0 + h3 * (r4 * 5) + h4 * (r3 * 5)) +
    2 ^ 78 * (h0 * r3 + h1 * r2 + h2 * r1 + h3 * r0 + h4 * (r4 * 5)) +
    2 ^ 104 * (h0 * r4 + h1 * r3 + h2 * r2 + h3 * r1 + h4 * r0) +
    p1305 * ((h1 * r4 + h2 * r3 + h3 * r2 + h4 * r1) + 2 ^ 26 * (h2 * r4 + h3 * r3 + h4 * r2) + 2 ^ 52 * (h3 * r4 + h4 * r3) + 2 ^ 78 * (h4 * r4))"
proof -
  have p: "p1305 = 1361129467683753853853498429727072845819" by (simp add: p1305_def)
  show ?thesis unfolding p by (simp add: algebra_simps)
qed

definition clamped :: "limbs \<Rightarrow> bool" where
  "clamped = (\<lambda>(r0, r1, r2, r3, r4). unat r0 < 2 ^ 26 \<and> unat r1 < 2 ^ 26 \<and> unat r2 < 2 ^ 26 \<and> unat r3 < 2 ^ 26 \<and> unat r4 < 2 ^ 20)"

lemma dot_bound: "a < 134217770 \<Longrightarrow> b \<le> 335544315 \<Longrightarrow> (a::nat) * b < 134217770 * 335544315"
  by (rule order_le_less_trans [OF mult_le_mono2 [of b 335544315 a]]) simp_all

lemma top_bound:
  assumes "(h0::nat) < 134217728" "h1 < 134217770" "h2 < 134217728" "h3 < 134217728" "h4 < 100663296"
    "r0 < 67108864" "r1 < 67108864" "r2 < 67108864" "r3 < 67108864" "r4 < 1048576"
  shows "h0 * r4 + h1 * r3 + h2 * r2 + h3 * r1 + h4 * r0 < 36028797018963968"
proof -
  have m: "h * r \<le> a * b" if "h < a" "r < b" for h r a b :: nat using that by (intro mult_le_mono) simp_all
  show ?thesis
    using m [OF assms(1,10)] m [OF assms(2,9)] m [OF assms(3,8)] m [OF assms(4,7)] m [OF assms(5,6)] by simp
qed

lemma poly1305_step:
  assumes "clamped r" "length block = 16" "hibit = 0 \<or> hibit = push_bit 24 1" "limbs_ok h"
  shows "limbs_ok (poly1305_carry (poly1305_mul r (poly1305_add block hibit h))) \<and>
    limb_value (poly1305_carry (poly1305_mul r (poly1305_add block hibit h))) mod p1305 =
      ((limb_value h + le_value block + (if hibit = 0 then 0 else 2 ^ 128)) * limb_value r) mod p1305"
proof -
  from poly1305_add_value [OF assms(2-4)] obtain h0 h1 h2 h3 h4 where
    v: "limb_value (poly1305_add block hibit h) = limb_value h + le_value block + (if hibit = 0 then 0 else 2 ^ 128)"
    and a: "poly1305_add block hibit h = (h0, h1, h2, h3, h4)"
    and hb: "unat h0 < 134217728" "unat h1 < 134217770" "unat h2 < 134217728" "unat h3 < 134217728" "unat h4 < 100663296" by auto
  obtain r0 r1 r2 r3 r4 where r: "r = (r0, r1, r2, r3, r4)" by (cases r) auto
  have rb: "unat r0 < 67108864" "unat r1 < 67108864" "unat r2 < 67108864" "unat r3 < 67108864" "unat r4 < 1048576"
    using assms(1) by (simp_all add: r clamped_def)
  have s: "unat (r1 * 5) = unat r1 * 5" "unat (r2 * 5) = unat r2 * 5" "unat (r3 * 5) = unat r3 * 5" "unat (r4 * 5) = unat r4 * 5"
    using rb by (simp_all add: unat_mult5)
  have h28: "unat h0 < 2 ^ 28" "unat h1 < 2 ^ 28" "unat h2 < 2 ^ 28" "unat h3 < 2 ^ 28" "unat h4 < 2 ^ 28" using hb by simp_all
  have r29: "unat r0 \<le> 2 ^ 29" "unat r1 \<le> 2 ^ 29" "unat r2 \<le> 2 ^ 29" "unat r3 \<le> 2 ^ 29" "unat r4 \<le> 2 ^ 29"
    "unat (r1 * 5) \<le> 2 ^ 29" "unat (r2 * 5) \<le> 2 ^ 29" "unat (r3 * 5) \<le> 2 ^ 29" "unat (r4 * 5) \<le> 2 ^ 29" unfolding s using rb by simp_all
  obtain d0 d1 d2 d3 d4 where d: "poly1305_mul r (h0, h1, h2, h3, h4) = (d0, d1, d2, d3, d4)"
    and D: "unat d0 = unat h0 * unat r0 + unat h1 * (unat r4 * 5) + unat h2 * (unat r3 * 5) + unat h3 * (unat r2 * 5) + unat h4 * (unat r1 * 5)"
      "unat d1 = unat h0 * unat r1 + unat h1 * unat r0 + unat h2 * (unat r4 * 5) + unat h3 * (unat r3 * 5) + unat h4 * (unat r2 * 5)"
      "unat d2 = unat h0 * unat r2 + unat h1 * unat r1 + unat h2 * unat r0 + unat h3 * (unat r4 * 5) + unat h4 * (unat r3 * 5)"
      "unat d3 = unat h0 * unat r3 + unat h1 * unat r2 + unat h2 * unat r1 + unat h3 * unat r0 + unat h4 * (unat r4 * 5)"
      "unat d4 = unat h0 * unat r4 + unat h1 * unat r3 + unat h2 * unat r2 + unat h3 * unat r1 + unat h4 * unat r0"
    unfolding r poly1305_mul_def Let_def prod.case s [symmetric]
    using unat_dot5 [OF h28 r29(1,9,8,7,6)] unat_dot5 [OF h28 r29(2,1,9,8,7)] unat_dot5 [OF h28 r29(3,2,1,9,8)]
      unat_dot5 [OF h28 r29(4,3,2,1,9)] unat_dot5 [OF h28 r29(5,4,3,2,1)] by blast
  have h': "unat h0 < 134217770" "unat h1 < 134217770" "unat h2 < 134217770" "unat h3 < 134217770" "unat h4 < 134217770" using hb by simp_all
  have r': "unat r0 \<le> 335544315" "unat r1 \<le> 335544315" "unat r2 \<le> 335544315" "unat r3 \<le> 335544315"
    "unat r1 * 5 \<le> 335544315" "unat r2 * 5 \<le> 335544315" "unat r3 * 5 \<le> 335544315" "unat r4 * 5 \<le> 335544315" using rb by simp_all
  note db = dot_bound [OF h'(1)] dot_bound [OF h'(2)] dot_bound [OF h'(3)] dot_bound [OF h'(4)] dot_bound [OF h'(5)]
  have b0: "unat d0 < 2 ^ 58 - 2 ^ 33" unfolding D using db(1) [OF r'(1)] db(2) [OF r'(8)] db(3) [OF r'(7)] db(4) [OF r'(6)] db(5) [OF r'(5)] by simp
  have b1: "unat d1 < 2 ^ 58 - 2 ^ 33" unfolding D using db(1) [OF r'(2)] db(2) [OF r'(1)] db(3) [OF r'(8)] db(4) [OF r'(7)] db(5) [OF r'(6)] by simp
  have b2: "unat d2 < 2 ^ 58 - 2 ^ 33" unfolding D using db(1) [OF r'(3)] db(2) [OF r'(2)] db(3) [OF r'(1)] db(4) [OF r'(8)] db(5) [OF r'(7)] by simp
  have b3: "unat d3 < 2 ^ 58 - 2 ^ 33" unfolding D using db(1) [OF r'(4)] db(2) [OF r'(3)] db(3) [OF r'(2)] db(4) [OF r'(1)] db(5) [OF r'(8)] by simp
  have b4: "unat d4 < 2 ^ 55" unfolding D using top_bound [OF hb rb] by simp
  have "limb_value (h0, h1, h2, h3, h4) * limb_value r mod p1305 =
      (unat d0 + 2 ^ 26 * unat d1 + 2 ^ 52 * unat d2 + 2 ^ 78 * unat d3 + 2 ^ 104 * unat d4) mod p1305"
    unfolding r limb_value_def prod.case mul_identity D by (rule mod_mult_self2)
  then show ?thesis using poly1305_carry_value [OF b0 b1 b2 b3 b4] unfolding a d v [unfolded a, symmetric] by simp
qed

subsection \<open>The reference\<close>

function poly1305_eval :: "nat \<Rightarrow> u8 list \<Rightarrow> nat \<Rightarrow> nat" where
  "poly1305_eval r m acc =
     (if m = [] then acc else poly1305_eval r (drop 16 m) ((acc + block_value (take 16 m)) * r mod p1305))"
  by pat_completeness auto
termination by (relation "measure (\<lambda>(r, m, a). length m)") auto

declare poly1305_eval.simps [simp del]

text \<open>RFC 7539: the blocks of the message, each with a final one byte, are the coefficients of a
  polynomial, evaluated at the clamped first half of the key modulo \<open>2 ^ 130 - 5\<close>; the
  second half is added modulo \<open>2 ^ 128\<close>.\<close>

definition poly1305_mac :: "u8 list \<Rightarrow> u8 list \<Rightarrow> u8 list" where
  "poly1305_mac key msg =
     le_bytes 16 ((poly1305_eval (le_value (take 16 key) AND 0x0ffffffc0ffffffc0ffffffc0fffffff) msg 0 + le_value (drop 16 key)) mod 2 ^ 128)"

lemma partial_block:
  assumes "length m < 16"
  shows "length (copy_at (length m) [1] (copy_at 0 m (replicate 16 0))) = 16"
    "le_value (copy_at (length m) [1] (copy_at 0 m (replicate 16 0))) = block_value m"
proof -
  have "copy_at (length m) [1] (copy_at 0 m (replicate 16 0)) = m @ [1] @ replicate (15 - length m) 0"
    using assms by (simp add: copy_at_def)
  then show "length (copy_at (length m) [1] (copy_at 0 m (replicate 16 0))) = 16"
    "le_value (copy_at (length m) [1] (copy_at 0 m (replicate 16 0))) = block_value m"
    using assms le_value_append [of "m @ [1]" "replicate (15 - length m) 0"] by (simp_all add: block_value_def)
qed

lemma full_block: "length b = 16 \<Longrightarrow> le_value b + 2 ^ 128 = block_value b"
  by (simp add: block_value_def le_value_append)

lemma poly1305_loop_value:
  "clamped r \<Longrightarrow> limbs_ok h \<Longrightarrow> limb_value h mod p1305 = acc mod p1305 \<Longrightarrow>
     limbs_ok (poly1305_loop r m h) \<and> limb_value (poly1305_loop r m h) mod p1305 = poly1305_eval (limb_value r) m acc mod p1305"
proof (induction "length m" arbitrary: m h acc rule: less_induct)
  case less
  show ?case
  proof (cases "m = []")
    case True
    then show ?thesis using less.prems by (simp add: poly1305_loop.simps [of r "[]" h] poly1305_eval.simps [of _ "[]"])
  next
    case False
    define blen where "blen = (if length m < 16 then length m else 16)"
    define block hibit where "block = (if blen < 16 then copy_at blen [1] (copy_at 0 (take blen m) (replicate 16 0)) else take 16 m)"
      and "hibit = (if blen < 16 then 0 else push_bit 24 (1 :: u32))"
    let ?h = "poly1305_carry (poly1305_mul r (poly1305_add block hibit h))"
    have l: "poly1305_loop r m h = poly1305_loop r (drop 16 m) ?h"
      using False by (subst poly1305_loop.simps) (auto simp: Let_def blen_def block_def hibit_def)
    have b: "length block = 16" "hibit = 0 \<or> hibit = push_bit 24 1"
      "le_value block + (if hibit = 0 then 0 else 2 ^ 128) = block_value (take 16 m)"
      using partial_block [of m] full_block [of "take 16 m"] by (auto simp: block_def hibit_def blen_def)
    note step = poly1305_step [OF less.prems(1) b(1,2) less.prems(2)]
    have "limb_value ?h mod p1305 = ((limb_value h + block_value (take 16 m)) * limb_value r) mod p1305"
      using step b(3) by (simp only: add.assoc)
    also have "\<dots> = ((acc + block_value (take 16 m)) * limb_value r) mod p1305"
      using less.prems(3) by (metis mod_add_left_eq mod_mult_left_eq)
    finally have v: "limb_value ?h mod p1305 = ((acc + block_value (take 16 m)) * limb_value r mod p1305) mod p1305" by simp
    have e: "poly1305_eval (limb_value r) m acc = poly1305_eval (limb_value r) (drop 16 m) ((acc + block_value (take 16 m)) * limb_value r mod p1305)"
      using False by (subst poly1305_eval.simps) simp
    show ?thesis unfolding l e using less.hyps [OF _ less.prems(1) conjunct1 [OF step] v] False by simp
  qed
qed

lemma clamp_limbs:
  assumes "length key = 32"
  shows "clamped (poly1305_r key)" "limb_value (poly1305_r key) = le_value (take 16 key) AND 0x0ffffffc0ffffffc0ffffffc0fffffff"
proof -
  let ?n = "le_value (take 16 key)" and ?C = "0x0ffffffc0ffffffc0ffffffc0fffffff :: nat"
  have ld: "load_le32 key i = load_le32 (take 16 key) i" if "i + 3 < 16" for i using that by (simp add: load_le32_def)
  have and_mask: "x AND c = (x AND 0x03ffffff) AND c" if "c AND 0x03ffffff = c" for x c :: u32 using that by (metis and.assoc and.commute)
  have win: "unat (drop_bit k (load_le32 key i) AND c) = ((?n AND ?C) div 2 ^ (8 * i + k)) mod 67108864"
    if i: "i + 3 < 16" "k \<le> 6" and c: "c AND 0x03ffffff = c" "unat c = ?C div 2 ^ (8 * i + k) mod 67108864" for i k c
  proof -
    have "unat (drop_bit k (load_le32 key i) AND c) = unat (drop_bit k (load_le32 (take 16 key) i) AND 0x03ffffff) AND unat c"
      unfolding unsigned_and_eq [symmetric] ld [OF i(1)] by (rule arg_cong [OF and_mask [OF c(1)]])
    also have "\<dots> = take_bit 26 (drop_bit (8 * i + k) ?n) AND take_bit 26 (drop_bit (8 * i + k) ?C)"
      using limb_window [of i "take 16 key" k] i assms c(2) by (simp add: take_bit_eq_mod drop_bit_eq_div)
    also have "\<dots> = (?n AND ?C) div 2 ^ (8 * i + k) mod 67108864"
      by (simp only: take_bit_and [symmetric] drop_bit_and [symmetric]) (simp add: take_bit_eq_mod drop_bit_eq_div)
    finally show ?thesis .
  qed
  have top: "unat (drop_bit 8 (load_le32 key 12) AND 0x000fffff) = (?n AND ?C) div 2 ^ 104"
  proof -
    have "unat (drop_bit 8 (load_le32 key 12) AND 0x000fffff) = ?n div 2 ^ 104 AND 0xfffff"
      using limb_top(1) [of "take 16 key"] ld [of 12] assms by (simp add: unsigned_and_eq)
    also have "\<dots> = drop_bit 104 ?n AND drop_bit 104 ?C" by (simp add: drop_bit_eq_div)
    also have "\<dots> = (?n AND ?C) div 2 ^ 104" by (simp only: drop_bit_and [symmetric]) (simp only: drop_bit_eq_div)
    finally show ?thesis .
  qed
  have ms: "unat (0x03ffffff :: u32) = ?C div 2 ^ (8 * 0 + 0) mod 67108864" "unat (0x03ffff03 :: u32) = ?C div 2 ^ (8 * 3 + 2) mod 67108864"
    "unat (0x03ffc0ff :: u32) = ?C div 2 ^ (8 * 6 + 4) mod 67108864" "unat (0x03f03fff :: u32) = ?C div 2 ^ (8 * 9 + 6) mod 67108864"
    by simp_all
  note w = win [of 0 0, OF _ _ _ ms(1)] win [of 3 2, OF _ _ _ ms(2)] win [of 6 4, OF _ _ _ ms(3)] win [of 9 6, OF _ _ _ ms(4)]
  have w0: "unat (load_le32 key 0 AND 0x03ffffff) = (?n AND ?C) mod 67108864" using w(1) by simp
  have w1: "unat (drop_bit 2 (load_le32 key 3) AND 0x03ffff03) = (?n AND ?C) div 2 ^ 26 mod 67108864" using w(2) by simp
  have w2: "unat (drop_bit 4 (load_le32 key 6) AND 0x03ffc0ff) = (?n AND ?C) div 2 ^ 52 mod 67108864" using w(3) by simp
  have w3: "unat (drop_bit 6 (load_le32 key 9) AND 0x03f03fff) = (?n AND ?C) div 2 ^ 78 mod 67108864" using w(4) by simp
  show "limb_value (poly1305_r key) = ?n AND ?C"
    unfolding poly1305_r_def limb_value_def prod.case top w0 w1 w2 w3 by (rule limbs_join)
  have "(?n AND ?C) div 2 ^ 104 < 1048576"
  proof -
    have "(0xfffff :: u32) = mask 20" by (simp add: mask_eq_decr_exp)
    then have "unat (x AND 0xfffff :: u32) < 2 ^ 20" for x by (simp only: take_bit_eq_mask [symmetric] unsigned_take_bit_eq take_bit_nat_less_exp)
    then show ?thesis unfolding top [symmetric] by simp
  qed
  then show "clamped (poly1305_r key)" unfolding poly1305_r_def clamped_def prod.case top w0 w1 w2 w3 by simp
qed

subsection \<open>Final reduction\<close>

definition limbs26 :: "limbs \<Rightarrow> bool" where
  "limbs26 = (\<lambda>(h0, h1, h2, h3, h4). unat h0 < 67108864 \<and> unat h1 < 67108864 \<and> unat h2 < 67108864 \<and> unat h3 < 67108864 \<and> unat h4 < 67108864)"

lemma final_carry_numbers:
  fixes h0 h1 h2 h3 h4 :: nat
  assumes "h0 < 67108864" "h1 < 67108906" "h2 < 67108864" "h3 < 67108864" "h4 < 67108864"
    and "c1 = h1 div 67108864" "c2 = (h2 + c1) div 67108864" "c3 = (h3 + c2) div 67108864" "c4 = (h4 + c3) div 67108864"
    and "c0 = (h0 + c4 * 5) div 67108864" "e1 = (h1 mod 67108864 + c0) div 67108864"
  shows "(h2 + c1) mod 67108864 + e1 < 67108864 \<and> c1 \<le> 1 \<and> c2 \<le> 1 \<and> c3 \<le> 1 \<and> c4 \<le> 1 \<and> c0 \<le> 1"
proof -
  have c: "c1 \<le> 1" using assms(2,6) by simp
  have c2: "c2 \<le> 1" using assms(3,7) c by (simp add: less_Suc_eq_le [symmetric] less_mult_imp_div_less)
  have c3: "c3 \<le> 1" using assms(4,8) c2 by (simp add: less_Suc_eq_le [symmetric] less_mult_imp_div_less)
  have c4: "c4 \<le> 1" using assms(5,9) c3 by (simp add: less_Suc_eq_le [symmetric] less_mult_imp_div_less)
  have c0: "c0 \<le> 1" using assms(1,10) c4 by (simp add: less_Suc_eq_le [symmetric] less_mult_imp_div_less)
  have "(h2 + c1) mod 67108864 + e1 < 67108864"
  proof (cases "c4 = 0")
    case True
    then have "c0 = 0" using assms(1,10) by simp
    then have "e1 = 0" using assms(11) by simp
    then show ?thesis by simp
  next
    case False
    then have "67108864 \<le> h4 + c3" using assms(9) by (metis div_less not_le)
    then have "c3 \<noteq> 0" using assms(5) by (metis add.right_neutral not_le)
    then have "67108864 \<le> h3 + c2" using assms(8) by (metis div_less not_le)
    then have "c2 \<noteq> 0" using assms(4) by (metis add.right_neutral not_le)
    then have "67108864 \<le> h2 + c1" using assms(7) by (metis div_less not_le)
    then have "h2 + c1 = 67108864" using assms(3) c by simp
    moreover have "e1 \<le> 1" using assms(11) c0 by (simp add: less_Suc_eq_le [symmetric] less_mult_imp_div_less add_less_le_mono)
    ultimately show ?thesis by simp
  qed
  then show ?thesis using c c2 c3 c4 c0 by simp
qed

lemma poly1305_final_carry_value:
  assumes "limbs_ok h"
  shows "limbs26 (poly1305_final_carry h) \<and> limb_value (poly1305_final_carry h) mod p1305 = limb_value h mod p1305"
proof -
  obtain h0 h1 h2 h3 h4 where h: "h = (h0, h1, h2, h3, h4)" by (cases h) auto
  have b: "unat h0 < 67108864" "unat h1 < 67108906" "unat h2 < 67108864" "unat h3 < 67108864" "unat h4 < 67108864"
    using assms by (simp_all add: h limbs_ok_def)
  define k2 k3 k4 k0 k1 where "k2 = h2 + drop_bit 26 h1" and "k3 = h3 + drop_bit 26 k2" and "k4 = h4 + drop_bit 26 k3"
    and "k0 = h0 + drop_bit 26 k4 * 5" and "k1 = (h1 AND 0x03ffffff) + drop_bit 26 k0"
  define c1 c2 c3 c4 c0 e1 where "c1 = unat h1 div 67108864" and "c2 = (unat h2 + c1) div 67108864" and "c3 = (unat h3 + c2) div 67108864"
    and "c4 = (unat h4 + c3) div 67108864" and "c0 = (unat h0 + c4 * 5) div 67108864" and "e1 = (unat h1 mod 67108864 + c0) div 67108864"
  note c = final_carry_numbers [OF b c1_def c2_def c3_def c4_def c0_def e1_def]
  have dr: "unat (drop_bit 26 w :: u32) = unat w div 67108864" for w by (simp add: unat_drop)
  have K2: "unat k2 = unat h2 + c1" unfolding k2_def using b c by (subst unat_add32) (simp_all add: dr c1_def)
  have K3: "unat k3 = unat h3 + c2" unfolding k3_def using b c K2 by (subst unat_add32) (simp_all add: dr c2_def)
  have K4: "unat k4 = unat h4 + c3" unfolding k4_def using b c K3 by (subst unat_add32) (simp_all add: dr c3_def)
  have M: "unat (drop_bit 26 k4 * 5) = c4 * 5" using c K4 by (subst unat_mult5) (simp_all add: dr c4_def)
  have K0: "unat k0 = unat h0 + c4 * 5" unfolding k0_def using b c M by (subst unat_add32) simp_all
  have d0: "unat (drop_bit 26 k0) = c0" using K0 by (simp add: dr c0_def)
  have "unat h1 mod 67108864 < 67108864" by simp
  then have "unat h1 mod 67108864 + c0 < 4294967296" using c by linarith
  then have K1: "unat k1 = unat h1 mod 67108864 + c0" unfolding k1_def using d0 by (subst unat_add32) (simp_all add: unat_and26)
  have E1: "unat (drop_bit 26 k1) = e1" using K1 by (simp add: dr e1_def)
  have L2: "unat ((k2 AND 0x03ffffff) + drop_bit 26 k1) = (unat h2 + c1) mod 67108864 + e1"
    using c K2 E1 by (subst unat_add32) (simp_all add: unat_and26)
  have f: "poly1305_final_carry h = (k0 AND 0x03ffffff, k1 AND 0x03ffffff, (k2 AND 0x03ffffff) + drop_bit 26 k1, k3 AND 0x03ffffff, k4 AND 0x03ffffff)"
    by (simp add: h poly1305_final_carry_def Let_def k0_def k1_def k2_def k3_def k4_def)
  have "limbs26 (poly1305_final_carry h)" unfolding f limbs26_def prod.case L2 unat_and26 using c by simp
  moreover have "limb_value h = limb_value (poly1305_final_carry h) + p1305 * c4"
  proof -
    have "unat h0 + 67108864 * unat h1 + 4503599627370496 * unat h2 + 302231454903657293676544 * unat h3 + 20282409603651670423947251286016 * unat h4 =
        (unat h0 + c4 * 5) mod 67108864 + 67108864 * (unat h1 mod 67108864 + c0) + 4503599627370496 * ((unat h2 + c1) mod 67108864) +
        302231454903657293676544 * ((unat h3 + c2) mod 67108864) + 20282409603651670423947251286016 * ((unat h4 + c3) mod 67108864) +
        1361129467683753853853498429727072845819 * c4"
      by (rule carry_identity [of _ 0 _ _ c1 _ _ c2 _ _ c3]) (simp_all add: c0_def c1_def c2_def c3_def c4_def)
    moreover have "unat h1 mod 67108864 + c0 = e1 * 67108864 + (unat h1 mod 67108864 + c0) mod 67108864" by (simp add: e1_def)
    ultimately show ?thesis
      unfolding h f [unfolded h] limb_value_def prod.case L2 unat_and26 K0 K1 K2 K3 K4 p1305_def by simp
  qed
  ultimately show ?thesis by simp
qed

lemma limb_value_bound: "limbs26 h \<Longrightarrow> limb_value h < 2 ^ 130"
  by (cases h) (auto simp: limbs26_def limb_value_def)

lemma select_identity:
  fixes h0 h1 h2 h3 h4 :: nat
  assumes "h0 + 5 = q0 * 67108864 + m0" "h1 + q0 = q1 * 67108864 + m1" "h2 + q1 = q2 * 67108864 + m2" "h3 + q2 = q3 * 67108864 + m3"
  shows "h0 + 67108864 * h1 + 4503599627370496 * h2 + 302231454903657293676544 * h3 + 20282409603651670423947251286016 * h4 + 5 =
    m0 + 67108864 * m1 + 4503599627370496 * m2 + 302231454903657293676544 * m3 + 20282409603651670423947251286016 * (h4 + q3)"
  using assms(1) arg_cong [OF assms(2), of "\<lambda>x. 67108864 * x"] arg_cong [OF assms(3), of "\<lambda>x. 4503599627370496 * x"]
    arg_cong [OF assms(4), of "\<lambda>x. 302231454903657293676544 * x"]
  by simp

lemma carry_le1: "(a::nat) < 67108864 \<Longrightarrow> q \<le> 1 \<Longrightarrow> (a + q) div 67108864 \<le> 1"
  by (simp add: less_Suc_eq_le [symmetric] less_mult_imp_div_less)

lemma poly1305_select_value:
  assumes "limbs26 h"
  shows "limbs26 (poly1305_select h) \<and> limb_value (poly1305_select h) = limb_value h mod p1305"
proof -
  obtain h0 h1 h2 h3 h4 where h: "h = (h0, h1, h2, h3, h4)" by (cases h) auto
  have b: "unat h0 < 67108864" "unat h1 < 67108864" "unat h2 < 67108864" "unat h3 < 67108864" "unat h4 < 67108864"
    using assms by (simp_all add: h limbs26_def)
  define g0 g1 g2 g3 x where "g0 = h0 + 5" and "g1 = h1 + drop_bit 26 g0" and "g2 = h2 + drop_bit 26 g1" and "g3 = h3 + drop_bit 26 g2"
    and "x = h4 + drop_bit 26 g3"
  define q0 q1 q2 q3 where "q0 = (unat h0 + 5) div 67108864" and "q1 = (unat h1 + q0) div 67108864" and "q2 = (unat h2 + q1) div 67108864"
    and "q3 = (unat h3 + q2) div 67108864"
  have q: "q0 \<le> 1" using b(1) by (simp add: q0_def less_Suc_eq_le [symmetric] less_mult_imp_div_less)
  have q1: "q1 \<le> 1" unfolding q1_def by (rule carry_le1 [OF b(2) q])
  have q2: "q2 \<le> 1" unfolding q2_def by (rule carry_le1 [OF b(3) q1])
  have q3: "q3 \<le> 1" unfolding q3_def by (rule carry_le1 [OF b(4) q2])
  have dr: "unat (drop_bit 26 w :: u32) = unat w div 67108864" for w by (simp add: unat_drop)
  have G0: "unat g0 = unat h0 + 5" unfolding g0_def using b by (subst unat_add32) simp_all
  have G1: "unat g1 = unat h1 + q0" unfolding g1_def using b q G0 by (subst unat_add32) (simp_all add: dr q0_def)
  have G2: "unat g2 = unat h2 + q1" unfolding g2_def using b q1 G1 by (subst unat_add32) (simp_all add: dr q1_def)
  have G3: "unat g3 = unat h3 + q2" unfolding g3_def using b q2 G2 by (subst unat_add32) (simp_all add: dr q2_def)
  have X: "unat x = unat h4 + q3" unfolding x_def using b q3 G3 by (subst unat_add32) (simp_all add: dr q3_def)
  let ?m = "drop_bit 31 (x - push_bit 26 1) - 1 :: u32"
  have sel: "poly1305_select h =
     ((h0 AND NOT ?m) OR (g0 AND 0x03ffffff AND ?m), (h1 AND NOT ?m) OR (g1 AND 0x03ffffff AND ?m), (h2 AND NOT ?m) OR (g2 AND 0x03ffffff AND ?m),
      (h3 AND NOT ?m) OR (g3 AND 0x03ffffff AND ?m), (h4 AND NOT ?m) OR (x - push_bit 26 1 AND ?m))"
    by (simp add: h poly1305_select_def Let_def g0_def g1_def g2_def g3_def x_def ac_simps)
  have id: "limb_value h + 5 = unat g0 mod 67108864 + 67108864 * (unat g1 mod 67108864) + 4503599627370496 * (unat g2 mod 67108864) +
      302231454903657293676544 * (unat g3 mod 67108864) + 20282409603651670423947251286016 * unat x"
    using select_identity [of "unat h0" q0 "unat g0 mod 67108864" "unat h1" q1 "unat g1 mod 67108864" "unat h2" q2 "unat g2 mod 67108864" "unat h3" q3 "unat g3 mod 67108864" "unat h4"]
    unfolding G0 G1 G2 G3 X by (simp add: h limb_value_def q0_def q1_def q2_def q3_def)
  have p: "p1305 = 1361129467683753853853498429727072845819" by (simp add: p1305_def)
  have mb: "unat w mod 67108864 \<le> 67108863" for w :: u32 using mod_less_divisor [of 67108864 "unat w"] by simp
  show ?thesis
  proof (cases "unat x = 67108864")
    case True
    then have "x = push_bit 26 1" by (simp add: word_unat_eq_iff)
    then have s: "poly1305_select h = (g0 AND 0x03ffffff, g1 AND 0x03ffffff, g2 AND 0x03ffffff, g3 AND 0x03ffffff, 0)"
      unfolding sel by simp
    then have "limb_value (poly1305_select h) + p1305 = limb_value h" using id True by (simp add: limb_value_def unat_and26 p)
    moreover have l: "limbs26 (poly1305_select h)" unfolding s by (simp add: limbs26_def unat_and26)
    moreover have "limb_value (poly1305_select h) < p1305"
      using limb_value_bound [OF assms] calculation(1) unfolding p by simp
    ultimately show ?thesis by (metis mod_add_self2 mod_less)
  next
    case False
    then have x: "unat x < 67108864" using X b(5) q3 by simp
    have "unat (x - push_bit 26 1) = 4294967296 - 67108864 + unat x"
      using x by (simp add: unat_sub_if' word_le_nat_alt)
    moreover have "(4294967296 - 67108864 + unat x) div 2147483648 = 1" using x by (intro div_nat_eqI) simp_all
    ultimately have "drop_bit 31 (x - push_bit 26 1) = 1" by (simp add: word_unat_eq_iff unat_drop)
    then have s: "poly1305_select h = h" unfolding sel by (simp add: h)
    have "limb_value h + 5 < 2 ^ 130" unfolding id using x mb [of g0] mb [of g1] mb [of g2] mb [of g3] by simp
    then have "limb_value h < p1305" unfolding p by simp
    then show ?thesis using s assms by simp
  qed
qed

subsection \<open>The tag\<close>

lemma unat_or_shift32:
  assumes "unat x < 2 ^ n" "n \<le> 32"
  shows "unat (x OR push_bit n y :: u32) = unat x + 2 ^ n * (unat y mod 2 ^ (32 - n))"
proof -
  have low: "\<not> bit x k" if "n \<le> k" for k
  proof -
    have "take_bit n x = x" using assms by (simp add: word_unat_eq_iff unsigned_take_bit_eq take_bit_nat_eq_self)
    then show ?thesis using that by (metis bit_take_bit_iff not_le)
  qed
  then have "x AND push_bit n y = 0" by (intro bit_word_eqI) (auto simp: bit_simps)
  then have e: "x OR push_bit n y = x + push_bit n y" by (simp add: disjunctive_add_eq_or)
  have t: "(2::nat) ^ 32 = 2 ^ n * 2 ^ (32 - n)" using assms(2) by (simp flip: power_add)
  have u: "unat (push_bit n y :: u32) = 2 ^ n * (unat y mod 2 ^ (32 - n))"
  proof -
    have "unat (push_bit n y) = unat y * 2 ^ n mod 2 ^ 32" unfolding unsigned_push_bit_eq by (simp add: push_bit_eq_mult take_bit_eq_mod)
    then show ?thesis unfolding t by (simp add: mult.commute)
  qed
  have "unat y mod 2 ^ (32 - n) + 1 \<le> 2 ^ (32 - n)" using mod_less_divisor [of "2 ^ (32 - n)" "unat y"] by (simp add: Suc_leI)
  then have "2 ^ n * (unat y mod 2 ^ (32 - n) + 1) \<le> 2 ^ n * 2 ^ (32 - n)" by (rule mult_le_mono2)
  then have "unat x + 2 ^ n * (unat y mod 2 ^ (32 - n)) < 2 ^ 32" unfolding t using assms(1) by simp
  then show ?thesis using e u by (simp add: unat_add32)
qed

lemma pack_identity:
  fixes h0 h1 h2 h3 h4 :: nat
  assumes "h1 = q1 * 64 + m1" "h2 = q2 * 4096 + m2" "h3 = q3 * 262144 + m3" "h4 = q4 * 16777216 + m4"
  shows "h0 + 67108864 * h1 + 4503599627370496 * h2 + 302231454903657293676544 * h3 + 20282409603651670423947251286016 * h4 =
    (h0 + 67108864 * m1 + 4294967296 * (q1 + 1048576 * m2) + 18446744073709551616 * (q2 + 16384 * m3) + 79228162514264337593543950336 * (q3 + 256 * m4)) + 2 ^ 128 * q4"
  unfolding assms by simp

lemma poly1305_pack_value:
  assumes "limbs26 h" "poly1305_pack h = (w0, w1, w2, w3)"
  shows "limb_value h mod 2 ^ 128 = unat w0 + 2 ^ 32 * unat w1 + 2 ^ 64 * unat w2 + 2 ^ 96 * unat w3"
proof -
  obtain h0 h1 h2 h3 h4 where h: "h = (h0, h1, h2, h3, h4)" by (cases h) auto
  have b: "unat h0 < 67108864" "unat h1 < 67108864" "unat h2 < 67108864" "unat h3 < 67108864" "unat h4 < 67108864"
    using assms(1) by (simp_all add: h limbs26_def)
  have w: "w0 = h0 OR push_bit 26 h1" "w1 = drop_bit 6 h1 OR push_bit 20 h2" "w2 = drop_bit 12 h2 OR push_bit 14 h3" "w3 = drop_bit 18 h3 OR push_bit 8 h4"
    using assms(2) by (simp_all add: h poly1305_pack_def)
  have W: "unat w0 = unat h0 + 67108864 * (unat h1 mod 64)" "unat w1 = unat h1 div 64 + 1048576 * (unat h2 mod 4096)"
    "unat w2 = unat h2 div 4096 + 16384 * (unat h3 mod 262144)" "unat w3 = unat h3 div 262144 + 256 * (unat h4 mod 16777216)"
    unfolding w using b unat_or_shift32 [of h0 26 h1] unat_or_shift32 [of "drop_bit 6 h1" 20 h2] unat_or_shift32 [of "drop_bit 12 h2" 14 h3] unat_or_shift32 [of "drop_bit 18 h3" 8 h4]
    by (simp_all add: unat_drop less_mult_imp_div_less)
  have "limb_value h = (unat w0 + 4294967296 * unat w1 + 18446744073709551616 * unat w2 + 79228162514264337593543950336 * unat w3) + 2 ^ 128 * (unat h4 div 16777216)"
    unfolding W h limb_value_def prod.case
    using pack_identity [OF div_mod_decomp [of "unat h1" 64] div_mod_decomp [of "unat h2" 4096] div_mod_decomp [of "unat h3" 262144] div_mod_decomp [of "unat h4" 16777216], of "unat h0"]
    by simp
  moreover have "unat w0 + 4294967296 * unat w1 + 18446744073709551616 * unat w2 + 79228162514264337593543950336 * unat w3 < 2 ^ 128"
    using unat_u32_bound [of w0] unat_u32_bound [of w1] unat_u32_bound [of w2] unat_u32_bound [of w3] by (simp del: unat_u32_bound)
  ultimately show ?thesis by simp
qed

lemma byte_identity: "(n :: nat) = q0 * 256 + m0 \<Longrightarrow> q0 = q1 * 256 + m1 \<Longrightarrow> q1 = q2 * 256 + m2 \<Longrightarrow>
    n = m0 + 256 * m1 + 65536 * m2 + 16777216 * q2"
  by simp

lemma store_le32_value: "le_value (store_le32 v) = unat v" "length (store_le32 v) = 4"
proof -
  have e: "unat (ucast (w :: u32) :: u8) = unat w mod 256" for w by (simp add: unsigned_ucast_eq take_bit_eq_mod)
  have "unat v div 16777216 < 256" using unat_u32_bound [of v] by (simp add: less_mult_imp_div_less del: unat_u32_bound)
  moreover have "unat v mod 256 + 256 * (unat v div 256 mod 256) + 65536 * (unat v div 65536 mod 256) + 16777216 * (unat v div 16777216) = unat v"
    using byte_identity [OF div_mod_decomp [of "unat v" 256] div_mod_decomp [of "unat v div 256" 256] div_mod_decomp [of "unat v div 256 div 256" 256], symmetric]
    by (simp add: div_mult2_eq [symmetric])
  ultimately show "le_value (store_le32 v) = unat v" by (simp add: store_le32_def e unat_drop)
qed (simp add: store_le32_def)

lemma tag_sum:
  fixes f0 f1 f2 f3 :: nat
  assumes "f0 = q0 * 4294967296 + m0" "f1 = q1 * 4294967296 + m1" "f2 = q2 * 4294967296 + m2" "f3 = q3 * 4294967296 + m3"
    "f0 = w0 + k0" "f1 = w1 + k1 + q0" "f2 = w2 + k2 + q1" "f3 = w3 + k3 + q2"
  shows "(w0 + 4294967296 * w1 + 18446744073709551616 * w2 + 79228162514264337593543950336 * w3) +
     (k0 + 4294967296 * k1 + 18446744073709551616 * k2 + 79228162514264337593543950336 * k3) =
    (m0 + 4294967296 * m1 + 18446744073709551616 * m2 + 79228162514264337593543950336 * m3) + 2 ^ 128 * q3"
  using assms arg_cong [OF assms(6), of "\<lambda>x. 4294967296 * x"] arg_cong [OF assms(7), of "\<lambda>x. 18446744073709551616 * x"]
    arg_cong [OF assms(8), of "\<lambda>x. 79228162514264337593543950336 * x"]
  by simp

lemma tag_identity:
  fixes f0 f1 f2 f3 w0 w1 w2 w3 k0 k1 k2 k3 :: nat
  assumes "f0 = w0 + k0" "f1 = w1 + k1 + f0 div 4294967296" "f2 = w2 + k2 + f1 div 4294967296" "f3 = w3 + k3 + f2 div 4294967296"
  shows "f0 mod 4294967296 + 4294967296 * (f1 mod 4294967296) + 18446744073709551616 * (f2 mod 4294967296) + 79228162514264337593543950336 * (f3 mod 4294967296) =
    ((w0 + 4294967296 * w1 + 18446744073709551616 * w2 + 79228162514264337593543950336 * w3) +
     (k0 + 4294967296 * k1 + 18446744073709551616 * k2 + 79228162514264337593543950336 * k3)) mod 2 ^ 128"
proof -
  let ?t = "f0 mod 4294967296 + 4294967296 * (f1 mod 4294967296) + 18446744073709551616 * (f2 mod 4294967296) + 79228162514264337593543950336 * (f3 mod 4294967296)"
  have b: "n mod 4294967296 \<le> 4294967295" for n :: nat using mod_less_divisor [of 4294967296 n] by simp
  have "?t < 2 ^ 128" using b [of f0] b [of f1] b [of f2] b [of f3] by simp
  moreover have "(w0 + 4294967296 * w1 + 18446744073709551616 * w2 + 79228162514264337593543950336 * w3) +
     (k0 + 4294967296 * k1 + 18446744073709551616 * k2 + 79228162514264337593543950336 * k3) = ?t + 2 ^ 128 * (f3 div 4294967296)"
    by (rule tag_sum [OF div_mod_decomp div_mod_decomp div_mod_decomp div_mod_decomp assms])
  ultimately show ?thesis by simp
qed

lemma load_le32_suffix:
  assumes "length key = 32"
  shows "le_value (drop 16 key) = unat (load_le32 key 16) + 4294967296 * unat (load_le32 key 20) + 18446744073709551616 * unat (load_le32 key 24) +
    79228162514264337593543950336 * unat (load_le32 key 28)"
proof -
  have s: "drop 16 key = map ((!) key) [16..<32]"
    using assms map_nth [of key] drop_map [of 16 "(!) key" "[0..<32]", symmetric] by (metis add.left_neutral drop_upt)
  have u: "[16..<32] = [16, 17, 18, 19, 20, 21, 22, 23, 24, 25, 26, 27, 28, 29, 30, 31::nat]" by (simp add: upt_rec)
  show ?thesis unfolding s u load_le32_def unat_load4 by simp
qed

lemma poly1305_tag_value:
  assumes "length key = 32"
  shows "poly1305_tag key (w0, w1, w2, w3) =
    le_bytes 16 ((unat w0 + 4294967296 * unat w1 + 18446744073709551616 * unat w2 + 79228162514264337593543950336 * unat w3 + le_value (drop 16 key)) mod 2 ^ 128)"
proof -
  define k0 k1 k2 k3 where "k0 = load_le32 key 16" and "k1 = load_le32 key 20" and "k2 = load_le32 key 24" and "k3 = load_le32 key 28"
  define f0 f1 f2 f3 :: u64 where "f0 = ucast w0 + ucast k0" and "f1 = ucast w1 + ucast k1 + drop_bit 32 f0"
    and "f2 = ucast w2 + ucast k2 + drop_bit 32 f1" and "f3 = ucast w3 + ucast k3 + drop_bit 32 f2"
  have sum: "unat (ucast a + ucast b + drop_bit 32 c :: u64) = unat a + unat b + unat c div 4294967296" for a b :: u32 and c :: u64
  proof -
    have "unat c div 4294967296 < 4294967296" using unat_u64_bound [of c] by (simp add: less_mult_imp_div_less del: unat_u64_bound)
    then have lt: "unat a + unat b + unat c div 4294967296 < 2 ^ 64" using unat_u32_bound [of a] unat_u32_bound [of b] by (simp del: unat_u32_bound)
    have "unat (ucast a + ucast b :: u64) = unat a + unat b" using lt by (subst unat_add64) (simp_all add: unat_wide)
    then show ?thesis using lt by (subst unat_add64) (simp_all add: unat_drop)
  qed
  have f: "unat f0 = unat w0 + unat k0" "unat f1 = unat w1 + unat k1 + unat f0 div 4294967296"
    "unat f2 = unat w2 + unat k2 + unat f1 div 4294967296" "unat f3 = unat w3 + unat k3 + unat f2 div 4294967296"
    unfolding f1_def f2_def f3_def using sum [of w0 k0 0] by (simp_all add: sum f0_def)
  let ?t = "store_le32 (ucast f0) @ store_le32 (ucast f1) @ store_le32 (ucast f2) @ store_le32 (ucast f3)"
  have t: "poly1305_tag key (w0, w1, w2, w3) = ?t"
    by (simp add: poly1305_tag_def Let_def f0_def f1_def f2_def f3_def k0_def k1_def k2_def k3_def)
  have "le_value ?t = unat f0 mod 4294967296 + 4294967296 * (unat f1 mod 4294967296) + 18446744073709551616 * (unat f2 mod 4294967296) + 79228162514264337593543950336 * (unat f3 mod 4294967296)"
    by (simp add: le_value_append store_le32_value unat_low32 algebra_simps)
  also have "\<dots> = (unat w0 + 4294967296 * unat w1 + 18446744073709551616 * unat w2 + 79228162514264337593543950336 * unat w3 + le_value (drop 16 key)) mod 2 ^ 128"
    unfolding load_le32_suffix [OF assms] k0_def [symmetric] k1_def [symmetric] k2_def [symmetric] k3_def [symmetric]
    by (rule tag_identity [OF f])
  finally have v: "le_value ?t = \<dots>" .
  have "?t = le_bytes 16 (le_value ?t)" using le_bytes_le_value [of ?t] by (simp add: store_le32_value)
  then show ?thesis unfolding t v .
qed

lemma fold_or_zero: "fold (\<lambda>i d. d OR f i) xs (e :: u8) = 0 \<longleftrightarrow> e = 0 \<and> (\<forall>i\<in>set xs. f i = 0)"
proof (induction xs arbitrary: e)
  case (Cons a xs)
  have "(e OR f a = 0) = (e = 0 \<and> f a = 0)" by (simp add: or_eq_0_iff)
  then show ?case by (simp add: Cons.IH)
qed simp

lemma poly1305_eval_less: "acc < p1305 \<Longrightarrow> poly1305_eval r m acc < p1305"
proof (induction r m acc rule: poly1305_eval.induct)
  case (1 r m acc)
  have "0 < p1305" by (simp add: p1305_def)
  then show ?case using 1 by (subst poly1305_eval.simps) (auto intro: mod_less_divisor)
qed

lemma poly1305_is_mac:
  assumes "length key = 32"
  shows "anx_poly1305 key msg = poly1305_mac key msg"
proof -
  let ?r = "poly1305_r key" and ?e = "poly1305_eval (le_value (take 16 key) AND 0x0ffffffc0ffffffc0ffffffc0fffffff) msg 0"
  define h where "h = poly1305_loop ?r msg (0, 0, 0, 0, 0)"
  have "limbs_ok (0, 0, 0, 0, 0)" "limb_value (0, 0, 0, 0, 0) mod p1305 = 0 mod p1305" by (simp_all add: limbs_ok_def limb_value_def)
  note loop = poly1305_loop_value [OF clamp_limbs(1) [OF assms] this, of msg, folded h_def, unfolded clamp_limbs(2) [OF assms]]
  let ?c = "poly1305_final_carry h"
  have c: "limbs26 ?c" "limb_value ?c mod p1305 = limb_value h mod p1305"
    using poly1305_final_carry_value [of h] loop by auto
  note s = poly1305_select_value [OF c(1)]
  have "?e < p1305" by (rule poly1305_eval_less) (simp add: p1305_def)
  then have v: "limb_value (poly1305_select ?c) = ?e" using s c(2) loop by simp
  obtain w0 w1 w2 w3 where w: "poly1305_pack (poly1305_select ?c) = (w0, w1, w2, w3)" by (metis prod_cases4)
  note p = poly1305_pack_value [OF conjunct1 [OF s] w, unfolded v]
  have "(?e + le_value (drop 16 key)) mod 2 ^ 128 = (?e mod 2 ^ 128 + le_value (drop 16 key)) mod 2 ^ 128" by (simp only: mod_add_left_eq)
  then show ?thesis
    unfolding anx_poly1305_def h_def [symmetric] w poly1305_tag_value [OF assms] poly1305_mac_def p by simp
qed

lemma length_poly1305: "length key = 32 \<Longrightarrow> length (anx_poly1305 key msg) = 16"
  by (simp add: poly1305_is_mac poly1305_mac_def length_le_bytes)

lemma xor_bytes_zero_iff: "a XOR b = 0 \<longleftrightarrow> a = (b :: u8)"
  by (metis xor.assoc xor.left_neutral xor_self_eq)

lemma poly1305_verify_iff:
  assumes "length key = 32" "length tag = 16"
  shows "anx_poly1305_verify key msg tag = (if tag = anx_poly1305 key msg then 0 else - 1)"
proof -
  let ?c = "anx_poly1305 key msg"
  have "(\<forall>i\<in>set [0..<16]. ?c ! i XOR tag ! i = 0) = (tag = ?c)"
    using assms length_poly1305 [OF assms(1), of msg] by (auto simp: list_eq_iff_nth_eq xor_bytes_zero_iff)
  then show ?thesis
    using fold_or_zero [of "\<lambda>i. ?c ! i XOR tag ! i" "[0..<16]" 0] by (simp only: anx_poly1305_verify_def Let_def) simp
qed

text \<open>C1: \<open>anx_poly1305\<close> computes the Poly1305 message authentication code. Its limbs of 26 bits, the
  64-bit products with lazy carries, the final carry chain and the masked subtraction give, for
  every 32-byte key and every message, the sixteen little-endian bytes of the polynomial in the
  clamped key over the padded message blocks modulo \<open>2 ^ 130 - 5\<close>, plus the second half of the
  key modulo \<open>2 ^ 128\<close>; no intermediate 32- or 64-bit operation loses a bit. And
  \<open>anx_poly1305_verify\<close> accepts exactly that tag.\<close>

theorem poly1305_correct:
  assumes "length key = 32"
  shows "anx_poly1305 key msg = poly1305_mac key msg \<and>
    (length tag = 16 \<longrightarrow> anx_poly1305_verify key msg tag = (if tag = poly1305_mac key msg then 0 else - 1))"
  using poly1305_is_mac [OF assms] poly1305_verify_iff [OF assms] by simp

theorem poly1305_correct_witness:
  "anx_poly1305 (replicate 32 1) [7, 8] = poly1305_mac (replicate 32 1) [7, 8] \<and>
   anx_poly1305_verify (replicate 32 1) [7, 8] (replicate 16 0) = (if replicate 16 0 = poly1305_mac (replicate 32 1) [7, 8] then 0 else - 1)"
  using poly1305_correct [of "replicate 32 1" "[7, 8]" "replicate 16 0"] by simp

subsection \<open>The keystream\<close>

lemma length_chacha20_block: "length (chacha20_block st) = 64"
  by (simp add: chacha20_block_def Let_def length_concat store_le32_value(2) comp_def sum_list_triv)

lemma chacha20_loop_bytes:
  "12 < length st \<Longrightarrow> chacha20_loop st p =
     map (\<lambda>i. p ! i XOR chacha20_block (st[12 := st ! 12 + of_nat (i div 64)]) ! (i mod 64)) [0..<length p]"
proof (induction "length p" arbitrary: p st rule: less_induct)
  case less
  show ?case
  proof (cases "p = []")
    case True
    then show ?thesis by (subst chacha20_loop.simps) simp
  next
    case False
    let ?b = "if length p < 64 then length p else 64" and ?st = "st[12 := st ! 12 + 1]"
    have b: "0 < ?b" "?b \<le> length p" "?b \<le> 64" using False by auto
    have l: "chacha20_loop st p = map (\<lambda>i. p ! i XOR chacha20_block st ! i) [0..<?b] @ chacha20_loop ?st (drop ?b p)"
      using False by (subst chacha20_loop.simps) (simp add: Let_def)
    have r: "chacha20_loop ?st (drop ?b p) = map (\<lambda>i. drop ?b p ! i XOR
        chacha20_block (?st[12 := ?st ! 12 + of_nat (i div 64)]) ! (i mod 64)) [0..<length p - ?b]"
      using less.hyps [of "drop ?b p" ?st] less.prems b by simp
    show ?thesis
    proof (rule nth_equalityI)
      show "length (chacha20_loop st p) = length (map (\<lambda>i. p ! i XOR chacha20_block (st[12 := st ! 12 + of_nat (i div 64)]) ! (i mod 64)) [0..<length p])"
        unfolding l r using b by simp
      fix i assume "i < length (chacha20_loop st p)"
      then have i: "i < length p" unfolding l r using b by simp
      show "chacha20_loop st p ! i = map (\<lambda>i. p ! i XOR chacha20_block (st[12 := st ! 12 + of_nat (i div 64)]) ! (i mod 64)) [0..<length p] ! i"
      proof (cases "i < ?b")
        case True
        then show ?thesis unfolding l using i b by (simp add: nth_append)
      next
        case F: False
        then have e: "?b = 64" using i by (auto split: if_splits)
        then obtain j where j: "i = j + 64" using F by (metis add.commute le_Suc_ex not_le)
        have d: "(j + 64) div 64 = Suc (j div 64)" by simp
        have "chacha20_loop st p ! i = chacha20_loop ?st (drop 64 p) ! j" unfolding l e j using j i by (simp add: nth_append)
        also have "\<dots> = drop 64 p ! j XOR chacha20_block (?st[12 := ?st ! 12 + of_nat (j div 64)]) ! (j mod 64)"
          unfolding r [unfolded e] using i j by (subst nth_map) simp_all
        finally show ?thesis using i j less.prems by (simp add: d ac_simps)
      qed
    qed
  qed
qed

text \<open>C18: ChaCha20 is a stream cipher with random access: byte \<open>i\<close> of the output of \<open>anx_chacha20\<close> is byte
  \<open>i\<close> of the data combined with byte \<open>i mod 64\<close> of the block function at counter
  \<open>counter + i div 64\<close>, where the counter wraps at 32 bits; the output has the length of the
  data; and encrypting twice with the same key, nonce and counter restores the data.\<close>

theorem chacha20_stream:
  "anx_chacha20 key nonce counter data =
     map (\<lambda>i. data ! i XOR chacha20_block (chacha20_state key nonce (counter + of_nat (i div 64))) ! (i mod 64)) [0..<length data] \<and>
   anx_chacha20 key nonce counter (anx_chacha20 key nonce counter data) = data"
proof -
  have st: "(chacha20_state key nonce counter)[12 := chacha20_state key nonce counter ! 12 + n] = chacha20_state key nonce (counter + n)" for n
    by (simp add: chacha20_state_def upt_rec)
  let ?k = "\<lambda>i. chacha20_block (chacha20_state key nonce (counter + of_nat (i div 64))) ! (i mod 64)"
  have e: "anx_chacha20 key nonce counter data = map (\<lambda>i. data ! i XOR ?k i) [0..<length data]" for data
    unfolding anx_chacha20_def by (subst chacha20_loop_bytes) (simp_all add: st, simp add: chacha20_state_def)
  have "map (\<lambda>i. map (\<lambda>i. data ! i XOR f i) [0..<length data] ! i XOR f i) [0..<length data] = data" for f :: "nat \<Rightarrow> u8"
    by (rule nth_equalityI) (simp_all add: xor.assoc)
  from this [of ?k] show ?thesis unfolding e by simp
qed

end
