(* ===== verification/Cells.thy ===== *)
theory Cells
  imports DList "HOL-Library.Sublist"
begin

text \<open>
  Execution cells: the registry of \<^verbatim>\<open>kernel/core/exec/cell_store.c\<close>, the status machine and the
  dependency graph of \<^verbatim>\<open>kernel/core/exec/cell.c\<close>, the delegated scope of
  \<^verbatim>\<open>kernel/core/exec/runtime.c\<close> and the cancellation of \<^verbatim>\<open>kernel/core/sched/scheduler.c\<close>. A cell is addressed by
  a number, \<open>cells s\<close> is the memory and \<open>cell_brk s\<close> the next address the allocator
  gives out; \<open>None\<close> is the NULL pointer. An array with a count (\<open>child_cids\<close>,
  \<open>dep_cids\<close>) is the list of its live entries. The fields of a cell that no modelled function
  reads or writes (inputs, outputs, plan and trace references, error, admitted bytes) are left
  out. Enumerations are datatypes, so that the
  range checks of the source hold by typing. Locks are not modelled: every function runs
  to its end before the next one starts, as in the single-threaded runtime of the source.
\<close>

subsection \<open>Cells\<close>

datatype anx_cell_status =
  ANX_CELL_CREATED | ANX_CELL_ADMITTED | ANX_CELL_PLANNING | ANX_CELL_PLANNED | ANX_CELL_QUEUED | ANX_CELL_RUNNING | ANX_CELL_WAITING
  | ANX_CELL_VALIDATING | ANX_CELL_COMMITTING | ANX_CELL_COMPLETED | ANX_CELL_FAILED | ANX_CELL_CANCELLED | ANX_CELL_COMPENSATING
  | ANX_CELL_COMPENSATED

definition anx_cell_status_terminal :: "anx_cell_status \<Rightarrow> bool" where
  "anx_cell_status_terminal st \<longleftrightarrow>
     st = ANX_CELL_COMPLETED \<or> st = ANX_CELL_FAILED \<or> st = ANX_CELL_CANCELLED \<or> st = ANX_CELL_COMPENSATED"

datatype anx_cell_type =
  ANX_CELL_TASK_EXECUTION | ANX_CELL_TASK_BATCH_EXECUTION | ANX_CELL_TASK_STREAM_EXECUTION | ANX_CELL_TASK_PLAN_GENERATION
  | ANX_CELL_TASK_DECOMPOSITION | ANX_CELL_TASK_RETRIEVAL | ANX_CELL_TASK_MEMORY_UPDATE | ANX_CELL_TASK_GRAPH_UPDATE
  | ANX_CELL_TASK_VALIDATION | ANX_CELL_TASK_CONSISTENCY_CHECK | ANX_CELL_TASK_POLICY_CHECK | ANX_CELL_TASK_SIDE_EFFECT
  | ANX_CELL_TASK_EXTERNAL_CALL | ANX_CELL_TASK_ROUTER | ANX_CELL_TASK_SCHEDULER_BINDING | ANX_CELL_TASK_COMPENSATION
  | ANX_CELL_MODEL_SERVER | ANX_CELL_VM | ANX_CELL_BELIEF_UPDATE | ANX_CELL_ARBITRATION | ANX_CELL_LOOP_SUPERVISOR | ANX_CELL_EDITOR
  | ANX_CELL_AUDIO_PLAYER | ANX_CELL_VIDEO_PLAYER

text \<open>\<open>cell_type < ANX_CELL_MODEL_SERVER\<close>: the task families.\<close>

fun task_type :: "anx_cell_type \<Rightarrow> bool" where
  "task_type ANX_CELL_MODEL_SERVER = False"
| "task_type ANX_CELL_VM = False"
| "task_type ANX_CELL_BELIEF_UPDATE = False"
| "task_type ANX_CELL_ARBITRATION = False"
| "task_type ANX_CELL_LOOP_SUPERVISOR = False"
| "task_type ANX_CELL_EDITOR = False"
| "task_type ANX_CELL_AUDIO_PLAYER = False"
| "task_type ANX_CELL_VIDEO_PLAYER = False"
| "task_type _ = True"

record anx_cell_intent =
  intent_name :: string
  objective :: string
  intent_priority :: u32

datatype anx_locality = ANX_LOCAL_ONLY | ANX_LOCAL_PREFERRED | ANX_REMOTE_ALLOWED | ANX_REMOTE_REQUIRED

record anx_cell_constraints =
  max_latency_ms :: u64
  max_memory_admission_bytes :: u64
  max_cost_usd_cents :: u32
  locality :: anx_locality
  max_recursion_depth :: u32
  max_child_cells :: u32
  topology_bk_set :: bool
  topology_bk_lo :: u64
  topology_bk_hi :: u64

datatype anx_routing_strategy = ANX_ROUTE_DIRECT | ANX_ROUTE_LOCAL_FIRST | ANX_ROUTE_COST_FIRST | ANX_ROUTE_LATENCY_FIRST
  | ANX_ROUTE_CONFIDENCE_FIRST | ANX_ROUTE_ADAPTIVE | ANX_ROUTE_POLICY_LOCKED

datatype anx_decomp_mode = ANX_DECOMP_NONE | ANX_DECOMP_STATIC | ANX_DECOMP_ADAPTIVE | ANX_DECOMP_RECURSIVE

record anx_routing_policy =
  strategy :: anx_routing_strategy
  decomposition :: anx_decomp_mode
  profile_oid :: anx_uuid
  catalog_id :: u64
  catalog_epoch :: u64
  catalog_index :: u32

datatype anx_validation_mode = ANX_VALIDATE_NONE | ANX_VALIDATE_SCHEMA_ONLY | ANX_VALIDATE_LIGHT | ANX_VALIDATE_STRICT | ANX_VALIDATE_DOMAIN_SPECIFIC

record anx_validation_policy =
  validation_mode :: anx_validation_mode
  block_commit_on_failure :: bool

record anx_commit_policy =
  persist_outputs :: bool
  promote_to_memory :: bool
  write_trace :: bool
  commit_side_effects :: bool

record anx_execution_policy =
  allow_network :: bool
  allow_remote_models :: bool
  allow_recursive_cells :: bool
  allow_side_effects :: bool
  exec_recursion_depth :: u32

record anx_retry_policy =
  max_attempts :: u32
  backoff_base_ms :: u32

datatype anx_consistency_class = ANX_CONSISTENCY_BEST_EFFORT | ANX_CONSISTENCY_SEMANTIC | ANX_CONSISTENCY_TRANSACTIONAL | ANX_CONSISTENCY_TOKEN_STABLE

datatype anx_effect_mode = ANX_EFFECT_DIRECT | ANX_EFFECT_STAGED

record anx_execution_contract =
  consistency :: anx_consistency_class
  effect_mode :: anx_effect_mode

record anx_cognitive_envelope =
  max_tokens :: u32
  max_reasoning_depth :: u32

definition ANX_MAX_CHILD_CELLS :: nat where "ANX_MAX_CHILD_CELLS = 32"
definition ANX_MAX_CELL_DEPS :: nat where "ANX_MAX_CELL_DEPS = 16"

record anx_cell =
  cid :: anx_uuid
  cell_type :: anx_cell_type
  status :: anx_cell_status
  intent :: anx_cell_intent
  constraints :: anx_cell_constraints
  routing :: anx_routing_policy
  validation :: anx_validation_policy
  commit :: anx_commit_policy
  execution :: anx_execution_policy
  retry :: anx_retry_policy
  contract :: anx_execution_contract
  cognitive :: anx_cognitive_envelope
  parent_cid :: anx_uuid
  identity_id :: anx_uuid
  effect_fence_id :: anx_uuid
  tool_namespace_id :: anx_uuid
  revision_lease_id :: anx_uuid
  child_cids :: "anx_uuid list"
  recursion_depth :: u32
  dep_cids :: "anx_uuid list"
  created_at :: u64
  memory_admission_count :: u32
  runtime_active :: bool
  refcount :: u32

text \<open>The memory \<open>anx_zalloc\<close> returns for a cell.\<close>

definition zero_cell :: anx_cell where
  "zero_cell = \<lparr>cid = ANX_UUID_NIL, cell_type = ANX_CELL_TASK_EXECUTION, status = ANX_CELL_CREATED,
     intent = \<lparr>intent_name = [], objective = [], intent_priority = 0\<rparr>,
     constraints = \<lparr>max_latency_ms = 0, max_memory_admission_bytes = 0, max_cost_usd_cents = 0, locality = ANX_LOCAL_ONLY,
       max_recursion_depth = 0, max_child_cells = 0, topology_bk_set = False, topology_bk_lo = 0, topology_bk_hi = 0\<rparr>,
     routing = \<lparr>strategy = ANX_ROUTE_DIRECT, decomposition = ANX_DECOMP_NONE, profile_oid = ANX_UUID_NIL, catalog_id = 0, catalog_epoch = 0, catalog_index = 0\<rparr>,
     validation = \<lparr>validation_mode = ANX_VALIDATE_NONE, block_commit_on_failure = False\<rparr>,
     commit = \<lparr>persist_outputs = False, promote_to_memory = False, write_trace = False, commit_side_effects = False\<rparr>,
     execution = \<lparr>allow_network = False, allow_remote_models = False, allow_recursive_cells = False, allow_side_effects = False, exec_recursion_depth = 0\<rparr>,
     retry = \<lparr>max_attempts = 0, backoff_base_ms = 0\<rparr>,
     contract = \<lparr>consistency = ANX_CONSISTENCY_BEST_EFFORT, effect_mode = ANX_EFFECT_DIRECT\<rparr>,
     cognitive = \<lparr>max_tokens = 0, max_reasoning_depth = 0\<rparr>,
     parent_cid = ANX_UUID_NIL, identity_id = ANX_UUID_NIL, effect_fence_id = ANX_UUID_NIL, tool_namespace_id = ANX_UUID_NIL,
     revision_lease_id = ANX_UUID_NIL, child_cids = [], recursion_depth = 0, dep_cids = [], created_at = 0,
     memory_admission_count = 0, runtime_active = False, refcount = 0\<rparr>"

subsection \<open>The state\<close>

datatype anx_sched_priority = ANX_PRIO_LOW | ANX_PRIO_NORMAL | ANX_PRIO_HIGH | ANX_PRIO_CRITICAL

record anx_sched_entry =
  cell_id :: anx_uuid
  entry_priority :: anx_sched_priority
  enqueued_at :: u64

record sched_queue =
  qentries :: "anx_sched_entry list"
  qdepth :: u32

record cell_env = kenv +
  cell_table :: "nat chains"
  cells :: "nat \<Rightarrow> anx_cell"
  cell_brk :: nat
  active_cell :: "nat option"
  queues :: "sched_queue list"
  sched_initialized :: bool

definition anx_cell_current_id :: "'a cell_env_scheme \<Rightarrow> anx_uuid option" where
  "anx_cell_current_id s = map_option (\<lambda>p. cid (cells s p)) (active_cell s)"

definition set_cell :: "nat \<Rightarrow> (anx_cell \<Rightarrow> anx_cell) \<Rightarrow> 'a cell_env_scheme \<Rightarrow> 'a cell_env_scheme" where
  "set_cell p f s = s\<lparr>cells := (cells s)(p := f (cells s p))\<rparr>"

subsection \<open>The scheduler queues\<close>

definition anx_sched_init :: "'a cell_env_scheme \<Rightarrow> 'a cell_env_scheme" where
  "anx_sched_init s =
     (if active_cell s \<noteq> None then s
      else s\<lparr>queues := replicate 6 \<lparr>qentries = [], qdepth = 0\<rparr>, sched_initialized := True\<rparr>)"

text \<open>One queue of \<open>anx_sched_cancel\<close>: every entry of the cell is unlinked and counted.\<close>

definition cancel_queue :: "anx_uuid \<Rightarrow> sched_queue \<Rightarrow> sched_queue" where
  "cancel_queue uid q =
     q\<lparr>qentries := filter (\<lambda>e. anx_uuid_compare (cell_id e) uid \<noteq> 0) (qentries q),
       qdepth := qdepth q - of_nat (length (filter (\<lambda>e. anx_uuid_compare (cell_id e) uid = 0) (qentries q)))\<rparr>"

definition anx_sched_cancel :: "anx_uuid \<Rightarrow> 'a cell_env_scheme \<Rightarrow> int \<times> 'a cell_env_scheme" where
  "anx_sched_cancel uid s =
     (if \<not> sched_initialized s then (ANX_ENOENT, s)
      else (if \<exists>q\<in>set (queues s). \<exists>e\<in>set (qentries q). anx_uuid_compare (cell_id e) uid = 0 then ANX_OK else ANX_ENOENT,
            s\<lparr>queues := map (cancel_queue uid) (queues s)\<rparr>))"

subsection \<open>The cell store\<close>

definition CELL_STORE_BITS :: u32 where "CELL_STORE_BITS = 8"

definition anx_cell_store_init :: "'a cell_env_scheme \<Rightarrow> 'a cell_env_scheme" where
  "anx_cell_store_init s = (case anx_alloc s of (ok, s) \<Rightarrow> if ok then s\<lparr>cell_table := chain_init CELL_STORE_BITS\<rparr> else s)"

definition new_cell :: "anx_uuid \<Rightarrow> anx_cell_type \<Rightarrow> anx_cell_intent \<Rightarrow> u64 \<Rightarrow> anx_cell" where
  "new_cell uid type i now =
     zero_cell\<lparr>cid := uid, cell_type := type, status := ANX_CELL_CREATED,
       intent := \<lparr>intent_name = take 127 (intent_name i), objective = take 511 (objective i), intent_priority = intent_priority i\<rparr>,
       constraints := (constraints zero_cell)\<lparr>max_child_cells := of_nat ANX_MAX_CHILD_CELLS, max_recursion_depth := 4\<rparr>,
       routing := (routing zero_cell)\<lparr>strategy := ANX_ROUTE_DIRECT, decomposition := ANX_DECOMP_NONE\<rparr>,
       validation := \<lparr>validation_mode = ANX_VALIDATE_SCHEMA_ONLY, block_commit_on_failure = True\<rparr>,
       commit := (commit zero_cell)\<lparr>persist_outputs := True, write_trace := True\<rparr>,
       execution := (execution zero_cell)\<lparr>allow_recursive_cells := False, exec_recursion_depth := 4\<rparr>,
       retry := \<lparr>max_attempts = 1, backoff_base_ms = 100\<rparr>,
       created_at := now, refcount := 1\<rparr>"

definition anx_cell_create ::
  "anx_cell_type \<Rightarrow> anx_cell_intent option \<Rightarrow> 'a cell_env_scheme \<Rightarrow> int \<times> nat option \<times> 'a cell_env_scheme" where
  "anx_cell_create type intent_in s =
     (case intent_in of None \<Rightarrow> (ANX_EINVAL, None, s)
      | Some i \<Rightarrow>
          case anx_alloc s of (ok, s) \<Rightarrow>
          if \<not> ok then (ANX_ENOMEM, None, s)
          else case anx_uuid_generate s of (uid, s) \<Rightarrow>
               case arch_time_now s of (now, s) \<Rightarrow>
                 let p = cell_brk s;
                     s = s\<lparr>cell_brk := p + 1, cells := (cells s)(p := new_cell uid type i now)\<rparr>
                 in (ANX_OK, Some p, s\<lparr>cell_table := chain_add CELL_STORE_BITS (anx_uuid_hash uid) p (cell_table s)\<rparr>))"

definition find_cell :: "anx_uuid \<Rightarrow> 'a cell_env_scheme \<Rightarrow> nat option" where
  "find_cell uid s = chain_find CELL_STORE_BITS (anx_uuid_hash uid) (\<lambda>p. anx_uuid_compare (cid (cells s p)) uid = 0) (cell_table s)"

definition anx_cell_store_lookup :: "anx_uuid \<Rightarrow> 'a cell_env_scheme \<Rightarrow> nat option \<times> 'a cell_env_scheme" where
  "anx_cell_store_lookup uid s =
     (case find_cell uid s of
        None \<Rightarrow> (None, s)
      | Some p \<Rightarrow> (Some p, set_cell p (\<lambda>c. c\<lparr>refcount := refcount c + 1\<rparr>) s))"

definition anx_cell_store_release :: "nat option \<Rightarrow> 'a cell_env_scheme \<Rightarrow> 'a cell_env_scheme" where
  "anx_cell_store_release cell s =
     (case cell of None \<Rightarrow> s
      | Some p \<Rightarrow> if refcount (cells s p) > 0 then set_cell p (\<lambda>c. c\<lparr>refcount := refcount c - 1\<rparr>) s else s)"

text \<open>The parent gives back the slot of a destroyed child.\<close>

definition drop_child :: "nat \<Rightarrow> 'a cell_env_scheme \<Rightarrow> 'a cell_env_scheme" where
  "drop_child p s =
     (if anx_uuid_is_nil (parent_cid (cells s p)) then s
      else case anx_cell_store_lookup (parent_cid (cells s p)) s of
             (None, s) \<Rightarrow> s
           | (Some q, s) \<Rightarrow>
               anx_cell_store_release (Some q) (set_cell q (\<lambda>c. c\<lparr>child_cids := remove1 (cid (cells s p)) (child_cids c)\<rparr>) s))"

definition anx_cell_destroy :: "nat option \<Rightarrow> 'a cell_env_scheme \<Rightarrow> int \<times> 'a cell_env_scheme" where
  "anx_cell_destroy cell s =
     (case cell of None \<Rightarrow> (ANX_EINVAL, s)
      | Some p \<Rightarrow>
          let c = cells s p
          in if refcount c > 1 \<or> child_cids c \<noteq> [] \<or> runtime_active c \<or> memory_admission_count c \<noteq> 0 then (ANX_EBUSY, s)
             else case anx_sched_cancel (cid c) (drop_child p s) of
                    (_, s) \<Rightarrow> (ANX_OK, s\<lparr>cell_table := chain_del p (cell_table s)\<rparr>))"

fun reap_loop :: "anx_uuid \<Rightarrow> anx_uuid list \<Rightarrow> nat \<Rightarrow> 'a cell_env_scheme \<Rightarrow> nat \<times> 'a cell_env_scheme" where
  "reap_loop parent [] n s = (n, s)"
| "reap_loop parent (uid # uids) n s =
     (case anx_cell_store_lookup uid s of
        (None, s) \<Rightarrow> reap_loop parent uids n s
      | (Some p, s) \<Rightarrow>
          let c = cells s p;
              eligible = (task_type (cell_type c) \<and> anx_cell_status_terminal (status c) \<and> anx_uuid_compare (parent_cid c) parent = 0);
              s = anx_cell_store_release (Some p) s
          in if eligible
             then case anx_cell_destroy (Some p) s of (r, s) \<Rightarrow> reap_loop parent uids (if r = ANX_OK then n + 1 else n) s
             else reap_loop parent uids n s)"

definition anx_cell_reap_children :: "nat option \<Rightarrow> 'a cell_env_scheme \<Rightarrow> int \<times> nat \<times> 'a cell_env_scheme" where
  "anx_cell_reap_children parent s =
     (case parent of None \<Rightarrow> (ANX_EINVAL, 0, s)
      | Some p \<Rightarrow>
          if length (child_cids (cells s p)) > ANX_MAX_CHILD_CELLS then (ANX_EINVAL, 0, s)
          else case reap_loop (cid (cells s p)) (child_cids (cells s p)) 0 s of (n, s) \<Rightarrow> (ANX_OK, n, s))"

subsection \<open>Status transitions\<close>

fun valid_transitions :: "anx_cell_status \<Rightarrow> anx_cell_status list" where
  "valid_transitions ANX_CELL_CREATED = [ANX_CELL_ADMITTED, ANX_CELL_FAILED, ANX_CELL_CANCELLED]"
| "valid_transitions ANX_CELL_ADMITTED = [ANX_CELL_PLANNING, ANX_CELL_CANCELLED]"
| "valid_transitions ANX_CELL_PLANNING = [ANX_CELL_PLANNED, ANX_CELL_FAILED, ANX_CELL_CANCELLED]"
| "valid_transitions ANX_CELL_PLANNED = [ANX_CELL_QUEUED, ANX_CELL_CANCELLED]"
| "valid_transitions ANX_CELL_QUEUED = [ANX_CELL_RUNNING, ANX_CELL_CANCELLED]"
| "valid_transitions ANX_CELL_RUNNING = [ANX_CELL_WAITING, ANX_CELL_VALIDATING, ANX_CELL_FAILED, ANX_CELL_CANCELLED]"
| "valid_transitions ANX_CELL_WAITING = [ANX_CELL_RUNNING, ANX_CELL_FAILED, ANX_CELL_CANCELLED]"
| "valid_transitions ANX_CELL_VALIDATING = [ANX_CELL_COMMITTING, ANX_CELL_FAILED, ANX_CELL_CANCELLED]"
| "valid_transitions ANX_CELL_COMMITTING = [ANX_CELL_COMPLETED, ANX_CELL_FAILED, ANX_CELL_COMPENSATING]"
| "valid_transitions ANX_CELL_COMPENSATING = [ANX_CELL_COMPENSATED, ANX_CELL_FAILED]"
| "valid_transitions _ = []"

definition anx_cell_transition :: "nat \<Rightarrow> anx_cell_status \<Rightarrow> 'a cell_env_scheme \<Rightarrow> int \<times> 'a cell_env_scheme" where
  "anx_cell_transition p new s =
     (if new \<notin> set (valid_transitions (status (cells s p))) then (ANX_EINVAL, s)
      else (ANX_OK, set_cell p (\<lambda>c. c\<lparr>status := new\<rparr>) s))"

subsection \<open>Dependencies\<close>

definition VISIT_STACK :: nat where "VISIT_STACK = ANX_MAX_CELL_DEPS * 4"

text \<open>The stack of the walk, its top first: what does not fit is left out.\<close>

fun push_deps :: "anx_uuid list \<Rightarrow> anx_uuid list \<Rightarrow> anx_uuid list" where
  "push_deps [] stack = stack"
| "push_deps (d # ds) stack = (if length stack < VISIT_STACK then push_deps ds (d # stack) else stack)"

partial_function (option) dep_walk :: "anx_uuid \<Rightarrow> anx_uuid list \<Rightarrow> 'a cell_env_scheme \<Rightarrow> (bool \<times> 'a cell_env_scheme) option" where
  "dep_walk target stack s =
     (case stack of [] \<Rightarrow> Some (False, s)
      | cur # stack \<Rightarrow>
          if cur = target then Some (True, s)
          else case anx_cell_store_lookup cur s of
                 (None, s) \<Rightarrow> dep_walk target stack s
               | (Some p, s) \<Rightarrow> dep_walk target (push_deps (dep_cids (cells s p)) stack) (anx_cell_store_release (Some p) s))"

definition dep_creates_cycle :: "nat \<Rightarrow> nat \<Rightarrow> 'a cell_env_scheme \<Rightarrow> (bool \<times> 'a cell_env_scheme) option" where
  "dep_creates_cycle cell prereq s =
     (if cid (cells s prereq) = cid (cells s cell) then Some (True, s)
      else dep_walk (cid (cells s cell)) (push_deps (dep_cids (cells s prereq)) []) s)"

definition anx_cell_add_dependency :: "nat option \<Rightarrow> anx_uuid \<Rightarrow> 'a cell_env_scheme \<Rightarrow> (int \<times> 'a cell_env_scheme) option" where
  "anx_cell_add_dependency cell prereq_cid s =
     (case cell of None \<Rightarrow> Some (ANX_EINVAL, s)
      | Some p \<Rightarrow>
          if cid (cells s p) = prereq_cid then Some (ANX_EINVAL, s)
          else if length (dep_cids (cells s p)) \<ge> ANX_MAX_CELL_DEPS then Some (ANX_ENOMEM, s)
          else if prereq_cid \<in> set (dep_cids (cells s p)) then Some (ANX_EINVAL, s)
          else case anx_cell_store_lookup prereq_cid s of
                 (None, s) \<Rightarrow> Some (ANX_ENOENT, s)
               | (Some q, s) \<Rightarrow>
                   (case dep_creates_cycle p q s of
                      None \<Rightarrow> None
                    | Some (True, s) \<Rightarrow> Some (ANX_EINVAL, anx_cell_store_release (Some q) s)
                    | Some (False, s) \<Rightarrow>
                        Some (ANX_OK, anx_cell_store_release (Some q) (set_cell p (\<lambda>c. c\<lparr>dep_cids := dep_cids c @ [prereq_cid]\<rparr>) s))))"

fun deps_loop :: "anx_uuid list \<Rightarrow> int \<Rightarrow> 'a cell_env_scheme \<Rightarrow> int \<times> 'a cell_env_scheme" where
  "deps_loop [] result s = (result, s)"
| "deps_loop (d # ds) result s =
     (case anx_cell_store_lookup d s of
        (None, s) \<Rightarrow> (ANX_ENOENT, s)
      | (Some p, s) \<Rightarrow>
          let st = status (cells s p); s = anx_cell_store_release (Some p) s
          in if st = ANX_CELL_FAILED \<or> st = ANX_CELL_CANCELLED \<or> st = ANX_CELL_COMPENSATED then (ANX_EPERM, s)
             else deps_loop ds (if st \<noteq> ANX_CELL_COMPLETED then 0 else result) s)"

definition anx_cell_deps_satisfied :: "nat option \<Rightarrow> 'a cell_env_scheme \<Rightarrow> int \<times> 'a cell_env_scheme" where
  "anx_cell_deps_satisfied cell s =
     (case cell of None \<Rightarrow> (ANX_EINVAL, s) | Some p \<Rightarrow> deps_loop (dep_cids (cells s p)) 1 s)"

subsection \<open>Declarations\<close>

definition anx_cell_set_topology :: "nat option \<Rightarrow> u64 \<Rightarrow> u64 \<Rightarrow> 'a cell_env_scheme \<Rightarrow> int \<times> 'a cell_env_scheme" where
  "anx_cell_set_topology cell bk_lo bk_hi s =
     (case cell of None \<Rightarrow> (ANX_EINVAL, s)
      | Some p \<Rightarrow> if bk_hi < bk_lo then (ANX_EINVAL, s)
                 else (ANX_OK, set_cell p (\<lambda>c. c\<lparr>constraints := (constraints c)\<lparr>topology_bk_lo := bk_lo, topology_bk_hi := bk_hi, topology_bk_set := True\<rparr>\<rparr>) s))"

definition anx_cell_clear_topology :: "nat option \<Rightarrow> 'a cell_env_scheme \<Rightarrow> 'a cell_env_scheme" where
  "anx_cell_clear_topology cell s =
     (case cell of None \<Rightarrow> s
      | Some p \<Rightarrow> set_cell p (\<lambda>c. c\<lparr>constraints := (constraints c)\<lparr>topology_bk_set := False, topology_bk_lo := 0, topology_bk_hi := 0\<rparr>\<rparr>) s)"

text \<open>\<open>contract_valid\<close> checks the ranges of the two enumerations, which hold by typing.\<close>

definition anx_cell_check_contract :: "nat option \<Rightarrow> 'a cell_env_scheme \<Rightarrow> int" where
  "anx_cell_check_contract cell s =
     (case cell of None \<Rightarrow> ANX_EINVAL
      | Some p \<Rightarrow> if consistency (contract (cells s p)) = ANX_CONSISTENCY_BEST_EFFORT \<and> effect_mode (contract (cells s p)) = ANX_EFFECT_DIRECT
                 then ANX_OK else ANX_ENOTSUP)"

definition anx_cell_set_contract ::
  "nat option \<Rightarrow> anx_consistency_class \<Rightarrow> anx_effect_mode \<Rightarrow> 'a cell_env_scheme \<Rightarrow> int \<times> 'a cell_env_scheme" where
  "anx_cell_set_contract cell cc mode s =
     (case cell of None \<Rightarrow> (ANX_EINVAL, s)
      | Some p \<Rightarrow> if anx_cell_current_id s \<noteq> None then (ANX_EPERM, s)
                 else if status (cells s p) \<noteq> ANX_CELL_CREATED then (ANX_EBUSY, s)
                 else (ANX_OK, set_cell p (\<lambda>c. c\<lparr>contract := \<lparr>consistency = cc, effect_mode = mode\<rparr>\<rparr>) s))"

definition anx_cell_set_cognitive_envelope :: "nat option \<Rightarrow> u32 \<Rightarrow> u32 \<Rightarrow> 'a cell_env_scheme \<Rightarrow> int \<times> 'a cell_env_scheme" where
  "anx_cell_set_cognitive_envelope cell tokens depth s =
     (case cell of None \<Rightarrow> (ANX_EINVAL, s)
      | Some p \<Rightarrow> if anx_cell_current_id s \<noteq> None then (ANX_EPERM, s)
                 else if status (cells s p) \<noteq> ANX_CELL_CREATED then (ANX_EBUSY, s)
                 else (ANX_OK, set_cell p (\<lambda>c. c\<lparr>cognitive := \<lparr>max_tokens = tokens, max_reasoning_depth = depth\<rparr>\<rparr>) s))"

subsection \<open>Delegated scope\<close>

text \<open>Zero is an absent bound.\<close>

definition scope_widens :: "u64 \<Rightarrow> u64 \<Rightarrow> bool" where
  "scope_widens child parent \<longleftrightarrow> parent \<noteq> 0 \<and> (child = 0 \<or> child > parent)"

definition scope_contains :: "anx_cell \<Rightarrow> anx_cell \<Rightarrow> bool" where
  "scope_contains parent child \<longleftrightarrow>
     \<not> (length (child_cids parent) > ANX_MAX_CHILD_CELLS \<or> identity_id parent \<noteq> identity_id child \<or>
        effect_fence_id parent \<noteq> effect_fence_id child \<or> tool_namespace_id parent \<noteq> tool_namespace_id child \<or>
        revision_lease_id parent \<noteq> revision_lease_id child) \<and>
     \<not> (cid child \<notin> set (child_cids parent) \<or> anx_cell_status_terminal (status parent) \<or>
        \<not> allow_recursive_cells (execution parent) \<or>
        recursion_depth parent \<ge> exec_recursion_depth (execution parent) \<or>
        recursion_depth parent \<ge> max_recursion_depth (constraints parent) \<or>
        recursion_depth child \<noteq> recursion_depth parent + 1) \<and>
     \<not> ((allow_network (execution child) \<and> \<not> allow_network (execution parent)) \<or>
        (allow_remote_models (execution child) \<and> \<not> allow_remote_models (execution parent)) \<or>
        (allow_recursive_cells (execution child) \<and> \<not> allow_recursive_cells (execution parent)) \<or>
        (allow_side_effects (execution child) \<and> \<not> allow_side_effects (execution parent))) \<and>
     \<not> (scope_widens (max_latency_ms (constraints child)) (max_latency_ms (constraints parent)) \<or>
        scope_widens (max_memory_admission_bytes (constraints child)) (max_memory_admission_bytes (constraints parent)) \<or>
        scope_widens (ucast (max_cost_usd_cents (constraints child))) (ucast (max_cost_usd_cents (constraints parent))) \<or>
        scope_widens (ucast (max_tokens (cognitive child))) (ucast (max_tokens (cognitive parent))) \<or>
        scope_widens (ucast (max_reasoning_depth (cognitive child))) (ucast (max_reasoning_depth (cognitive parent))) \<or>
        max_child_cells (constraints child) > max_child_cells (constraints parent) \<or>
        max_recursion_depth (constraints child) > max_recursion_depth (constraints parent) \<or>
        exec_recursion_depth (execution child) > exec_recursion_depth (execution parent)) \<and>
     \<not> ((locality (constraints parent) = ANX_LOCAL_ONLY \<or> locality (constraints parent) = ANX_REMOTE_REQUIRED) \<and>
        locality (constraints child) \<noteq> locality (constraints parent))"

lemma scope_depth:
  assumes "scope_contains parent child"
  shows "unat (recursion_depth child) = unat (recursion_depth parent) + 1"
proof -
  have d: "recursion_depth child = recursion_depth parent + 1" and "recursion_depth parent < exec_recursion_depth (execution parent)"
    using assms unfolding scope_contains_def by auto
  then have "unat (recursion_depth parent) + 1 < 4294967296"
    using unat_u32_bound [of "exec_recursion_depth (execution parent)"] unfolding word_less_nat_alt by linarith
  then show ?thesis unfolding d by (simp add: unat_word_ariths)
qed

lemma set_cell_simps [simp]:
  "cell_table (set_cell p f s) = cell_table s" "cells (set_cell p f s) q = (if q = p then f (cells s p) else cells s q)"
  "cell_brk (set_cell p f s) = cell_brk s" "active_cell (set_cell p f s) = active_cell s" "queues (set_cell p f s) = queues s"
  "sched_initialized (set_cell p f s) = sched_initialized s"
  by (simp_all add: set_cell_def)

text \<open>A lookup and a release change nothing but the reference count of one cell.\<close>

lemma scope_refcount [simp]:
  "scope_contains (c\<lparr>refcount := n\<rparr>) d = scope_contains c d" "scope_contains c (d\<lparr>refcount := n\<rparr>) = scope_contains c d"
  unfolding scope_contains_def by simp_all

lemma lookup_cases:
  assumes "anx_cell_store_lookup uid s = (r, t)"
  obtains "find_cell uid s = None" "r = None" "t = s"
  | p where "find_cell uid s = Some p" "r = Some p" "t = set_cell p (\<lambda>c. c\<lparr>refcount := refcount c + 1\<rparr>) s"
  using assms by (cases "find_cell uid s") (auto simp: anx_cell_store_lookup_def)

lemma lookup_depth: "anx_cell_store_lookup uid s = (r, t) \<Longrightarrow> recursion_depth (cells t q) = recursion_depth (cells s q)"
  by (erule lookup_cases) auto

lemma release_depth: "recursion_depth (cells (anx_cell_store_release c s) q) = recursion_depth (cells s q)"
  by (simp add: anx_cell_store_release_def split: option.splits)

text \<open>The loop of \<open>anx_cell_check_scope\<close>. Each ancestor is one level higher, so that it
  ends.\<close>

function scope_loop :: "nat \<Rightarrow> nat \<Rightarrow> 'a cell_env_scheme \<Rightarrow> int \<times> nat \<times> 'a cell_env_scheme" where
  "scope_loop cell current s =
     (if anx_uuid_is_nil (parent_cid (cells s current)) then (ANX_OK, current, s)
      else case anx_cell_store_lookup (parent_cid (cells s current)) s of
             (None, s) \<Rightarrow> (ANX_EPERM, current, s)
           | (Some p, s) \<Rightarrow>
               if \<not> scope_contains (cells s p) (cells s current) then (ANX_EPERM, current, anx_cell_store_release (Some p) s)
               else scope_loop cell p (if current \<noteq> cell then anx_cell_store_release (Some current) s else s))"
  by pat_completeness auto
termination
proof (relation "measure (\<lambda>(cell, current, s). unat (recursion_depth (cells s current)))", goal_cases)
  case (2 cell current s x xa p)
  then have "scope_contains (cells xa p) (cells xa current)" by simp
  then show ?case using lookup_depth [of "parent_cid (cells s current)" s "Some p" xa current] 2 scope_depth [of "cells xa p" "cells xa current"]
    by (auto simp: release_depth)
qed simp

declare scope_loop.simps [simp del]

definition anx_cell_check_scope :: "nat option \<Rightarrow> 'a cell_env_scheme \<Rightarrow> int \<times> 'a cell_env_scheme" where
  "anx_cell_check_scope cell s =
     (case cell of None \<Rightarrow> (ANX_EINVAL, s)
      | Some p \<Rightarrow>
          case scope_loop p p s of (ret, current, s) \<Rightarrow>
            (if ret = ANX_OK \<and> recursion_depth (cells s current) \<noteq> 0 then ANX_EPERM else ret,
             if current \<noteq> p then anx_cell_store_release (Some current) s else s))"

section \<open>Well-formedness\<close>

definition live :: "'a cell_env_scheme \<Rightarrow> nat set" where
  "live s = set (concat (cell_table s))"

definition cell_wf :: "anx_cell \<Rightarrow> bool" where
  "cell_wf c \<longleftrightarrow> length (child_cids c) \<le> ANX_MAX_CHILD_CELLS \<and> length (dep_cids c) \<le> ANX_MAX_CELL_DEPS \<and> distinct (dep_cids c) \<and>
     cid c \<notin> set (dep_cids c) \<and> (topology_bk_set (constraints c) \<longrightarrow> topology_bk_lo (constraints c) \<le> topology_bk_hi (constraints c))"

definition cells_ok :: "'a cell_env_scheme \<Rightarrow> bool" where
  "cells_ok s \<longleftrightarrow> chains_placed CELL_STORE_BITS anx_uuid_hash (\<lambda>p. cid (cells s p)) (cell_table s) \<and>
     inj_on (\<lambda>p. cid (cells s p)) (live s) \<and> (\<forall>p\<in>live s. p < cell_brk s \<and> cell_wf (cells s p))"

text \<open>No reference count is about to wrap around: not with one more reference, or by far.\<close>

definition refs_ok :: "'a cell_env_scheme \<Rightarrow> bool" where
  "refs_ok s \<longleftrightarrow> (\<forall>p\<in>live s. refcount (cells s p) \<noteq> - 1)"

definition refs_low :: "'a cell_env_scheme \<Rightarrow> bool" where
  "refs_low s \<longleftrightarrow> (\<forall>p\<in>live s. refcount (cells s p) < 0x80000000)"

interpretation cell_index: hash_index CELL_STORE_BITS anx_uuid_hash
  by unfold_locales (simp add: CELL_STORE_BITS_def)

lemma set_cell_id: "f (cells s p) = cells s p \<Longrightarrow> set_cell p f s = s"
  by (simp add: set_cell_def)

lemma set_cell_set_cell [simp]: "set_cell p f (set_cell p g s) = set_cell p (\<lambda>c. f (g c)) s"
  by (simp add: set_cell_def)

lemma live_set_cell [simp]: "live (set_cell p f s) = live s"
  by (simp add: live_def)

lemma find_cell_keep: "(\<And>q. cid (cells t q) = cid (cells s q)) \<Longrightarrow> cell_table t = cell_table s \<Longrightarrow> find_cell uid t = find_cell uid s"
  by (simp add: find_cell_def)

lemma find_cell_set_cell [simp]: "(\<And>c. cid (f c) = cid c) \<Longrightarrow> find_cell uid (set_cell p f s) = find_cell uid s"
  by (rule find_cell_keep) auto

lemma find_cell_iff: "cells_ok s \<Longrightarrow> find_cell uid s = Some p \<longleftrightarrow> p \<in> live s \<and> cid (cells s p) = uid"
  unfolding find_cell_def live_def anx_uuid_compare_zero
  by (rule cell_index.find_unique) (simp_all add: cells_ok_def live_def)

lemma find_cell_self: "cells_ok s \<Longrightarrow> p \<in> live s \<Longrightarrow> find_cell (cid (cells s p)) s = Some p"
  by (simp add: find_cell_iff)

lemma release_incr:
  "refcount (cells s p) \<noteq> - 1 \<Longrightarrow> anx_cell_store_release (Some p) (set_cell p (\<lambda>c. c\<lparr>refcount := refcount c + 1\<rparr>) s) = s"
proof -
  assume "refcount (cells s p) \<noteq> - 1"
  then have "refcount (cells s p) + 1 \<noteq> 0" by (metis add.inverse_unique add.commute)
  then show ?thesis by (simp add: anx_cell_store_release_def set_cell_id word_gt_0)
qed

text \<open>A balanced lookup leaves the state alone.\<close>

lemma lookup_release:
  assumes "cells_ok s" "refs_ok s" "anx_cell_store_lookup uid s = (Some p, t)"
  shows "anx_cell_store_release (Some p) t = s" "p \<in> live s" "cid (cells s p) = uid" "find_cell uid s = Some p"
  using assms(3) by (rule lookup_cases; use assms(1,2) in \<open>auto simp: find_cell_iff refs_ok_def intro: release_incr\<close>)+

lemma low_refcount: "(n :: u32) < 0x80000000 \<Longrightarrow> n \<noteq> - 1 \<and> n + 1 \<noteq> - 1"
proof -
  assume "n < 0x80000000"
  then have n: "unat n < 2147483648" by (simp add: word_less_nat_alt)
  have m: "unat (- 1 :: u32) = 4294967295" by (simp add: unsigned_minus_1_eq_mask mask_eq_exp_minus_1)
  have "unat (n + 1) = unat n + 1" using n by (simp add: unat_word_ariths)
  then have "unat n \<noteq> unat (- 1 :: u32)" "unat (n + 1) \<noteq> unat (- 1 :: u32)" unfolding m using n by linarith+
  then show ?thesis by metis
qed

lemma refs_low_ok: "refs_low s \<Longrightarrow> refs_ok s"
  using low_refcount by (auto simp: refs_low_def refs_ok_def)

lemma refs_low_lookup: "refs_low s \<Longrightarrow> anx_cell_store_lookup uid s = (r, t) \<Longrightarrow> refs_ok t"
  by (erule lookup_cases) (use low_refcount in \<open>auto simp: refs_low_def refs_ok_def\<close>)

lemma lookup_none: "anx_cell_store_lookup uid s = (None, t) \<Longrightarrow> t = s \<and> find_cell uid s = None"
  by (erule lookup_cases) auto

lemma lookup_same_cell:
  "anx_cell_store_lookup uid s = (r, t) \<Longrightarrow> (\<exists>n. cells t q = (cells s q)\<lparr>refcount := n\<rparr>)"
  by (erule lookup_cases) (auto intro: exI [of _ "refcount (cells s q)"])

lemma release_same_cell: "\<exists>n. cells (anx_cell_store_release r s) q = (cells s q)\<lparr>refcount := n\<rparr>"
  by (auto simp: anx_cell_store_release_def split: option.splits intro: exI [of _ "refcount (cells s q)"])

subsection \<open>Preservation\<close>

lemma cells_ok_set_cell:
  assumes "cells_ok s" "cid (f (cells s p)) = cid (cells s p)" "cell_wf (cells s p) \<Longrightarrow> cell_wf (f (cells s p))"
  shows "cells_ok (set_cell p f s)"
proof -
  have e: "(\<lambda>q. cid (cells (set_cell p f s) q)) = (\<lambda>q. cid (cells s q))" using assms(2) by (simp add: fun_eq_iff)
  show ?thesis using assms unfolding cells_ok_def e by simp
qed

lemma cell_wf_refcount [simp]: "cell_wf (c\<lparr>refcount := n\<rparr>) = cell_wf c"
  by (simp add: cell_wf_def)

lemma cells_ok_lookup: "cells_ok s \<Longrightarrow> cells_ok (snd (anx_cell_store_lookup uid s))"
  by (simp add: anx_cell_store_lookup_def cells_ok_set_cell split: option.splits)

lemma cells_ok_lookup': "cells_ok s \<Longrightarrow> anx_cell_store_lookup uid s = (r, t) \<Longrightarrow> cells_ok t"
  by (metis cells_ok_lookup snd_conv)

lemma cells_ok_release: "cells_ok s \<Longrightarrow> cells_ok (anx_cell_store_release c s)"
  by (simp add: anx_cell_store_release_def cells_ok_set_cell split: option.splits)

lemma cells_ok_env:
  "cells t = cells s \<Longrightarrow> cell_table t = cell_table s \<Longrightarrow> cell_brk t = cell_brk s \<Longrightarrow> cells_ok t \<longleftrightarrow> cells_ok s"
  by (simp add: cells_ok_def live_def)

text \<open>The operations of the environment leave the rest of the state alone.\<close>

lemma env_more [simp]:
  "kenv.more (snd (anx_alloc s)) = kenv.more s" "kenv.more (snd (arch_time_now s)) = kenv.more s"
  "kenv.more (snd (xorshift64 s)) = kenv.more s" "kenv.more (snd (anx_uuid_generate s)) = kenv.more s"
proof -
  show t: "kenv.more (snd (arch_time_now s)) = kenv.more s" for s :: "'a kenv_scheme" by (simp add: arch_time_now_def)
  show x: "kenv.more (snd (xorshift64 s)) = kenv.more s" for s :: "'a kenv_scheme"
    by (simp add: xorshift64_def arch_time_now_def Let_def)
  obtain ts s1 where 1: "arch_time_now s = (ts, s1)" by fastforce
  obtain r1 s2 where 2: "xorshift64 s1 = (r1, s2)" by fastforce
  obtain r2 s3 where 3: "xorshift64 s2 = (r2, s3)" by fastforce
  show "kenv.more (snd (anx_uuid_generate s)) = kenv.more s"
    using t [of s] x [of s1] x [of s2] 1 2 3 by (simp add: anx_uuid_generate_def Let_def)
qed (simp add: anx_alloc_def)

lemma env_fields:
  "kenv.more t = kenv.more s \<Longrightarrow> cells t = cells s \<and> cell_table t = cell_table s \<and> cell_brk t = cell_brk s \<and>
     active_cell t = active_cell s \<and> queues t = queues s \<and> sched_initialized t = sched_initialized s"
  by (cases s; cases t) simp

lemma cells_ok_add:
  assumes "cells_ok s" "cid c \<notin> (\<lambda>p. cid (cells s p)) ` live s" "cell_wf c" "p = cell_brk s"
    "cells t = (cells s)(p := c)" "cell_brk t = p + 1" "cell_table t = chain_add CELL_STORE_BITS (anx_uuid_hash (cid c)) p (cell_table s)"
  shows "cells_ok t"
proof -
  let ?k = "\<lambda>q. cid (cells t q)"
  have p: "p \<notin> live s" using assms(1,4) unfolding cells_ok_def by auto
  have old: "chains_placed CELL_STORE_BITS anx_uuid_hash ?k (cell_table s)"
    using assms(1) p by (subst chains_placed_cong [where key = "\<lambda>q. cid (cells s q)"]) (auto simp: cells_ok_def live_def assms(5))
  have ck: "cid c = ?k p" by (simp add: assms(5))
  have l: "live t = insert p (live s)" unfolding live_def assms(7) by (rule cell_index.add_set [OF old])
  have "chains_placed CELL_STORE_BITS anx_uuid_hash ?k (cell_table t)"
    unfolding assms(7) ck using p by (intro cell_index.placed_add [OF old]) (simp add: live_def)
  moreover have "inj_on ?k (live t)"
  proof -
    have same: "?k q = cid (cells s q)" if "q \<in> live s" for q using that p by (auto simp: assms(5))
    have "inj_on ?k (live s)" using assms(1) same by (simp add: cells_ok_def cong: inj_on_cong)
    moreover have "?k ` live s = (\<lambda>q. cid (cells s q)) ` live s" using same by (rule image_cong [OF refl])
    ultimately show ?thesis unfolding l inj_on_insert using assms(2) p ck by simp
  qed
  moreover have "q < cell_brk t \<and> cell_wf (cells t q)" if "q \<in> live t" for q
  proof (cases "q = p")
    case False
    then have "q \<in> live s" using that l by simp
    then have "q < p \<and> cell_wf (cells s q)" using assms(1,4) by (simp add: cells_ok_def)
    then show ?thesis using assms(5,6) False by simp
  qed (simp add: assms(3,5,6))
  ultimately show ?thesis by (simp add: cells_ok_def)
qed

lemma new_cell_wf: "cell_wf (new_cell uid ty i now)" "cid (new_cell uid ty i now) = uid"
  by (simp_all add: new_cell_def cell_wf_def zero_cell_def)

text \<open>The next identifier is not in use.\<close>

definition next_cid_fresh :: "'a cell_env_scheme \<Rightarrow> bool" where
  "next_cid_fresh s \<longleftrightarrow> fst (anx_uuid_generate (snd (anx_alloc s))) \<notin> (\<lambda>p. cid (cells s p)) ` live s"

lemma create_cases:
  assumes "anx_cell_create ty i s = (r, c, t)"
  obtains "r = ANX_EINVAL" "i = None" "c = None" "t = s" | "r = ANX_ENOMEM" "c = None" "t = snd (anx_alloc s)"
  | j now e where "r = ANX_OK" "i = Some j" "c = Some (cell_brk s)" "cells t = (cells s)(cell_brk s := new_cell e ty j now)"
      "cell_brk t = cell_brk s + 1" "cell_table t = chain_add CELL_STORE_BITS (anx_uuid_hash e) (cell_brk s) (cell_table s)"
      "e = fst (anx_uuid_generate (snd (anx_alloc s)))" "queues t = queues s" "active_cell t = active_cell s"
proof (cases i)
  case None
  then show ?thesis using assms that(1) by (simp add: anx_cell_create_def)
next
  case (Some j)
  obtain ok s1 where 1: "anx_alloc s = (ok, s1)" by fastforce
  obtain e s2 where 2: "anx_uuid_generate s1 = (e, s2)" by fastforce
  obtain now s3 where 3: "arch_time_now s2 = (now, s3)" by fastforce
  have "kenv.more s3 = kenv.more s"
    using env_more(1) [of s] env_more(4) [of s1] env_more(2) [of s2] 1 2 3 by simp
  note k = env_fields [OF this]
  show ?thesis
  proof (cases ok)
    case False
    then show ?thesis using assms Some 1 that(2) by (simp add: anx_cell_create_def)
  next
    case True
    then show ?thesis using assms Some 1 2 3 k by (intro that(3) [of j e now]) (auto simp: anx_cell_create_def Let_def)
  qed
qed

lemma cells_ok_create: "cells_ok s \<Longrightarrow> next_cid_fresh s \<Longrightarrow> anx_cell_create ty i s = (r, c, t) \<Longrightarrow> cells_ok t"
proof (erule create_cases)
  assume "cells_ok s" "t = snd (anx_alloc s)"
  then show "cells_ok t" using env_fields [OF env_more(1) [of s]] cells_ok_env by metis
next
  fix j now e
  assume "cells_ok s" "next_cid_fresh s" and t: "cells t = (cells s)(cell_brk s := new_cell e ty j now)" "cell_brk t = cell_brk s + 1"
    "cell_table t = chain_add CELL_STORE_BITS (anx_uuid_hash e) (cell_brk s) (cell_table s)" and e: "e = fst (anx_uuid_generate (snd (anx_alloc s)))"
  then show "cells_ok t" by (intro cells_ok_add [OF _ _ new_cell_wf(1) refl t(1,2)]) (simp_all add: next_cid_fresh_def new_cell_wf(2))
qed simp

lemma cancel_fields:
  "cells (snd (anx_sched_cancel uid s)) = cells s" "cell_table (snd (anx_sched_cancel uid s)) = cell_table s" "cell_brk (snd (anx_sched_cancel uid s)) = cell_brk s"
  by (simp_all add: anx_sched_cancel_def)

lemma cell_wf_children: "cell_wf c \<Longrightarrow> cell_wf (c\<lparr>child_cids := remove1 x (child_cids c)\<rparr>)"
  by (auto simp: cell_wf_def length_remove1)

lemma cells_ok_drop_child: "cells_ok s \<Longrightarrow> cells_ok (drop_child p s)"
  using cells_ok_lookup' [of s "parent_cid (cells s p)"]
  by (auto simp: drop_child_def split: prod.splits option.splits intro!: cells_ok_release cells_ok_set_cell cell_wf_children)

lemma cells_ok_remove: "cells_ok s \<Longrightarrow> cells_ok (s\<lparr>cell_table := chain_del p (cell_table s)\<rparr>)"
proof -
  assume ok: "cells_ok s"
  let ?t = "s\<lparr>cell_table := chain_del p (cell_table s)\<rparr>"
  have pl: "chains_placed CELL_STORE_BITS anx_uuid_hash (\<lambda>p. cid (cells s p)) (cell_table s)" using ok by (simp add: cells_ok_def)
  have l: "live ?t = live s - {p}" unfolding live_def using cell_index.del_set [OF pl] by simp
  have "inj_on (\<lambda>p. cid (cells s p)) (live s - {p})" using ok unfolding cells_ok_def by (auto intro: inj_on_subset)
  then show ?thesis using ok cell_index.placed_del [OF pl, of p] unfolding cells_ok_def l by simp
qed

lemma cells_ok_destroy: "cells_ok s \<Longrightarrow> cells_ok (snd (anx_cell_destroy c s))"
proof -
  assume ok: "cells_ok s"
  have "cells_ok (snd (anx_sched_cancel uid (drop_child p s)))" for uid p
    using cells_ok_drop_child [OF ok, of p] cells_ok_env [OF cancel_fields] by blast
  then show ?thesis using ok by (auto simp: anx_cell_destroy_def Let_def split: option.split prod.split intro!: cells_ok_remove) (metis snd_conv)
qed

lemma cells_ok_reap_loop: "cells_ok s \<Longrightarrow> cells_ok (snd (reap_loop uid uids n s))"
proof (induction uids arbitrary: n s)
  case (Cons u us)
  obtain r t where l: "anx_cell_store_lookup u s = (r, t)" by fastforce
  have t: "cells_ok t" using cells_ok_lookup' [OF Cons.prems l] .
  show ?case
  proof (cases r)
    case None
    then show ?thesis using l Cons.IH [OF t] by simp
  next
    case (Some p)
    have d: "cells_ok (anx_cell_store_release (Some p) t)" using t by (rule cells_ok_release)
    obtain q v where "anx_cell_destroy (Some p) (anx_cell_store_release (Some p) t) = (q, v)" by fastforce
    then show ?thesis using l Some Cons.IH [OF d] Cons.IH [of v] cells_ok_destroy [OF d, of "Some p"] by (simp add: Let_def)
  qed
qed simp

lemma cells_ok_transition: "cells_ok s \<Longrightarrow> cells_ok (snd (anx_cell_transition p st s))"
  by (auto simp: anx_cell_transition_def intro!: cells_ok_set_cell) (auto simp: cell_wf_def)

lemma cells_ok_deps_loop: "cells_ok s \<Longrightarrow> cells_ok (snd (deps_loop ds r s))"
proof (induction ds arbitrary: r s)
  case (Cons d ds)
  obtain q t where l: "anx_cell_store_lookup d s = (q, t)" by fastforce
  note t = cells_ok_lookup' [OF Cons.prems l]
  show ?case using l t Cons.IH cells_ok_release [OF t] by (cases q) (simp_all add: Let_def)
qed simp

lemma cells_ok_scope_loop: "cells_ok s \<Longrightarrow> cells_ok (snd (snd (scope_loop cell current s)))"
proof (induction cell current s rule: scope_loop.induct)
  case (1 cell current s)
  obtain q t where l: "anx_cell_store_lookup (parent_cid (cells s current)) s = (q, t)" by fastforce
  note t = cells_ok_lookup' [OF 1(2) l]
  show ?case
  proof (cases q)
    case None
    then show ?thesis using 1(2) l t by (subst scope_loop.simps) simp
  next
    case (Some p)
    then show ?thesis using 1 l t cells_ok_release by (subst scope_loop.simps) (auto split: if_splits)
  qed
qed

lemma cells_ok_scope: "cells_ok s \<Longrightarrow> cells_ok (snd (anx_cell_check_scope c s))"
proof (cases c)
  case (Some p)
  assume ok: "cells_ok s"
  obtain ret cur t where e: "scope_loop p p s = (ret, cur, t)" using prod_cases3 by blast
  then have "cells_ok t" using cells_ok_scope_loop [OF ok, of p p] by simp
  then show ?thesis using Some e cells_ok_release [of t "Some cur"] by (simp add: anx_cell_check_scope_def)
qed (simp add: anx_cell_check_scope_def)

lemma same_ref: "\<exists>n. c = c\<lparr>refcount := n\<rparr>"
  by (rule exI [of _ "refcount c"]) simp

lemma same_ref_trans: "\<exists>n. c = d\<lparr>refcount := n\<rparr> \<Longrightarrow> \<exists>n. d = e\<lparr>refcount := n\<rparr> \<Longrightarrow> \<exists>n. c = e\<lparr>refcount := n\<rparr>"
  by auto

lemma dep_walk_ok:
  assumes "dep_walk target stack s = Some y"
  shows "cells_ok s \<longrightarrow> cells_ok (snd y) \<and> cell_table (snd y) = cell_table s \<and> (\<forall>q. \<exists>n. cells (snd y) q = (cells s q)\<lparr>refcount := n\<rparr>)"
proof (rule dep_walk.raw_induct [where P = "\<lambda>target stack s y. cells_ok s \<longrightarrow> cells_ok (snd y) \<and> cell_table (snd y) = cell_table s \<and>
    (\<forall>q. \<exists>n. cells (snd y) q = (cells s q)\<lparr>refcount := n\<rparr>)", OF _ assms], intro impI, goal_cases)
  case (1 walk target stack s y)
  show ?case
  proof (cases "stack = [] \<or> hd stack = target")
    case True
    then have "snd y = s" using 1(2) by (cases stack) auto
    then show ?thesis using 1(3) by (auto intro: same_ref)
  next
    case False
    then obtain cur st where st: "stack = cur # st" "cur \<noteq> target" by (cases stack) auto
    obtain q u where l: "anx_cell_store_lookup cur s = (q, u)" by fastforce
    note u = cells_ok_lookup' [OF 1(3) l]
    have tab: "cell_table u = cell_table s" using l by (rule lookup_cases) auto
    show ?thesis
    proof (cases q)
      case None
      then show ?thesis using 1 l st lookup_none [of cur s u] by auto
    next
      case (Some p)
      let ?v = "anx_cell_store_release (Some p) u"
      have "walk target (push_deps (dep_cids (cells u p)) st) ?v = Some y" using 1(2) st l Some by simp
      note ih = 1(1) [OF this, THEN mp, OF cells_ok_release [OF u]]
      have "\<exists>n. cells (snd y) x = (cells s x)\<lparr>refcount := n\<rparr>" for x
        using ih same_ref_trans [OF same_ref_trans [OF _ release_same_cell [of "Some p" u x]] lookup_same_cell [OF l, of x]] by blast
      moreover have "cell_table ?v = cell_table s" using tab by (simp add: anx_cell_store_release_def)
      ultimately show ?thesis using ih by simp
    qed
  qed
qed

lemma cell_wf_dep:
  "cell_wf c \<Longrightarrow> length (dep_cids c) < ANX_MAX_CELL_DEPS \<Longrightarrow> d \<notin> set (dep_cids c) \<Longrightarrow> d \<noteq> cid c \<Longrightarrow> cell_wf (c\<lparr>dep_cids := dep_cids c @ [d]\<rparr>)"
  by (auto simp: cell_wf_def)

lemma cycle_check_ok:
  assumes "cells_ok s" "dep_creates_cycle p q s = Some (b, t)"
  shows "cells_ok t" "\<exists>n. cells t x = (cells s x)\<lparr>refcount := n\<rparr>"
proof -
  have "cells_ok t \<and> (\<forall>x. \<exists>n. cells t x = (cells s x)\<lparr>refcount := n\<rparr>)"
    using assms dep_walk_ok [of "cid (cells s p)" "push_deps (dep_cids (cells s q)) []" s "(b, t)"] same_ref
    by (auto simp: dep_creates_cycle_def split: if_splits)
  then show "cells_ok t" "\<exists>n. cells t x = (cells s x)\<lparr>refcount := n\<rparr>" by auto
qed

lemma cells_ok_dependency:
  assumes "cells_ok s" "anx_cell_add_dependency c d s = Some (r, t)"
  shows "cells_ok t"
proof (cases c)
  case None
  then show ?thesis using assms by (simp add: anx_cell_add_dependency_def)
next
  case (Some p)
  let ?bad = "cid (cells s p) = d \<or> length (dep_cids (cells s p)) \<ge> ANX_MAX_CELL_DEPS \<or> d \<in> set (dep_cids (cells s p))"
  obtain q u where l: "anx_cell_store_lookup d s = (q, u)" by fastforce
  note u = cells_ok_lookup' [OF assms(1) l]
  show ?thesis
  proof (cases "?bad \<or> q = None")
    case True
    then show ?thesis using assms Some l u by (auto simp: anx_cell_add_dependency_def split: if_splits)
  next
    case False
    then obtain x where x: "q = Some x" by auto
    then obtain b v where b: "dep_creates_cycle p x u = Some (b, v)"
      using assms(2) Some False l by (auto simp: anx_cell_add_dependency_def split: option.splits)
    note v = cycle_check_ok [OF u b]
    obtain m n where mn: "cells v p = (cells u p)\<lparr>refcount := m\<rparr>" "cells u p = (cells s p)\<lparr>refcount := n\<rparr>"
      using v(2) [of p] lookup_same_cell [OF l, of p] by blast
    have "cells_ok (set_cell p (\<lambda>c. c\<lparr>dep_cids := dep_cids c @ [d]\<rparr>) v)"
      using False mn by (intro cells_ok_set_cell [OF v(1)] cell_wf_dep) auto
    then show ?thesis
      using assms(2) Some False l x b v(1) by (cases b) (auto simp: anx_cell_add_dependency_def cells_ok_release)
  qed
qed

lemma cells_ok_declarations:
  assumes "cells_ok s"
  shows "cells_ok (snd (anx_cell_set_topology c lo hi s))" "cells_ok (anx_cell_clear_topology c s)"
    "cells_ok (snd (anx_cell_set_contract c cc mode s))" "cells_ok (snd (anx_cell_set_cognitive_envelope c tokens depth s))"
  using assms
  by (auto simp: anx_cell_set_topology_def anx_cell_clear_topology_def anx_cell_set_contract_def anx_cell_set_cognitive_envelope_def cell_wf_def
      split: option.split intro!: cells_ok_set_cell)

text \<open>A store with three cells, the second waiting for the first.\<close>

definition ex_cells :: cell_env where
  "ex_cells = \<lparr>clock = \<lambda>n. of_nat (n * 2000000), ticks = 0, heap = \<lambda>n. True, requests = 0, prng_state = 1,
     cell_table = chain_add CELL_STORE_BITS (anx_uuid_hash (UUID 0 3)) 2 (chain_add CELL_STORE_BITS (anx_uuid_hash (UUID 0 2)) 1
       (chain_add CELL_STORE_BITS (anx_uuid_hash (UUID 0 1)) 0 (chain_init CELL_STORE_BITS))),
     cells = (\<lambda>p. zero_cell)(0 := (new_cell (UUID 0 1) ANX_CELL_TASK_EXECUTION \<lparr>intent_name = ''a'', objective = [], intent_priority = 0\<rparr> 7)
           \<lparr>execution := \<lparr>allow_network = True, allow_remote_models = False, allow_recursive_cells = True, allow_side_effects = True, exec_recursion_depth = 4\<rparr>,
             child_cids := [UUID 0 3]\<rparr>,
         1 := (new_cell (UUID 0 2) ANX_CELL_TASK_EXECUTION \<lparr>intent_name = ''b'', objective = [], intent_priority = 0\<rparr> 8)\<lparr>dep_cids := [UUID 0 1]\<rparr>,
         2 := (new_cell (UUID 0 3) ANX_CELL_TASK_RETRIEVAL \<lparr>intent_name = ''c'', objective = [], intent_priority = 0\<rparr> 9)
           \<lparr>parent_cid := UUID 0 1, recursion_depth := 1, status := ANX_CELL_COMPLETED\<rparr>),
     cell_brk = 3, active_cell = None,
     queues = replicate 5 \<lparr>qentries = [], qdepth = 0\<rparr> @ [\<lparr>qentries = [\<lparr>cell_id = UUID 0 3, entry_priority = ANX_PRIO_HIGH, enqueued_at = 5\<rparr>,
       \<lparr>cell_id = UUID 0 2, entry_priority = ANX_PRIO_LOW, enqueued_at = 6\<rparr>], qdepth = 2\<rparr>],
     sched_initialized = True\<rparr>"

lemma placed_insert:
  assumes "chains_placed CELL_STORE_BITS anx_uuid_hash key ls" "set (concat ls) = A" "p \<notin> A" "key p = u"
  shows "chains_placed CELL_STORE_BITS anx_uuid_hash key (chain_add CELL_STORE_BITS (anx_uuid_hash u) p ls)"
    "set (concat (chain_add CELL_STORE_BITS (anx_uuid_hash u) p ls)) = insert p A"
  using cell_index.placed_add [OF assms(1), of p] cell_index.add_set [OF assms(1), of u p] assms(3) unfolding assms(2,4) by (blast, blast)

lemma ex_chains:
  assumes "key 0 = UUID 0 1" "key 1 = UUID 0 2" "key 2 = UUID 0 3"
  shows "chains_placed CELL_STORE_BITS anx_uuid_hash key (cell_table ex_cells)" "set (concat (cell_table ex_cells)) = {2, 1, 0}"
proof -
  have n0: "(0::nat) \<notin> {}" and n1: "(1::nat) \<notin> {0}" and n2: "(2::nat) \<notin> {1, 0}" by simp_all
  note p1 = placed_insert [where key = key, OF cell_index.placed_init(1) cell_index.placed_init(2) n0 assms(1)]
  note p2 = placed_insert [where key = key, OF p1 n1 assms(2)]
  note p3 = placed_insert [where key = key, OF p2 n2 assms(3)]
  have t: "cell_table ex_cells = chain_add CELL_STORE_BITS (anx_uuid_hash (UUID 0 3)) 2 (chain_add CELL_STORE_BITS (anx_uuid_hash (UUID 0 2)) 1
       (chain_add CELL_STORE_BITS (anx_uuid_hash (UUID 0 1)) 0 (chain_init CELL_STORE_BITS)))" by (simp add: ex_cells_def)
  show "chains_placed CELL_STORE_BITS anx_uuid_hash key (cell_table ex_cells)" "set (concat (cell_table ex_cells)) = {2, 1, 0}"
    unfolding t by (fact p3)+
qed

lemma ex_cid: "cid (cells ex_cells 0) = UUID 0 1" "cid (cells ex_cells 1) = UUID 0 2" "cid (cells ex_cells 2) = UUID 0 3"
  by (simp_all add: ex_cells_def new_cell_def)

lemma ex_live: "live ex_cells = {2, 1, 0}"
  using ex_chains(2) [OF ex_cid] by (simp add: live_def)

lemma ex_cells_ok: "cells_ok ex_cells" "refs_low ex_cells"
proof -
  have "cell_wf (cells ex_cells p) \<and> refcount (cells ex_cells p) = 1" if "p \<in> {2, 1, 0}" for p
    using that by (auto simp: ex_cells_def cell_wf_def new_cell_def zero_cell_def ANX_MAX_CHILD_CELLS_def ANX_MAX_CELL_DEPS_def)
  moreover have "inj_on (\<lambda>p. cid (cells ex_cells p)) {2, 1, 0}" using ex_cid by (simp add: inj_on_def)
  moreover have "cell_brk ex_cells = 3" by (simp add: ex_cells_def)
  ultimately show "cells_ok ex_cells" "refs_low ex_cells"
    using ex_chains(1) [OF ex_cid] by (auto simp: cells_ok_def refs_low_def ex_live)
qed

lemma ex_next_cid: "next_cid_fresh ex_cells"
proof -
  have "uu_hi (fst (anx_uuid_generate (snd (anx_alloc ex_cells)))) \<noteq> 0"
    by (simp add: ex_cells_def anx_alloc_def anx_uuid_generate_def arch_time_now_def xorshift64_def Let_def word_eq_iff_unsigned)
  then show ?thesis using ex_cid by (auto simp: next_cid_fresh_def ex_live)
qed

text \<open>C13: The cell registry keeps its types: every node is in the bucket of its identifier and in one
  place, no two live cells share an identifier, addresses are allocated, no cell has more than 32
  children or 16 prerequisites, a prerequisite twice or itself as one, and a declared boundary
  range is ordered. Creation (with a fresh identifier), lookup, release, destruction, reaping,
  status changes, new dependencies, readiness checks, scope checks and the declarations preserve
  this, on every path.\<close>

theorem cell_store_type:
  assumes "cells_ok s"
  shows "(next_cid_fresh s \<longrightarrow> cells_ok (snd (snd (anx_cell_create ty i s)))) \<and>
    cells_ok (snd (anx_cell_store_lookup uid s)) \<and> cells_ok (anx_cell_store_release c s) \<and>
    cells_ok (snd (anx_cell_destroy c s)) \<and> cells_ok (snd (snd (anx_cell_reap_children c s))) \<and>
    cells_ok (snd (anx_cell_transition p st s)) \<and>
    (case anx_cell_add_dependency c uid s of Some (r, t) \<Rightarrow> cells_ok t | None \<Rightarrow> True) \<and>
    cells_ok (snd (anx_cell_deps_satisfied c s)) \<and> cells_ok (snd (anx_cell_check_scope c s)) \<and>
    cells_ok (snd (anx_cell_set_topology c lo hi s)) \<and> cells_ok (anx_cell_clear_topology c s) \<and>
    cells_ok (snd (anx_cell_set_contract c cc mode s)) \<and> cells_ok (snd (anx_cell_set_cognitive_envelope c tokens depth s))"
proof (intro conjI impI)
  show "cells_ok (snd (snd (anx_cell_create ty i s)))" if "next_cid_fresh s"
    using cells_ok_create [OF assms that] by (metis prod.collapse)
  show "cells_ok (snd (snd (anx_cell_reap_children c s)))"
    using assms cells_ok_reap_loop [OF assms] by (auto simp: anx_cell_reap_children_def split: option.split prod.split)
  show "case anx_cell_add_dependency c uid s of Some (r, t) \<Rightarrow> cells_ok t | None \<Rightarrow> True"
    using cells_ok_dependency [OF assms] by (auto split: option.split)
  show "cells_ok (snd (anx_cell_deps_satisfied c s))"
    using assms cells_ok_deps_loop by (auto simp: anx_cell_deps_satisfied_def split: option.split)
qed (use assms in \<open>simp_all add: cells_ok_lookup cells_ok_release cells_ok_destroy cells_ok_transition cells_ok_scope cells_ok_declarations\<close>)

theorem cell_store_type_witness:
  "cells_ok (snd (snd (anx_cell_create ANX_CELL_VM (Some \<lparr>intent_name = [], objective = [], intent_priority = 0\<rparr>) ex_cells))) \<and>
   cells_ok (snd (anx_cell_destroy (Some 2) ex_cells))"
  using cell_store_type [OF ex_cells_ok(1), where c = "Some 2"] ex_next_cid by blast

section \<open>The dependency graph\<close>

text \<open>The prerequisites of an identifier; one that is not registered has none.\<close>

definition preds :: "'a cell_env_scheme \<Rightarrow> anx_uuid \<Rightarrow> anx_uuid list" where
  "preds s x = (case find_cell x s of None \<Rightarrow> [] | Some p \<Rightarrow> dep_cids (cells s p))"

definition dep_edges :: "'a cell_env_scheme \<Rightarrow> (anx_uuid \<times> anx_uuid) set" where
  "dep_edges s = {(cid (cells s p), d) |p d. p \<in> live s \<and> d \<in> set (dep_cids (cells s p))}"

definition total_deps :: "'a cell_env_scheme \<Rightarrow> nat" where
  "total_deps s = (\<Sum>p\<in>live s. length (dep_cids (cells s p)))"

lemma finite_live [simp]: "finite (live s)"
  by (simp add: live_def)

lemma dep_edges_preds: "cells_ok s \<Longrightarrow> (x, y) \<in> dep_edges s \<longleftrightarrow> y \<in> set (preds s x)"
proof (cases "find_cell x s")
  case None
  assume ok: "cells_ok s"
  have "x \<noteq> cid (cells s p)" if "p \<in> live s" for p using find_cell_self [OF ok that] None by auto
  then show ?thesis using None by (auto simp: dep_edges_def preds_def)
next
  case (Some p)
  assume ok: "cells_ok s"
  have "q = p" if "q \<in> live s" "x = cid (cells s q)" for q using find_cell_self [OF ok that(1)] that(2) Some by simp
  then show ?thesis using Some find_cell_iff [OF ok, of x p] by (auto simp: dep_edges_def preds_def)
qed

lemma finite_dep_edges: "finite (dep_edges s)"
proof -
  have "dep_edges s \<subseteq> (\<Union>p\<in>live s. (\<lambda>d. (cid (cells s p), d)) ` set (dep_cids (cells s p)))" by (auto simp: dep_edges_def)
  then show ?thesis by (rule finite_subset) simp
qed

lemma push_deps_fits: "length ds + length st \<le> VISIT_STACK \<Longrightarrow> push_deps ds st = rev ds @ st"
  by (induction ds arbitrary: st) auto

text \<open>What the walk below an identifier can add to the stack.\<close>

definition need :: "'a cell_env_scheme \<Rightarrow> anx_uuid \<Rightarrow> nat" where
  "need s x = (\<Sum>y | (x, y) \<in> (dep_edges s)\<^sup>*. length (preds s y))"

lemma finite_reach: "finite {y. (x, y) \<in> (dep_edges s)\<^sup>*}"
proof -
  have "y \<in> insert x (Range (dep_edges s))" if "(x, y) \<in> (dep_edges s)\<^sup>*" for y
    using that by (cases rule: rtranclE) auto
  then have "{y. (x, y) \<in> (dep_edges s)\<^sup>*} \<subseteq> insert x (Range (dep_edges s))" by blast
  then show ?thesis using finite_dep_edges by (rule finite_subset [OF _ finite.insertI [OF finite_Range]])
qed

lemma need_step:
  assumes "acyclic (dep_edges s)" "(x, y) \<in> dep_edges s"
  shows "length (preds s x) + need s y \<le> need s x"
proof -
  have "x \<notin> {z. (y, z) \<in> (dep_edges s)\<^sup>*}"
    using assms by (auto simp: acyclic_def dest: rtrancl_into_trancl2)
  moreover have "insert x {z. (y, z) \<in> (dep_edges s)\<^sup>*} \<subseteq> {z. (x, z) \<in> (dep_edges s)\<^sup>*}"
    using assms(2) by (auto intro: converse_rtrancl_into_rtrancl)
  ultimately show ?thesis
    unfolding need_def using finite_reach [of y s] sum_mono2 [OF finite_reach [of x s], of "insert x {z. (y, z) \<in> (dep_edges s)\<^sup>*}" "\<lambda>z. length (preds s z)"]
    by simp
qed

lemma need_self: "length (preds s x) \<le> need s x"
  unfolding need_def using finite_reach by (intro member_le_sum) auto

lemma need_total:
  assumes "cells_ok s" shows "need s x \<le> total_deps s"
proof -
  let ?R = "{y. (x, y) \<in> (dep_edges s)\<^sup>*}" and ?c = "\<lambda>p. cid (cells s p)"
  have "(\<Sum>y\<in>?R. length (preds s y)) = (\<Sum>y\<in>?R \<inter> ?c ` live s. length (preds s y))"
  proof (rule sum.mono_neutral_right [OF finite_reach])
    show "\<forall>y\<in>?R - ?R \<inter> ?c ` live s. length (preds s y) = 0"
      using assms by (auto simp: preds_def find_cell_iff split: option.split)
  qed simp
  also have "\<dots> \<le> (\<Sum>y\<in>?c ` live s. length (preds s y))" by (intro sum_mono2) auto
  also have "\<dots> = (\<Sum>p\<in>live s. length (preds s (?c p)))"
    using assms by (intro sum.reindex_cong [of ?c]) (auto simp: cells_ok_def)
  also have "\<dots> = total_deps s" unfolding total_deps_def using assms by (intro sum.cong) (simp_all add: preds_def find_cell_self)
  finally show ?thesis by (simp add: need_def)
qed

lemma dep_walk_step:
  assumes "cells_ok s" "refs_ok s"
  shows "dep_walk target (x # st) s = (if x = target then Some (True, s) else dep_walk target (push_deps (preds s x) st) s)"
proof (cases "x = target")
  case False
  obtain q u where l: "anx_cell_store_lookup x s = (q, u)" by fastforce
  show ?thesis
  proof (cases q)
    case None
    then show ?thesis using False l lookup_none [of x s u] by (subst dep_walk.simps) (simp add: preds_def)
  next
    case (Some p)
    note r = lookup_release [OF assms l [unfolded Some]]
    have "dep_cids (cells u p) = dep_cids (cells s p)" using lookup_same_cell [OF l, of p] by auto
    then show ?thesis using False l Some r by (subst dep_walk.simps) (simp add: preds_def)
  qed
qed (simp add: dep_walk.simps [of target "target # st" s])

lemma dep_walk_node:
  assumes "cells_ok s" "refs_ok s" "acyclic (dep_edges s)"
  shows "length st + need s x \<le> VISIT_STACK \<Longrightarrow>
    dep_walk target (x # st) s = (if (x, target) \<in> (dep_edges s)\<^sup>* then Some (True, s) else dep_walk target st s)"
proof (induction x arbitrary: st rule: wf_induct_rule [OF finite_acyclic_wf_converse [OF finite_dep_edges assms(3)]])
  case (1 x)
  show ?case
  proof (cases "x = target")
    case True
    then show ?thesis by (simp add: dep_walk_step [OF assms(1,2)])
  next
    case False
    have list: "set ys \<subseteq> set (preds s x) \<Longrightarrow> length ys \<le> length (preds s x) \<Longrightarrow>
        dep_walk target (ys @ st) s = (if \<exists>y\<in>set ys. (y, target) \<in> (dep_edges s)\<^sup>* then Some (True, s) else dep_walk target st s)" for ys
    proof (induction ys)
      case (Cons y ys)
      then have e: "(x, y) \<in> dep_edges s" using dep_edges_preds [OF assms(1)] by simp
      have "length (ys @ st) + need s y \<le> VISIT_STACK" using need_step [OF assms(3) e] Cons.prems(2) 1(2) by simp
      then show ?case using 1(1) [of y "ys @ st"] e Cons by simp
    qed simp
    have "length (preds s x) + length st \<le> VISIT_STACK" using need_self [of s x] 1(2) by simp
    then have "dep_walk target (x # st) s = dep_walk target (rev (preds s x) @ st) s"
      using False by (simp add: dep_walk_step [OF assms(1,2)] push_deps_fits)
    moreover have "(\<exists>y\<in>set (preds s x). (y, target) \<in> (dep_edges s)\<^sup>*) \<longleftrightarrow> (x, target) \<in> (dep_edges s)\<^sup>*"
      using False dep_edges_preds [OF assms(1)] by (metis converse_rtranclE converse_rtrancl_into_rtrancl)
    ultimately show ?thesis using list [of "rev (preds s x)"] by simp
  qed
qed

text \<open>On an acyclic graph with at most as many edges as the stack has entries the walk ends and
  decides reachability.\<close>

lemma dep_creates_cycle_exact:
  assumes "cells_ok s" "refs_ok s" "acyclic (dep_edges s)" "total_deps s \<le> VISIT_STACK" "q \<in> live s"
  shows "dep_creates_cycle p q s = Some ((cid (cells s q), cid (cells s p)) \<in> (dep_edges s)\<^sup>*, s)"
proof (cases "cid (cells s q) = cid (cells s p)")
  case False
  have d: "preds s (cid (cells s q)) = dep_cids (cells s q)" using assms(1,5) by (simp add: preds_def find_cell_self)
  have "dep_walk (cid (cells s p)) [cid (cells s q)] s = dep_walk (cid (cells s p)) (push_deps (dep_cids (cells s q)) []) s"
    using False by (simp add: dep_walk_step [OF assms(1,2)] d)
  moreover have "dep_walk (cid (cells s p)) [cid (cells s q)] s =
      (if (cid (cells s q), cid (cells s p)) \<in> (dep_edges s)\<^sup>* then Some (True, s) else dep_walk (cid (cells s p)) [] s)"
    using need_total [OF assms(1), of "cid (cells s q)"] assms(4) by (intro dep_walk_node [OF assms(1-3)]) simp
  moreover have "dep_walk (cid (cells s p)) [] s = Some (False, s)" by (subst dep_walk.simps) simp
  ultimately show ?thesis using False by (auto simp: dep_creates_cycle_def split: if_splits)
qed (simp add: dep_creates_cycle_def)

lemma dep_edges_ref: "(\<And>q. \<exists>n. cells t q = (cells s q)\<lparr>refcount := n\<rparr>) \<Longrightarrow> cell_table t = cell_table s \<Longrightarrow> dep_edges t = dep_edges s \<and> total_deps t = total_deps s"
proof -
  assume a: "\<And>q. \<exists>n. cells t q = (cells s q)\<lparr>refcount := n\<rparr>" "cell_table t = cell_table s"
  have "cid (cells t q) = cid (cells s q) \<and> dep_cids (cells t q) = dep_cids (cells s q)" for q using a(1) [of q] by auto
  moreover have "live t = live s" using a(2) by (simp add: live_def)
  ultimately show ?thesis by (simp add: dep_edges_def total_deps_def)
qed

lemma add_dep_edges:
  assumes "p \<in> live s"
  shows "dep_edges (set_cell p (\<lambda>c. c\<lparr>dep_cids := dep_cids c @ [d]\<rparr>) s) = insert (cid (cells s p), d) (dep_edges s)"
  using assms by (auto simp: dep_edges_def split: if_splits)

lemma set_cell_comm: "p \<noteq> q \<Longrightarrow> set_cell p f (set_cell q g s) = set_cell q g (set_cell p f s)"
  by (simp add: set_cell_def fun_upd_twist)

text \<open>C9: Adding a dependency keeps the graph acyclic and refuses nothing else. On an acyclic graph
  with at most as many edges as the walk has stack entries, \<open>anx_cell_add_dependency\<close> on a
  registered cell returns (the walk ends), it succeeds exactly when the prerequisite is another
  registered cell, not yet listed, with a free slot and not itself waiting for the cell, directly
  or not; then the graph has the one new edge and is acyclic again; otherwise the graph is as
  it was.\<close>

theorem dependency_check_exact:
  assumes "cells_ok s" "refs_low s" "acyclic (dep_edges s)" "total_deps s \<le> VISIT_STACK" "p \<in> live s"
  shows "\<exists>r t. anx_cell_add_dependency (Some p) d s = Some (r, t) \<and> acyclic (dep_edges t) \<and>
    (r = ANX_OK \<longleftrightarrow> d \<in> (\<lambda>q. cid (cells s q)) ` live s \<and> length (dep_cids (cells s p)) < ANX_MAX_CELL_DEPS \<and>
       d \<notin> set (dep_cids (cells s p)) \<and> (d, cid (cells s p)) \<notin> (dep_edges s)\<^sup>*) \<and>
    dep_edges t = (if r = ANX_OK then insert (cid (cells s p), d) (dep_edges s) else dep_edges s)"
proof -
  let ?c = "cells s p"
  let ?bad = "cid ?c = d \<or> length (dep_cids ?c) \<ge> ANX_MAX_CELL_DEPS \<or> d \<in> set (dep_cids ?c)"
  obtain q u where l: "anx_cell_store_lookup d s = (q, u)" by fastforce
  show ?thesis
  proof (cases "?bad \<or> q = None")
    case True
    then have n: "d \<notin> (\<lambda>q. cid (cells s q)) ` live s \<or> ?bad"
      using l lookup_none [of d s u] find_cell_self [OF assms(1)] by auto
    have "anx_cell_add_dependency (Some p) d s =
        Some (if cid ?c = d then ANX_EINVAL else if length (dep_cids ?c) \<ge> ANX_MAX_CELL_DEPS then ANX_ENOMEM else if d \<in> set (dep_cids ?c) then ANX_EINVAL else ANX_ENOENT, s)"
      using True l lookup_none [of d s u] by (auto simp: anx_cell_add_dependency_def)
    then show ?thesis using n assms(3) by (intro exI conjI) (assumption, auto)
  next
    case False
    then obtain x where x: "q = Some x" by auto
    note r = lookup_release [OF assms(1) refs_low_ok [OF assms(2)] l [unfolded x]]
    have u: "u = set_cell x (\<lambda>c. c\<lparr>refcount := refcount c + 1\<rparr>) s" using l x by (auto elim: lookup_cases)
    have "cell_table u = cell_table s" using u by simp
    then have "dep_edges u = dep_edges s \<and> total_deps u = total_deps s" by (rule dep_edges_ref [OF lookup_same_cell [OF l]])
    moreover have "live u = live s" "cid (cells u y) = cid (cells s y)" for y unfolding u by simp_all
    ultimately have e: "dep_edges u = dep_edges s" "total_deps u = total_deps s" "live u = live s" "cid (cells u y) = cid (cells s y)" for y
      by blast+
    have "dep_creates_cycle p x u = Some ((d, cid ?c) \<in> (dep_edges s)\<^sup>*, u)"
      using dep_creates_cycle_exact [of u x p] cells_ok_lookup' [OF assms(1) l] refs_low_lookup [OF assms(2) l] assms(3,4) r(2,3) by (simp add: e)
    then have a: "anx_cell_add_dependency (Some p) d s = Some (if (d, cid ?c) \<in> (dep_edges s)\<^sup>* then (ANX_EINVAL, s)
        else (ANX_OK, anx_cell_store_release (Some x) (set_cell p (\<lambda>c. c\<lparr>dep_cids := dep_cids c @ [d]\<rparr>) u)))"
      using False l x r(1) by (simp add: anx_cell_add_dependency_def)
    show ?thesis
    proof (cases "(d, cid ?c) \<in> (dep_edges s)\<^sup>*")
      case True
      then show ?thesis using a assms(3) by (intro exI conjI) (simp, auto)
    next
      case N: False
      let ?v = "set_cell p (\<lambda>c. c\<lparr>dep_cids := dep_cids c @ [d]\<rparr>) u"
      have "dep_edges (anx_cell_store_release (Some x) ?v) = dep_edges ?v"
        by (rule conjunct1 [OF dep_edges_ref [OF release_same_cell]]) (simp add: anx_cell_store_release_def)
      then have "dep_edges (anx_cell_store_release (Some x) ?v) = insert (cid ?c, d) (dep_edges s)"
        using add_dep_edges [of p u d] assms(5) e by simp
      moreover have "acyclic (insert (cid ?c, d) (dep_edges s))" using N assms(3) by (simp add: acyclic_insert)
      moreover have "d \<in> (\<lambda>q. cid (cells s q)) ` live s" using r(2,3) by blast
      ultimately show ?thesis using a N False by (intro exI conjI) (simp, auto)
    qed
  qed
qed

lemma ex_dep_edges: "dep_edges ex_cells = {(UUID 0 2, UUID 0 1)}" "total_deps ex_cells = 1"
proof -
  have "dep_cids (cells ex_cells 0) = []" "dep_cids (cells ex_cells 1) = [UUID 0 1]" "dep_cids (cells ex_cells 2) = []"
    by (simp_all add: ex_cells_def new_cell_def zero_cell_def)
  then show "dep_edges ex_cells = {(UUID 0 2, UUID 0 1)}" "total_deps ex_cells = 1"
    unfolding dep_edges_def total_deps_def ex_live using ex_cid by (auto intro!: exI [of _ "Suc 0"])
qed

theorem dependency_check_exact_witness:
  "\<exists>r t. anx_cell_add_dependency (Some 2) (UUID 0 2) ex_cells = Some (r, t) \<and> acyclic (dep_edges t)"
proof -
  have "acyclic (dep_edges ex_cells)" unfolding ex_dep_edges by (simp add: acyclic_insert) (simp add: acyclic_def)
  then show ?thesis
    using dependency_check_exact [OF ex_cells_ok, of 2 "UUID 0 2"] ex_dep_edges(2) by (auto simp: ex_live VISIT_STACK_def ANX_MAX_CELL_DEPS_def)
qed

section \<open>The life of a cell\<close>

text \<open>A run of successful status changes of one cell.\<close>

inductive cell_run :: "nat \<Rightarrow> 'a cell_env_scheme \<Rightarrow> anx_cell_status list \<Rightarrow> 'a cell_env_scheme \<Rightarrow> bool" for p where
  run_done: "cell_run p s [] s"
| run_step: "anx_cell_transition p st s = (ANX_OK, t) \<Longrightarrow> cell_run p t sts u \<Longrightarrow> cell_run p s (st # sts) u"

lemma transition_iff:
  "anx_cell_transition p st s = (ANX_OK, t) \<longleftrightarrow>
     st \<in> set (valid_transitions (status (cells s p))) \<and> t = set_cell p (\<lambda>c. c\<lparr>status := st\<rparr>) s"
  by (auto simp: anx_cell_transition_def)

text \<open>The statuses between the given one and completion; \<open>None\<close> where completion is out of
  reach.\<close>

fun remaining :: "anx_cell_status \<Rightarrow> anx_cell_status list option" where
  "remaining ANX_CELL_COMPLETED = Some []"
| "remaining ANX_CELL_COMMITTING = Some [ANX_CELL_COMPLETED]"
| "remaining ANX_CELL_VALIDATING = Some [ANX_CELL_COMMITTING, ANX_CELL_COMPLETED]"
| "remaining ANX_CELL_RUNNING = Some [ANX_CELL_VALIDATING, ANX_CELL_COMMITTING, ANX_CELL_COMPLETED]"
| "remaining ANX_CELL_WAITING = Some [ANX_CELL_RUNNING, ANX_CELL_VALIDATING, ANX_CELL_COMMITTING, ANX_CELL_COMPLETED]"
| "remaining ANX_CELL_QUEUED = Some [ANX_CELL_RUNNING, ANX_CELL_VALIDATING, ANX_CELL_COMMITTING, ANX_CELL_COMPLETED]"
| "remaining ANX_CELL_PLANNED = Some [ANX_CELL_QUEUED, ANX_CELL_RUNNING, ANX_CELL_VALIDATING, ANX_CELL_COMMITTING, ANX_CELL_COMPLETED]"
| "remaining ANX_CELL_PLANNING = Some [ANX_CELL_PLANNED, ANX_CELL_QUEUED, ANX_CELL_RUNNING, ANX_CELL_VALIDATING, ANX_CELL_COMMITTING, ANX_CELL_COMPLETED]"
| "remaining ANX_CELL_ADMITTED = Some [ANX_CELL_PLANNING, ANX_CELL_PLANNED, ANX_CELL_QUEUED, ANX_CELL_RUNNING, ANX_CELL_VALIDATING, ANX_CELL_COMMITTING, ANX_CELL_COMPLETED]"
| "remaining ANX_CELL_CREATED = Some [ANX_CELL_ADMITTED, ANX_CELL_PLANNING, ANX_CELL_PLANNED, ANX_CELL_QUEUED, ANX_CELL_RUNNING, ANX_CELL_VALIDATING, ANX_CELL_COMMITTING, ANX_CELL_COMPLETED]"
| "remaining _ = None"

lemma remaining_step:
  assumes "new \<in> set (valid_transitions old)" "remaining new = Some l" "subseq l sts"
  obtains k where "remaining old = Some k" "subseq k (new # sts)"
  using assms subseq_Cons' [of ANX_CELL_RUNNING _ sts] by (cases old) auto

lemma run_remaining:
  "cell_run p s sts t \<Longrightarrow> status (cells t p) = ANX_CELL_COMPLETED \<Longrightarrow> \<exists>l. remaining (status (cells s p)) = Some l \<and> subseq l sts"
proof (induction rule: cell_run.induct)
  case (run_step st s t sts u)
  then obtain l where l: "remaining (status (cells t p)) = Some l" "subseq l sts" by blast
  moreover have "status (cells t p) = st" "st \<in> set (valid_transitions (status (cells s p)))"
    using run_step.hyps(1) by (auto simp: transition_iff)
  ultimately show ?case by (metis remaining_step)
qed simp

lemma terminal_stuck: "anx_cell_status_terminal st \<Longrightarrow> valid_transitions st = []"
  by (auto simp: anx_cell_status_terminal_def)

lemma run_frame: "cell_run p s sts t \<Longrightarrow> q \<noteq> p \<Longrightarrow> cells t q = cells s q"
  by (induction rule: cell_run.induct) (auto simp: transition_iff)

text \<open>C11: No stage of the pipeline can be skipped, and a verdict is final. If a run of successful status
  changes takes a created cell to completion, then admission, planning, queueing, execution,
  validation and commit are among its steps, in this order; a cell in a terminal status accepts
  no further change; and a run touches no other cell.\<close>

theorem cell_pipeline_order:
  assumes "cell_run p s sts t"
  shows "(status (cells s p) = ANX_CELL_CREATED \<and> status (cells t p) = ANX_CELL_COMPLETED \<longrightarrow>
      subseq [ANX_CELL_ADMITTED, ANX_CELL_PLANNING, ANX_CELL_PLANNED, ANX_CELL_QUEUED, ANX_CELL_RUNNING, ANX_CELL_VALIDATING,
              ANX_CELL_COMMITTING, ANX_CELL_COMPLETED] sts) \<and>
    (anx_cell_status_terminal (status (cells s p)) \<longrightarrow> sts = [] \<and> t = s) \<and>
    (q \<noteq> p \<longrightarrow> cells t q = cells s q)"
  using run_remaining [OF assms] run_frame [OF assms] assms terminal_stuck [of "status (cells s p)"]
  by (auto elim: cell_run.cases simp: transition_iff)

fun status_path :: "anx_cell_status \<Rightarrow> anx_cell_status list \<Rightarrow> bool" where
  "status_path st [] = True"
| "status_path st (st' # sts) = (st' \<in> set (valid_transitions st) \<and> status_path st' sts)"

lemma run_path: "status_path (status (cells s p)) sts \<Longrightarrow> \<exists>t. cell_run p s sts t \<and> status (cells t p) = last (status (cells s p) # sts)"
proof (induction sts arbitrary: s)
  case (Cons st sts)
  let ?t = "set_cell p (\<lambda>c. c\<lparr>status := st\<rparr>) s"
  have "status_path (status (cells ?t p)) sts" using Cons.prems by simp
  from Cons.IH [OF this] obtain u where "cell_run p ?t sts u" "status (cells u p) = last (status (cells ?t p) # sts)" by blast
  then show ?case using Cons.prems run_step [of p st s ?t sts u] by (auto simp: transition_iff)
qed (auto intro: run_done)

theorem cell_pipeline_order_witness:
  "\<exists>t. cell_run 0 ex_cells [ANX_CELL_ADMITTED, ANX_CELL_PLANNING, ANX_CELL_PLANNED, ANX_CELL_QUEUED, ANX_CELL_RUNNING, ANX_CELL_WAITING,
         ANX_CELL_RUNNING, ANX_CELL_VALIDATING, ANX_CELL_COMMITTING, ANX_CELL_COMPLETED] t \<and> cells t 1 = cells ex_cells 1"
proof -
  have "status (cells ex_cells 0) = ANX_CELL_CREATED" by (simp add: ex_cells_def new_cell_def)
  then obtain t where "cell_run 0 ex_cells [ANX_CELL_ADMITTED, ANX_CELL_PLANNING, ANX_CELL_PLANNED, ANX_CELL_QUEUED, ANX_CELL_RUNNING, ANX_CELL_WAITING,
         ANX_CELL_RUNNING, ANX_CELL_VALIDATING, ANX_CELL_COMMITTING, ANX_CELL_COMPLETED] t"
    using run_path [of ex_cells 0 "[ANX_CELL_ADMITTED, ANX_CELL_PLANNING, ANX_CELL_PLANNED, ANX_CELL_QUEUED, ANX_CELL_RUNNING, ANX_CELL_WAITING,
         ANX_CELL_RUNNING, ANX_CELL_VALIDATING, ANX_CELL_COMMITTING, ANX_CELL_COMPLETED]"] by auto
  then show ?thesis using cell_pipeline_order [of 0 ex_cells _ t 1] by auto
qed

section \<open>Destruction\<close>

lemma find_cell_removed:
  assumes "cells_ok s" "p \<in> live s" "t = s\<lparr>cell_table := chain_del p (cell_table s)\<rparr>"
  shows "find_cell uid t = (if uid = cid (cells s p) then None else find_cell uid s)" "live t = live s - {p}"
proof -
  have pl: "chains_placed CELL_STORE_BITS anx_uuid_hash (\<lambda>p. cid (cells s p)) (cell_table s)" using assms(1) by (simp add: cells_ok_def)
  show l: "live t = live s - {p}" unfolding live_def assms(3) using cell_index.del_set [OF pl] by simp
  have ok: "cells_ok t" unfolding assms(3) using assms(1) by (rule cells_ok_remove)
  have c: "cells t = cells s" using assms(3) by simp
  have "find_cell uid t = Some q \<longleftrightarrow> uid \<noteq> cid (cells s p) \<and> find_cell uid s = Some q" for q
    unfolding find_cell_iff [OF ok] find_cell_iff [OF assms(1)] l c using assms(1,2) by (auto simp: cells_ok_def inj_on_def)
  then show "find_cell uid t = (if uid = cid (cells s p) then None else find_cell uid s)" by (metis not_Some_eq)
qed

text \<open>The children a cell has after one of them was dropped.\<close>

lemma drop_child_cells:
  assumes "cells_ok s" "refs_ok s"
  shows "cells (drop_child p s) q =
    (if parent_cid (cells s p) \<noteq> ANX_UUID_NIL \<and> find_cell (parent_cid (cells s p)) s = Some q
     then (cells s q)\<lparr>child_cids := remove1 (cid (cells s p)) (child_cids (cells s q))\<rparr> else cells s q)"
    "cell_table (drop_child p s) = cell_table s" "queues (drop_child p s) = queues s" "sched_initialized (drop_child p s) = sched_initialized s"
proof -
  obtain r t where l: "anx_cell_store_lookup (parent_cid (cells s p)) s = (r, t)" by fastforce
  have "cells (drop_child p s) q =
    (if parent_cid (cells s p) \<noteq> ANX_UUID_NIL \<and> find_cell (parent_cid (cells s p)) s = Some q
     then (cells s q)\<lparr>child_cids := remove1 (cid (cells s p)) (child_cids (cells s q))\<rparr> else cells s q) \<and>
    cell_table (drop_child p s) = cell_table s \<and> queues (drop_child p s) = queues s \<and> sched_initialized (drop_child p s) = sched_initialized s"
  proof (cases r)
    case None
    then show ?thesis using l lookup_none [of "parent_cid (cells s p)" s t] by (simp add: drop_child_def)
  next
    case (Some x)
    note r = lookup_release [OF assms l [unfolded Some]]
    have t: "t = set_cell x (\<lambda>c. c\<lparr>refcount := refcount c + 1\<rparr>) s" using l Some by (auto elim: lookup_cases)
    let ?f = "\<lambda>c. c\<lparr>child_cids := remove1 (cid (cells t p)) (child_cids c)\<rparr>"
    have nz: "refcount (cells s x) + 1 \<noteq> 0" using assms(2) r(2) by (metis add.inverse_unique add.commute refs_ok_def)
    have cid: "cid (cells t p) = cid (cells s p)" using t by simp
    have "anx_cell_store_release (Some x) (set_cell x ?f t) = set_cell x (\<lambda>c. c\<lparr>child_cids := remove1 (cid (cells s p)) (child_cids c)\<rparr>) s"
      using nz unfolding t by (simp add: anx_cell_store_release_def word_gt_0 set_cell_def)
    then show ?thesis using l Some r(4) by (auto simp: drop_child_def)
  qed
  then show "cells (drop_child p s) q =
    (if parent_cid (cells s p) \<noteq> ANX_UUID_NIL \<and> find_cell (parent_cid (cells s p)) s = Some q
     then (cells s q)\<lparr>child_cids := remove1 (cid (cells s p)) (child_cids (cells s q))\<rparr> else cells s q)"
    "cell_table (drop_child p s) = cell_table s" "queues (drop_child p s) = queues s" "sched_initialized (drop_child p s) = sched_initialized s"
    by auto
qed

definition queue_ok :: "sched_queue \<Rightarrow> bool" where
  "queue_ok q \<longleftrightarrow> qdepth q = of_nat (length (qentries q))"

lemma cancel_queue_ok: "queue_ok q \<Longrightarrow> queue_ok (cancel_queue uid q)"
proof -
  assume q: "queue_ok q"
  let ?in = "filter (\<lambda>e. cell_id e = uid) (qentries q)" and ?out = "filter (\<lambda>e. cell_id e \<noteq> uid) (qentries q)"
  have "length ?in + length ?out = length (qentries q)" by (rule sum_length_filter_compl)
  then have "(of_nat (length (qentries q)) :: u32) = of_nat (length ?out) + of_nat (length ?in)" by (metis add.commute of_nat_add)
  then show ?thesis using q by (simp add: queue_ok_def cancel_queue_def)
qed

text \<open>A cell that may not be destroyed yet.\<close>

definition busy :: "anx_cell \<Rightarrow> bool" where
  "busy c \<longleftrightarrow> refcount c > 1 \<or> child_cids c \<noteq> [] \<or> runtime_active c \<or> memory_admission_count c \<noteq> 0"

lemma set_cell_frame: "(set_cell p f s)\<lparr>cells := c\<rparr> = s\<lparr>cells := c\<rparr>"
  by (simp add: set_cell_def)

lemma drop_child_frame: "(drop_child p s)\<lparr>cells := c\<rparr> = s\<lparr>cells := c\<rparr>"
  by (simp add: drop_child_def anx_cell_store_lookup_def anx_cell_store_release_def set_cell_frame split: option.split)

text \<open>C12: Destruction removes a cell from the store and the scheduler, and nothing else. \<open>anx_cell_destroy\<close>
  refuses, without changing anything, a cell with further references, children, an active
  run or admitted memory. Otherwise it succeeds: the identifier is no longer found while every
  other one still is; every run queue keeps exactly the entries of other cells, in their
  order, and its depth still counts them (the queues are not touched before the
  scheduler is initialized); the parent gives up the child slot; every other cell is as it was, so a
  prerequisite list that names the destroyed cell keeps naming it; and no other part of the
  state changes.\<close>

theorem cell_destroy_exact:
  assumes "cells_ok s" "refs_low s" "p \<in> live s"
  shows "let c = cells s p; (r, t) = anx_cell_destroy (Some p) s in
    if busy c then r = ANX_EBUSY \<and> t = s
    else r = ANX_OK \<and> live t = live s - {p} \<and> (\<forall>u. find_cell u t = (if u = cid c then None else find_cell u s)) \<and>
      map qentries (queues t) = (if sched_initialized s then map (\<lambda>q. filter (\<lambda>e. cell_id e \<noteq> cid c) (qentries q)) (queues s)
                                 else map qentries (queues s)) \<and>
      ((\<forall>q\<in>set (queues s). queue_ok q) \<longrightarrow> (\<forall>q\<in>set (queues t). queue_ok q)) \<and>
      (\<forall>q. cells t q = (if parent_cid c \<noteq> ANX_UUID_NIL \<and> find_cell (parent_cid c) s = Some q
                        then (cells s q)\<lparr>child_cids := remove1 (cid c) (child_cids (cells s q))\<rparr> else cells s q)) \<and>
      t = s\<lparr>cells := cells t, cell_table := cell_table t, queues := queues t\<rparr>"
proof (cases "busy (cells s p)")
  case True
  then show ?thesis by (simp add: anx_cell_destroy_def busy_def Let_def)
next
  case False
  let ?c = "cells s p"
  define u where "u = drop_child p s"
  define v where "v = snd (anx_sched_cancel (cid ?c) u)"
  define t where "t = v\<lparr>cell_table := chain_del p (cell_table v)\<rparr>"
  have d: "anx_cell_destroy (Some p) s = (ANX_OK, t)"
    using False by (simp add: anx_cell_destroy_def busy_def Let_def t_def v_def u_def split: prod.split)
  note dc = drop_child_cells [OF assms(1) refs_low_ok [OF assms(2)], of p, folded u_def]
  have cv: "cells v = cells u" "cell_table v = cell_table s" using dc(2) by (simp_all add: v_def cancel_fields)
  have same: "cid (cells v q) = cid (cells s q)" for q unfolding cv dc(1) by simp
  have ok: "cells_ok v" using cells_ok_drop_child [OF assms(1)] cells_ok_env [OF cancel_fields] unfolding v_def u_def by blast
  have "p \<in> live v" using assms(3) cv(2) by (simp add: live_def)
  note f = find_cell_removed(1) [OF ok this t_def] and live = find_cell_removed(2) [OF ok this t_def]
  have "find_cell x v = find_cell x s" for x using same cv(2) by (rule find_cell_keep)
  then have find: "find_cell x t = (if x = cid ?c then None else find_cell x s)" for x using f same by simp
  have q: "queues t = (if sched_initialized s then map (cancel_queue (cid ?c)) (queues s) else queues s)"
    using dc(3,4) by (simp add: t_def v_def anx_sched_cancel_def)
  have ct: "cells t = cells u" using cv(1) by (simp add: t_def)
  have frame: "t = s\<lparr>cells := cells t, cell_table := cell_table t, queues := queues t\<rparr>"
    using drop_child_frame [of "cells t" p s] by (auto simp: t_def v_def u_def anx_sched_cancel_def)
  show ?thesis
    unfolding d Let_def prod.case if_not_P [OF False]
  proof (intro conjI allI impI)
    show "live t = live s - {p}" using live cv(2) by (simp add: live_def)
    show "map qentries (queues t) = (if sched_initialized s then map (\<lambda>q. filter (\<lambda>e. cell_id e \<noteq> cid ?c) (qentries q)) (queues s)
        else map qentries (queues s))"
      by (simp add: q cancel_queue_def)
    show "\<forall>q\<in>set (queues t). queue_ok q" if "\<forall>q\<in>set (queues s). queue_ok q" using that cancel_queue_ok by (auto simp: q)
    show "cells t x = (if parent_cid ?c \<noteq> ANX_UUID_NIL \<and> find_cell (parent_cid ?c) s = Some x
      then (cells s x)\<lparr>child_cids := remove1 (cid ?c) (child_cids (cells s x))\<rparr> else cells s x)" for x
      unfolding ct by (rule dc(1))
  qed (rule refl, rule find, rule frame)
qed

theorem cell_destroy_exact_witness:
  "fst (anx_cell_destroy (Some 2) ex_cells) = ANX_OK \<and> find_cell (UUID 0 3) (snd (anx_cell_destroy (Some 2) ex_cells)) = None \<and>
   map qentries (queues (snd (anx_cell_destroy (Some 2) ex_cells))) =
     [[], [], [], [], [], [\<lparr>cell_id = UUID 0 2, entry_priority = ANX_PRIO_LOW, enqueued_at = 6\<rparr>]] \<and>
   fst (anx_cell_destroy (Some 0) ex_cells) = ANX_EBUSY"
proof -
  have five: "replicate 5 x = [x, x, x, x, x]" for x :: sched_queue by (simp add: numeral_eq_Suc)
  have "\<not> busy (cells ex_cells 2)" "busy (cells ex_cells 0)" by (simp_all add: busy_def ex_cells_def new_cell_def zero_cell_def)
  moreover have "sched_initialized ex_cells" "map (\<lambda>q. filter (\<lambda>e. cell_id e \<noteq> UUID 0 3) (qentries q)) (queues ex_cells) =
      [[], [], [], [], [], [\<lparr>cell_id = UUID 0 2, entry_priority = ANX_PRIO_LOW, enqueued_at = 6\<rparr>]]"
    by (simp_all add: ex_cells_def five)
  ultimately show ?thesis
    using cell_destroy_exact [OF ex_cells_ok, of 2] cell_destroy_exact [OF ex_cells_ok, of 0] ex_cid
    by (auto simp: ex_live Let_def split: prod.splits)
qed

section \<open>Delegation\<close>

text \<open>A numeric bound is kept when the ancestor has none or the descendant has one at most as
  large.\<close>

definition bounded_by :: "u64 \<Rightarrow> u64 \<Rightarrow> bool" where
  "bounded_by c a \<longleftrightarrow> a = 0 \<or> (c \<noteq> 0 \<and> c \<le> a)"

definition scope_within :: "anx_cell \<Rightarrow> anx_cell \<Rightarrow> bool" where
  "scope_within c a \<longleftrightarrow>
     identity_id c = identity_id a \<and> effect_fence_id c = effect_fence_id a \<and> tool_namespace_id c = tool_namespace_id a \<and>
     revision_lease_id c = revision_lease_id a \<and>
     (allow_network (execution c) \<longrightarrow> allow_network (execution a)) \<and> (allow_remote_models (execution c) \<longrightarrow> allow_remote_models (execution a)) \<and>
     (allow_recursive_cells (execution c) \<longrightarrow> allow_recursive_cells (execution a)) \<and> (allow_side_effects (execution c) \<longrightarrow> allow_side_effects (execution a)) \<and>
     bounded_by (max_latency_ms (constraints c)) (max_latency_ms (constraints a)) \<and>
     bounded_by (max_memory_admission_bytes (constraints c)) (max_memory_admission_bytes (constraints a)) \<and>
     bounded_by (ucast (max_cost_usd_cents (constraints c))) (ucast (max_cost_usd_cents (constraints a))) \<and>
     bounded_by (ucast (max_tokens (cognitive c))) (ucast (max_tokens (cognitive a))) \<and>
     bounded_by (ucast (max_reasoning_depth (cognitive c))) (ucast (max_reasoning_depth (cognitive a))) \<and>
     max_child_cells (constraints c) \<le> max_child_cells (constraints a) \<and> max_recursion_depth (constraints c) \<le> max_recursion_depth (constraints a) \<and>
     exec_recursion_depth (execution c) \<le> exec_recursion_depth (execution a) \<and>
     (locality (constraints a) = ANX_LOCAL_ONLY \<or> locality (constraints a) = ANX_REMOTE_REQUIRED \<longrightarrow> locality (constraints c) = locality (constraints a))"

lemma bounded_by_iff: "bounded_by c a \<longleftrightarrow> \<not> scope_widens c a"
  by (auto simp: bounded_by_def scope_widens_def)

lemma bounded_by_trans: "bounded_by c b \<Longrightarrow> bounded_by b a \<Longrightarrow> bounded_by c a"
  by (auto simp: bounded_by_def)

lemma scope_contains_within: "scope_contains a c \<Longrightarrow> scope_within c a"
  unfolding scope_contains_def scope_within_def bounded_by_iff by auto

lemma scope_within_refl: "scope_within c c"
  by (auto simp: scope_within_def bounded_by_def)

lemma scope_within_trans: "scope_within c b \<Longrightarrow> scope_within b a \<Longrightarrow> scope_within c a"
  unfolding scope_within_def
  by (elim conjE, intro conjI; (erule (1) bounded_by_trans | erule (1) order_trans | erule (1) trans | blast | force))

lemma scope_within_refcount [simp]:
  "scope_within (c\<lparr>refcount := n\<rparr>) d = scope_within c d" "scope_within c (d\<lparr>refcount := n\<rparr>) = scope_within c d"
  unfolding scope_within_def by simp_all

text \<open>The cells above a cell.\<close>

inductive ancestor :: "'a cell_env_scheme \<Rightarrow> nat \<Rightarrow> nat \<Rightarrow> bool" for s where
  parent: "parent_cid (cells s p) \<noteq> ANX_UUID_NIL \<Longrightarrow> find_cell (parent_cid (cells s p)) s = Some q \<Longrightarrow> ancestor s p q"
| above: "parent_cid (cells s p) \<noteq> ANX_UUID_NIL \<Longrightarrow> find_cell (parent_cid (cells s p)) s = Some q \<Longrightarrow> ancestor s q r \<Longrightarrow> ancestor s p r"

inductive_cases ancestorE: "ancestor s p q"

text \<open>The loop holds one extra reference on the cell it has reached, if that is not the first.\<close>

definition holding :: "nat \<Rightarrow> nat \<Rightarrow> 'a cell_env_scheme \<Rightarrow> 'a cell_env_scheme" where
  "holding cell current s = (if current = cell then s else set_cell current (\<lambda>c. c\<lparr>refcount := refcount c + 1\<rparr>) s)"

lemma holding_cell: "\<exists>n. cells (holding a b s) q = (cells s q)\<lparr>refcount := n\<rparr>"
  using same_ref by (auto simp: holding_def)

lemma find_cell_holding [simp]: "find_cell u (holding a b s) = find_cell u s"
  by (simp add: holding_def)

lemma release_incr2:
  "refcount (cells s p) \<noteq> - 1 \<Longrightarrow> p \<noteq> q \<Longrightarrow>
     anx_cell_store_release (Some p) (set_cell q g (set_cell p (\<lambda>c. c\<lparr>refcount := refcount c + 1\<rparr>) s)) = set_cell q g s"
  using release_incr [of "set_cell q g s" p] by (simp add: set_cell_comm)

lemma holding_refs: "refs_low s \<Longrightarrow> q \<in> live s \<Longrightarrow> refcount (cells (holding a b s) q) \<noteq> - 1"
  using low_refcount by (auto simp: holding_def refs_low_def)

lemma holding_scope: "scope_contains (cells (holding a b s) p) (cells (holding a b s) q) = scope_contains (cells s p) (cells s q)"
  by (simp add: holding_def)

text \<open>One turn of the loop, seen from the state without the extra references.\<close>

lemma scope_loop_step:
  assumes "cells_ok s" "refs_low s" "cur = cell \<or> unat (recursion_depth (cells s cur)) < unat (recursion_depth (cells s cell))" "cur \<in> live s"
  shows "scope_loop cell cur (holding cell cur s) =
    (if parent_cid (cells s cur) = ANX_UUID_NIL then (ANX_OK, cur, holding cell cur s)
     else case find_cell (parent_cid (cells s cur)) s of
            None \<Rightarrow> (ANX_EPERM, cur, holding cell cur s)
          | Some p \<Rightarrow> if \<not> scope_contains (cells s p) (cells s cur) then (ANX_EPERM, cur, holding cell cur s)
                     else scope_loop cell p (holding cell p s))"
proof -
  let ?h = "holding cell cur s"
  have pc: "parent_cid (cells ?h cur) = parent_cid (cells s cur)" by (simp add: holding_def)
  show ?thesis
  proof (cases "find_cell (parent_cid (cells s cur)) s")
    case None
    then show ?thesis by (subst scope_loop.simps) (simp add: pc anx_cell_store_lookup_def)
  next
    case (Some p)
    let ?t = "set_cell p (\<lambda>c. c\<lparr>refcount := refcount c + 1\<rparr>) ?h"
    have p: "p \<in> live s" using Some find_cell_iff [OF assms(1)] by blast
    have l: "anx_cell_store_lookup (parent_cid (cells ?h cur)) ?h = (Some p, ?t)" using Some by (simp add: anx_cell_store_lookup_def pc)
    have sc: "scope_contains (cells ?t p) (cells ?t cur) = scope_contains (cells s p) (cells s cur)" by (simp add: holding_scope)
    have undo: "anx_cell_store_release (Some p) ?t = ?h" by (rule release_incr [OF holding_refs [OF assms(2) p]])
    have go: "(if cur \<noteq> cell then anx_cell_store_release (Some cur) ?t else ?t) = holding cell p s" if c: "scope_contains (cells s p) (cells s cur)"
    proof -
      have ne: "p \<noteq> cur" "p \<noteq> cell" using scope_depth [OF c] assms(3) by auto
      have "refcount (cells s cur) \<noteq> - 1" using assms(2,4) low_refcount by (auto simp: refs_low_def)
      then show ?thesis using ne release_incr2 [of s cur p] by (simp add: holding_def)
    qed
    have "scope_loop cell cur ?h =
      (if parent_cid (cells s cur) = ANX_UUID_NIL then (ANX_OK, cur, ?h)
       else if \<not> scope_contains (cells ?t p) (cells ?t cur) then (ANX_EPERM, cur, anx_cell_store_release (Some p) ?t)
       else scope_loop cell p (if cur \<noteq> cell then anx_cell_store_release (Some cur) ?t else ?t))"
      by (subst scope_loop.simps) (simp only: pc l [unfolded pc] prod.case option.case anx_uuid_is_nil)
    then have u: "scope_loop cell cur ?h =
      (if parent_cid (cells s cur) = ANX_UUID_NIL then (ANX_OK, cur, ?h)
       else if \<not> scope_contains (cells s p) (cells s cur) then (ANX_EPERM, cur, ?h)
       else scope_loop cell p (if cur \<noteq> cell then anx_cell_store_release (Some cur) ?t else ?t))"
      by (simp only: sc undo)
    have "scope_loop cell cur ?h =
      (if parent_cid (cells s cur) = ANX_UUID_NIL then (ANX_OK, cur, ?h)
       else if \<not> scope_contains (cells s p) (cells s cur) then (ANX_EPERM, cur, ?h) else scope_loop cell p (holding cell p s))"
    proof (cases "scope_contains (cells s p) (cells s cur)")
      case True
      show ?thesis by (rule u [unfolded go [OF True]])
    next
      case False
      then show ?thesis using u by (simp only: not_False_eq_True if_True)
    qed
    then show ?thesis by (simp only: Some option.case)
  qed
qed

lemma scope_loop_spec:
  assumes "cells_ok s" "refs_low s"
  shows "cur \<in> live s \<Longrightarrow> cur = cell \<or> unat (recursion_depth (cells s cur)) < unat (recursion_depth (cells s cell)) \<Longrightarrow>
    scope_loop cell cur (holding cell cur s) = (ret, root, t) \<Longrightarrow>
    t = holding cell root s \<and> root \<in> live s \<and> (ret = ANX_OK \<longrightarrow> parent_cid (cells s root) = ANX_UUID_NIL \<and>
      (\<forall>q. ancestor s cur q \<longrightarrow> scope_within (cells s cur) (cells s q) \<and> \<not> anx_cell_status_terminal (status (cells s q)) \<and>
         allow_recursive_cells (execution (cells s q))))"
proof (induction "unat (recursion_depth (cells s cur))" arbitrary: cur rule: less_induct)
  case less
  note step = scope_loop_step [OF assms less.prems(2,1)]
  show ?case
  proof (cases "parent_cid (cells s cur) = ANX_UUID_NIL")
    case True
    then have "\<not> ancestor s cur q" for q by (auto elim: ancestorE)
    then show ?thesis using step True less.prems by auto
  next
    case False
    show ?thesis
    proof (cases "find_cell (parent_cid (cells s cur)) s")
      case None
      then show ?thesis using step False less.prems by auto
    next
      case (Some p)
      show ?thesis
      proof (cases "scope_contains (cells s p) (cells s cur)")
        case C: False
        then show ?thesis using step False Some less.prems by auto
      next
        case C: True
        have d: "unat (recursion_depth (cells s p)) < unat (recursion_depth (cells s cur))" using scope_depth [OF C] by simp
        have p: "p \<in> live s" using Some find_cell_iff [OF assms(1)] by blast
        have d': "p = cell \<or> unat (recursion_depth (cells s p)) < unat (recursion_depth (cells s cell))" using d less.prems(2) by auto
        have "scope_loop cell p (holding cell p s) = (ret, root, t)" using step False Some C less.prems by simp
        then have ih: "t = holding cell root s \<and> root \<in> live s \<and> (ret = ANX_OK \<longrightarrow> parent_cid (cells s root) = ANX_UUID_NIL \<and>
          (\<forall>q. ancestor s p q \<longrightarrow> scope_within (cells s p) (cells s q) \<and> \<not> anx_cell_status_terminal (status (cells s q)) \<and>
            allow_recursive_cells (execution (cells s q))))"
          by (rule less.hyps [OF d p d'])
        have w: "scope_within (cells s cur) (cells s p)" by (rule scope_contains_within [OF C])
        have t: "\<not> anx_cell_status_terminal (status (cells s p)) \<and> allow_recursive_cells (execution (cells s p))"
          using C unfolding scope_contains_def by blast
        have anc: "ancestor s cur q \<Longrightarrow> q = p \<or> ancestor s p q" for q using Some by (auto elim: ancestorE)
        have "scope_within (cells s cur) (cells s q) \<and> \<not> anx_cell_status_terminal (status (cells s q)) \<and> allow_recursive_cells (execution (cells s q))"
          if "ancestor s cur q" "ret = ANX_OK" for q
        proof (cases "q = p")
          case True
          then show ?thesis using w t by simp
        next
          case False
          then have "ancestor s p q" using anc that(1) by blast
          then show ?thesis using ih that(2) scope_within_trans [OF w] by blast
        qed
        then show ?thesis using ih by blast
      qed
    qed
  qed
qed

text \<open>C10: Authority only shrinks on the way down. When \<open>anx_cell_check_scope\<close> accepts a cell, every ancestor
  is still running under a recursion permission, and the cell has no permission, budget, depth
  or locality that any of them, up to the root, does not have, and the same identity, effect
  fence, tool namespace and revision lease. The check ends, whatever the parent links are,
  and leaves the store as it found it.\<close>

theorem scope_attenuates:
  assumes "cells_ok s" "refs_low s" "p \<in> live s" "anx_cell_check_scope (Some p) s = (r, t)"
  shows "t = s \<and> (r = ANX_OK \<longrightarrow> (\<forall>q. ancestor s p q \<longrightarrow>
      scope_within (cells s p) (cells s q) \<and> \<not> anx_cell_status_terminal (status (cells s q)) \<and> allow_recursive_cells (execution (cells s q))))"
proof -
  obtain ret root u where l: "scope_loop p p s = (ret, root, u)" using prod_cases3 by blast
  have h: "holding p p s = s" by (simp add: holding_def)
  note spec = scope_loop_spec [OF assms(1,2,3), of p ret root u, unfolded h, OF _ l]
  have "anx_cell_store_release (Some root) (set_cell root (\<lambda>c. c\<lparr>refcount := refcount c + 1\<rparr>) s) = s"
    using spec assms(2) low_refcount by (intro release_incr) (auto simp: refs_low_def)
  then have "t = s" using assms(4) l spec by (auto simp: anx_cell_check_scope_def holding_def split: if_splits)
  moreover have "r = ANX_OK \<Longrightarrow> ret = ANX_OK" using assms(4) l by (auto simp: anx_cell_check_scope_def split: if_splits)
  ultimately show ?thesis using spec by blast
qed

lemma ex_scope:
  "scope_contains (cells ex_cells 0) (cells ex_cells 2)" "find_cell (parent_cid (cells ex_cells 2)) ex_cells = Some 0"
  "parent_cid (cells ex_cells 0) = ANX_UUID_NIL" "parent_cid (cells ex_cells 2) \<noteq> ANX_UUID_NIL"
proof -
  have p: "parent_cid (cells ex_cells 2) = UUID 0 1" by (simp add: ex_cells_def)
  show "parent_cid (cells ex_cells 0) = ANX_UUID_NIL" "parent_cid (cells ex_cells 2) \<noteq> ANX_UUID_NIL"
    by (simp_all add: ex_cells_def new_cell_def zero_cell_def ANX_UUID_NIL_def)
  show "find_cell (parent_cid (cells ex_cells 2)) ex_cells = Some 0"
    unfolding p using find_cell_self [OF ex_cells_ok(1), of 0] ex_cid(1) by (simp add: ex_live)
  show "scope_contains (cells ex_cells 0) (cells ex_cells 2)"
    unfolding scope_contains_def by (simp add: ex_cells_def new_cell_def zero_cell_def scope_widens_def ANX_MAX_CHILD_CELLS_def anx_cell_status_terminal_def)
qed

lemma ex_scope_accepted: "fst (anx_cell_check_scope (Some 2) ex_cells) = ANX_OK"
proof -
  have d: "unat (recursion_depth (cells ex_cells 0)) < unat (recursion_depth (cells ex_cells 2))"
    using scope_depth [OF ex_scope(1)] by simp
  have "scope_loop 2 2 ex_cells = (ANX_OK, 0, holding 2 0 ex_cells)"
    using scope_loop_step [OF ex_cells_ok, of 2 2] scope_loop_step [OF ex_cells_ok, of 0 2] d ex_scope
    by (simp add: ex_live holding_def)
  moreover have "recursion_depth (cells ex_cells 0) = 0" by (simp add: ex_cells_def new_cell_def zero_cell_def)
  ultimately show ?thesis by (simp add: anx_cell_check_scope_def holding_def)
qed

theorem scope_attenuates_witness:
  "fst (anx_cell_check_scope (Some 2) ex_cells) = ANX_OK \<and> snd (anx_cell_check_scope (Some 2) ex_cells) = ex_cells \<and>
   ancestor ex_cells 2 0 \<and> scope_within (cells ex_cells 2) (cells ex_cells 0)"
proof -
  have anc: "ancestor ex_cells 2 0" using ex_scope by (simp add: ancestor.intros)
  have "2 \<in> live ex_cells" "anx_cell_check_scope (Some 2) ex_cells = (ANX_OK, snd (anx_cell_check_scope (Some 2) ex_cells))"
    using ex_scope_accepted by (simp_all add: ex_live prod_eq_iff)
  from scope_attenuates [OF ex_cells_ok this] show ?thesis using anc ex_scope_accepted by blast
qed

end
