(* ===== verification/Fence.thy ===== *)
theory Fence
  imports Cells
begin

text \<open>
  Effect fences (\<^verbatim>\<open>kernel/core/cap/effect_fence.c\<close>) and the registry of sinks (\<^verbatim>\<open>kernel/core/cap/sink.c\<close>). A fence is the
  run-wide record of a tree of cells: its state, the highest sensitivity the run has read, its
  budget of children and its deadline. The table of fences is the list of its used slots; a
  sink is addressed by its slot, and \<open>None\<close> is the NULL sink. The lemmas show that a fence
  only moves towards more restriction: a closed fence stays closed, its epoch changes exactly
  when it closes, and the read label never decreases.
\<close>

subsection \<open>Sensitivity\<close>

datatype anx_sensitivity = ANX_SENSITIVITY_PUBLIC | ANX_SENSITIVITY_INTERNAL | ANX_SENSITIVITY_CONFIDENTIAL | ANX_SENSITIVITY_RESTRICTED

primrec sensitivity_rank :: "anx_sensitivity \<Rightarrow> nat" where
  "sensitivity_rank ANX_SENSITIVITY_PUBLIC = 0"
| "sensitivity_rank ANX_SENSITIVITY_INTERNAL = 1"
| "sensitivity_rank ANX_SENSITIVITY_CONFIDENTIAL = 2"
| "sensitivity_rank ANX_SENSITIVITY_RESTRICTED = 3"

lemma sensitivity_rank_inj: "sensitivity_rank a = sensitivity_rank b \<longleftrightarrow> a = b"
  by (cases a; cases b) simp_all

text \<open>The enumeration is compared as its values are.\<close>

instantiation anx_sensitivity :: linorder
begin

definition less_eq_anx_sensitivity :: "anx_sensitivity \<Rightarrow> anx_sensitivity \<Rightarrow> bool" where
  "less_eq_anx_sensitivity a b \<longleftrightarrow> sensitivity_rank a \<le> sensitivity_rank b"

definition less_anx_sensitivity :: "anx_sensitivity \<Rightarrow> anx_sensitivity \<Rightarrow> bool" where
  "less_anx_sensitivity a b \<longleftrightarrow> sensitivity_rank a < sensitivity_rank b"

instance
  by standard (auto simp: less_eq_anx_sensitivity_def less_anx_sensitivity_def sensitivity_rank_inj)

end

lemma public_least [simp]: "ANX_SENSITIVITY_PUBLIC \<le> a" "a \<le> ANX_SENSITIVITY_PUBLIC \<longleftrightarrow> a = ANX_SENSITIVITY_PUBLIC"
  by (cases a; simp add: less_eq_anx_sensitivity_def)+

subsection \<open>Fences and sinks\<close>

datatype anx_effect_fence_state = ANX_FENCE_RUNNING | ANX_FENCE_HELD | ANX_FENCE_REJECTED | ANX_FENCE_CANCELLED | ANX_FENCE_TIMED_OUT

record anx_effect_fence_view =
  fence_no :: anx_uuid
  epoch :: u64
  generation :: u64
  fence_state :: anx_effect_fence_state
  read_sensitivity :: anx_sensitivity
  read_origin :: anx_uuid
  read_count :: u64
  child_limit :: u32
  child_creations :: u64
  expires_at :: u64

record anx_sink =
  sink_name :: string
  max_sensitivity :: anx_sensitivity

definition ANX_EFFECT_FENCE_MAX :: nat where "ANX_EFFECT_FENCE_MAX = 256"
definition ANX_EXECUTION_CHILDREN_MAX :: u32 where "ANX_EXECUTION_CHILDREN_MAX = 1024"
definition ANX_SINK_MAX :: nat where "ANX_SINK_MAX = 16"

text \<open>The two static tables of the sink registry as one: a slot is \<open>None\<close> while it is not
  active.\<close>

record fence_env = cell_env +
  fences :: "anx_effect_fence_view list"
  sinks :: "anx_sink option list"
  sinks_initialized :: bool

definition find_fence :: "anx_uuid \<Rightarrow> 'a fence_env_scheme \<Rightarrow> nat option" where
  "find_fence uid s = find (\<lambda>i. anx_uuid_compare (fence_no (fences s ! i)) uid = 0) [0..<length (fences s)]"

definition set_fence :: "nat \<Rightarrow> anx_effect_fence_view \<Rightarrow> 'a fence_env_scheme \<Rightarrow> 'a fence_env_scheme" where
  "set_fence i v s = s\<lparr>fences := (fences s)[i := v]\<rparr>"

subsection \<open>States\<close>

definition closed :: "anx_effect_fence_state \<Rightarrow> bool" where
  "closed st \<longleftrightarrow> st = ANX_FENCE_REJECTED \<or> st = ANX_FENCE_CANCELLED \<or> st = ANX_FENCE_TIMED_OUT"

definition change_state :: "anx_effect_fence_view \<Rightarrow> anx_effect_fence_state \<Rightarrow> int \<times> anx_effect_fence_view" where
  "change_state fence st =
     (if closed (fence_state fence) then (ANX_EPERM, fence)
      else if st = fence_state fence \<or> (st = ANX_FENCE_RUNNING \<and> fence_state fence \<noteq> ANX_FENCE_HELD) \<or>
        (st = ANX_FENCE_REJECTED \<and> fence_state fence \<noteq> ANX_FENCE_HELD) then (ANX_EINVAL, fence)
      else if generation fence = - 1 \<and> \<not> closed st then (ANX_EFULL, fence)
      else (ANX_OK, fence\<lparr>fence_state := st,
             generation := (if generation fence \<noteq> - 1 then generation fence + 1 else generation fence),
             epoch := (if closed st then epoch fence + 1 else epoch fence)\<rparr>))"

definition state_check :: "nat option \<Rightarrow> 'a fence_env_scheme \<Rightarrow> int \<times> 'a fence_env_scheme" where
  "state_check fence s =
     (case fence of None \<Rightarrow> (ANX_ENOENT, s)
      | Some i \<Rightarrow>
          let v = fences s ! i;
              s = (if \<not> closed (fence_state v) \<and> expires_at v \<noteq> 0
                   then case arch_time_now s of (now, s) \<Rightarrow>
                          if now \<ge> expires_at v then set_fence i (snd (change_state v ANX_FENCE_TIMED_OUT)) s else s
                   else s);
              st = fence_state (fences s ! i)
          in (if st = ANX_FENCE_HELD then ANX_EBUSY else if closed st then ANX_EPERM else ANX_OK, s))"

subsection \<open>Control\<close>

definition anx_effect_fence_create :: "'a fence_env_scheme \<Rightarrow> int \<times> anx_effect_fence_view option \<times> 'a fence_env_scheme" where
  "anx_effect_fence_create s =
     (if anx_cell_current_id s \<noteq> None then (ANX_EPERM, None, s)
      else case anx_uuid_generate s of (uid, s) \<Rightarrow>
        if length (fences s) = ANX_EFFECT_FENCE_MAX \<or> find_fence uid s \<noteq> None then (ANX_EFULL, None, s)
        else let v = \<lparr>fence_no = uid, epoch = 1, generation = 1, fence_state = ANX_FENCE_RUNNING, read_sensitivity = ANX_SENSITIVITY_PUBLIC,
                      read_origin = ANX_UUID_NIL, read_count = 0, child_limit = 0, child_creations = 0, expires_at = 0\<rparr>
             in (ANX_OK, Some v, s\<lparr>fences := fences s @ [v]\<rparr>))"

definition anx_effect_fence_get :: "anx_uuid \<Rightarrow> 'a fence_env_scheme \<Rightarrow> int \<times> anx_effect_fence_view option \<times> 'a fence_env_scheme" where
  "anx_effect_fence_get uid s =
     (if anx_uuid_is_nil uid then (ANX_EINVAL, None, s)
      else case find_fence uid s of
             None \<Rightarrow> (ANX_ENOENT, None, s)
           | Some i \<Rightarrow> (case state_check (Some i) s of (_, s) \<Rightarrow> (ANX_OK, Some (fences s ! i), s)))"

definition anx_effect_fence_bind :: "nat option \<Rightarrow> anx_uuid \<Rightarrow> 'a fence_env_scheme \<Rightarrow> int \<times> 'a fence_env_scheme" where
  "anx_effect_fence_bind cell uid s =
     (if anx_cell_current_id s \<noteq> None then (ANX_EPERM, s)
      else case cell of None \<Rightarrow> (ANX_EINVAL, s)
      | Some p \<Rightarrow>
          case anx_effect_fence_get uid s of (ret, _, s) \<Rightarrow>
          if ret \<noteq> ANX_OK then (ret, s)
          else case anx_cell_store_lookup (cid (cells s p)) s of
                 (None, s) \<Rightarrow> (ANX_ENOENT, s)
               | (Some q, s) \<Rightarrow>
                   if q \<noteq> p then (ANX_EPERM, anx_cell_store_release (Some q) s)
                   else if status (cells s p) \<noteq> ANX_CELL_CREATED \<or> runtime_active (cells s p) \<or>
                     \<not> anx_uuid_is_nil (effect_fence_id (cells s p)) \<or> \<not> anx_uuid_is_nil (parent_cid (cells s p))
                   then (ANX_EBUSY, anx_cell_store_release (Some q) s)
                   else (ANX_OK, anx_cell_store_release (Some q) (set_cell p (\<lambda>c. c\<lparr>effect_fence_id := uid\<rparr>) s)))"

definition anx_effect_fence_transition :: "anx_uuid \<Rightarrow> u64 \<Rightarrow> anx_effect_fence_state \<Rightarrow> 'a fence_env_scheme \<Rightarrow> int \<times> 'a fence_env_scheme" where
  "anx_effect_fence_transition uid gen st s =
     (if anx_cell_current_id s \<noteq> None then (ANX_EPERM, s)
      else if anx_uuid_is_nil uid \<or> gen = 0 then (ANX_EINVAL, s)
      else let fence = find_fence uid s in
        case state_check fence s of (_, s) \<Rightarrow>
        case fence of
          None \<Rightarrow> (ANX_ENOENT, s)
        | Some i \<Rightarrow>
            if generation (fences s ! i) \<noteq> gen then (ANX_EBUSY, s)
            else case change_state (fences s ! i) st of (ret, v) \<Rightarrow> (ret, set_fence i v s))"

definition anx_effect_fence_set_execution_lease ::
  "anx_uuid \<Rightarrow> u64 \<Rightarrow> u32 \<Rightarrow> u64 \<Rightarrow> 'a fence_env_scheme \<Rightarrow> int \<times> 'a fence_env_scheme" where
  "anx_effect_fence_set_execution_lease uid gen limit deadline s =
     (if anx_cell_current_id s \<noteq> None then (ANX_EPERM, s)
      else if anx_uuid_is_nil uid \<or> gen = 0 \<or> limit = 0 \<or> limit > ANX_EXECUTION_CHILDREN_MAX then (ANX_EINVAL, s)
      else case (if deadline \<noteq> 0 then (case arch_time_now s of (now, s) \<Rightarrow> (deadline \<le> now, s)) else (False, s)) of
        (past, s) \<Rightarrow>
          if past then (ANX_EINVAL, s)
          else let fence = find_fence uid s in
            case state_check fence s of (ret, s) \<Rightarrow>
            case fence of
              None \<Rightarrow> (ret, s)
            | Some i \<Rightarrow>
                let v = fences s ! i;
                    ret = (if ret = ANX_OK \<and> gen \<noteq> generation v then ANX_EBUSY else ret);
                    ret = (if ret = ANX_OK \<and> ucast limit < child_creations v then ANX_EINVAL else ret);
                    ret = (if ret = ANX_OK \<and> generation v = - 1 then ANX_EFULL else ret)
                in if ret = ANX_OK
                   then (ret, set_fence i (v\<lparr>child_limit := limit, expires_at := deadline, generation := generation v + 1\<rparr>) s)
                   else (ret, s))"

text \<open>The reservation and the allocation under one lock.\<close>

definition anx_effect_fence_create_child ::
  "nat option \<Rightarrow> anx_cell_type \<Rightarrow> anx_cell_intent option \<Rightarrow> 'a fence_env_scheme \<Rightarrow> int \<times> nat option \<times> 'a fence_env_scheme" where
  "anx_effect_fence_create_child parent type intent_in s =
     (case parent of None \<Rightarrow> (ANX_EINVAL, None, s)
      | Some p \<Rightarrow>
          if anx_uuid_is_nil (effect_fence_id (cells s p)) then anx_cell_create type intent_in s
          else let fence = find_fence (effect_fence_id (cells s p)) s in
            case state_check fence s of (ret, s) \<Rightarrow>
            case fence of
              None \<Rightarrow> (ret, None, s)
            | Some i \<Rightarrow>
                let v = fences s ! i;
                    ret = (if ret = ANX_EBUSY then ANX_OK else ret);
                    ret = (if ret = ANX_OK \<and> (child_creations v = - 1 \<or> (child_limit v \<noteq> 0 \<and> child_creations v \<ge> ucast (child_limit v)))
                           then ANX_EFULL else ret)
                in if ret \<noteq> ANX_OK then (ret, None, s)
                   else case anx_cell_create type intent_in s of (ret, c, s) \<Rightarrow>
                     (ret, c, if ret = ANX_OK then set_fence i (v\<lparr>child_creations := child_creations v + 1\<rparr>) s else s))"

definition request_state :: "nat option \<Rightarrow> anx_effect_fence_state \<Rightarrow> 'a fence_env_scheme \<Rightarrow> int \<times> 'a fence_env_scheme" where
  "request_state cell st s =
     (case cell of None \<Rightarrow> (ANX_EINVAL, s)
      | Some p \<Rightarrow>
          let c = cells s p
          in if anx_uuid_is_nil (effect_fence_id c) then (if st = ANX_FENCE_CANCELLED then ANX_OK else ANX_ENOENT, s)
             else if (case anx_cell_current_id s of Some a \<Rightarrow> anx_uuid_compare a (cid c) \<noteq> 0 | None \<Rightarrow> False) then (ANX_EPERM, s)
             else case anx_cell_store_lookup (cid c) s of
                    (None, s) \<Rightarrow> (ANX_ENOENT, s)
                  | (Some q, s) \<Rightarrow>
                      if q \<noteq> p \<or> (st = ANX_FENCE_HELD \<and> anx_cell_status_terminal (status c)) then (ANX_EPERM, anx_cell_store_release (Some q) s)
                      else let fence = find_fence (effect_fence_id c) s in
                        case state_check fence s of (_, s) \<Rightarrow>
                        case (case fence of
                                None \<Rightarrow> (ANX_ENOENT, s)
                              | Some i \<Rightarrow>
                                  if fence_state (fences s ! i) = st \<or> (st = ANX_FENCE_CANCELLED \<and> closed (fence_state (fences s ! i))) then (ANX_OK, s)
                                  else case change_state (fences s ! i) st of (ret, v) \<Rightarrow> (ret, set_fence i v s)) of
                          (ret, s) \<Rightarrow> (ret, anx_cell_store_release (Some q) s))"

definition anx_effect_fence_hold :: "nat option \<Rightarrow> 'a fence_env_scheme \<Rightarrow> int \<times> 'a fence_env_scheme" where
  "anx_effect_fence_hold cell = request_state cell ANX_FENCE_HELD"

definition anx_effect_fence_cancel :: "nat option \<Rightarrow> 'a fence_env_scheme \<Rightarrow> int \<times> 'a fence_env_scheme" where
  "anx_effect_fence_cancel cell = request_state cell ANX_FENCE_CANCELLED"

subsection \<open>Checks\<close>

text \<open>The results are the fence and its epoch at the time of the check.\<close>

definition anx_effect_fence_check :: "nat option \<Rightarrow> 'a fence_env_scheme \<Rightarrow> int \<times> anx_uuid \<times> u64 \<times> 'a fence_env_scheme" where
  "anx_effect_fence_check cell s =
     (case cell of None \<Rightarrow> (ANX_EINVAL, ANX_UUID_NIL, 0, s)
      | Some p \<Rightarrow>
          if anx_uuid_is_nil (effect_fence_id (cells s p)) then (ANX_OK, ANX_UUID_NIL, 0, s)
          else let fence = find_fence (effect_fence_id (cells s p)) s;
                   (uid, e) = (case fence of None \<Rightarrow> (ANX_UUID_NIL, 0) | Some i \<Rightarrow> (fence_no (fences s ! i), epoch (fences s ! i)))
               in case state_check fence s of (ret, s) \<Rightarrow> (ret, uid, e, s))"

definition anx_effect_fence_observe_read :: "anx_uuid \<Rightarrow> anx_sensitivity \<Rightarrow> 'a fence_env_scheme \<Rightarrow> int \<times> 'a fence_env_scheme" where
  "anx_effect_fence_observe_read oid sens s =
     (case anx_cell_current_id s of None \<Rightarrow> (ANX_OK, s)
      | Some active \<Rightarrow>
          case anx_cell_store_lookup active s of
            (None, s) \<Rightarrow> (ANX_ENOENT, s)
          | (Some p, s) \<Rightarrow>
              if anx_uuid_is_nil (effect_fence_id (cells s p)) then (ANX_OK, anx_cell_store_release (Some p) s)
              else if anx_uuid_is_nil oid then (ANX_EINVAL, anx_cell_store_release (Some p) s)
              else case find_fence (effect_fence_id (cells s p)) s of
                     None \<Rightarrow> (ANX_ENOENT, anx_cell_store_release (Some p) s)
                   | Some i \<Rightarrow>
                       let v = fences s ! i;
                           v = (if sens > read_sensitivity v then v\<lparr>read_sensitivity := sens, read_origin := oid\<rparr> else v);
                           v = (if read_count v \<noteq> - 1 then v\<lparr>read_count := read_count v + 1\<rparr> else v)
                       in (ANX_OK, anx_cell_store_release (Some p) (set_fence i v s)))"

definition sink_check :: "anx_effect_fence_view option \<Rightarrow> anx_sink option \<Rightarrow> int" where
  "sink_check fence sink =
     (case fence of None \<Rightarrow> ANX_ENOENT
      | Some v \<Rightarrow>
          (case sink of
             None \<Rightarrow> if read_sensitivity v = ANX_SENSITIVITY_PUBLIC then ANX_OK else ANX_EPERM
           | Some k \<Rightarrow> if read_sensitivity v \<le> max_sensitivity k then ANX_OK else ANX_EPERM))"

text \<open>The sink behind a pointer into the registry.\<close>

definition sink_at :: "nat option \<Rightarrow> 'a fence_env_scheme \<Rightarrow> anx_sink option" where
  "sink_at sink s = (case sink of None \<Rightarrow> None | Some k \<Rightarrow> sinks s ! k)"

definition anx_effect_fence_check_sink :: "nat option \<Rightarrow> nat option \<Rightarrow> 'a fence_env_scheme \<Rightarrow> int" where
  "anx_effect_fence_check_sink cell sink s =
     (case cell of None \<Rightarrow> ANX_EINVAL
      | Some p \<Rightarrow>
          if anx_uuid_is_nil (effect_fence_id (cells s p)) then ANX_OK
          else sink_check (map_option ((!) (fences s)) (find_fence (effect_fence_id (cells s p)) s)) (sink_at sink s))"

subsection \<open>Pending effects\<close>

datatype anx_effect_phase = ANX_EFFECT_PREPARED | ANX_EFFECT_DISPATCHING | ANX_EFFECT_COMMITTED | ANX_EFFECT_RESTORED | ANX_EFFECT_UNKNOWN

record anx_pending_effect =
  effect_cell :: anx_uuid
  effect_sink :: "nat option"
  effect_object :: anx_uuid
  phase :: anx_effect_phase
  effect_fence :: anx_uuid
  effect_epoch :: u64

definition anx_effect_fence_dispatch :: "anx_pending_effect \<Rightarrow> 'a fence_env_scheme \<Rightarrow> int \<times> anx_pending_effect \<times> 'a fence_env_scheme" where
  "anx_effect_fence_dispatch effect s =
     (case anx_cell_store_lookup (effect_cell effect) s of
        (None, s) \<Rightarrow> (ANX_ENOENT, effect, s)
      | (Some p, s) \<Rightarrow>
          case (if phase effect \<noteq> ANX_EFFECT_PREPARED then (ANX_EINVAL, s)
                else if anx_uuid_compare (effect_fence_id (cells s p)) (effect_fence effect) \<noteq> 0 then (ANX_EPERM, s)
                else if anx_uuid_is_nil (effect_fence effect) then (if effect_epoch effect \<noteq> 0 then ANX_EPERM else ANX_OK, s)
                else case find_fence (effect_fence effect) s of
                       None \<Rightarrow> (ANX_ENOENT, s)
                     | Some i \<Rightarrow>
                         (case (if epoch (fences s ! i) \<noteq> effect_epoch effect then (ANX_EPERM, s) else state_check (Some i) s) of
                            (ret, s) \<Rightarrow> (if ret = ANX_OK then sink_check (Some (fences s ! i)) (sink_at (effect_sink effect) s) else ret, s))) of
            (ret, s) \<Rightarrow> (ret, if ret = ANX_OK then effect\<lparr>phase := ANX_EFFECT_DISPATCHING\<rparr> else effect, anx_cell_store_release (Some p) s))"

subsection \<open>The sink registry\<close>

definition anx_sink_registry_init :: "'a fence_env_scheme \<Rightarrow> 'a fence_env_scheme" where
  "anx_sink_registry_init s =
     (if anx_cell_current_id s \<noteq> None then s else s\<lparr>sinks := replicate ANX_SINK_MAX None, sinks_initialized := True\<rparr>)"

definition anx_sink_lookup :: "string \<Rightarrow> 'a fence_env_scheme \<Rightarrow> nat option" where
  "anx_sink_lookup name s =
     find (\<lambda>i. case sinks s ! i of None \<Rightarrow> False | Some k \<Rightarrow> sink_name k = name) [0..<length (sinks s)]"

definition anx_sink_register :: "string \<Rightarrow> anx_sensitivity \<Rightarrow> 'a fence_env_scheme \<Rightarrow> int \<times> nat option \<times> 'a fence_env_scheme" where
  "anx_sink_register name limit s =
     (if anx_cell_current_id s \<noteq> None then (ANX_EPERM, None, s)
      else if name = [] then (ANX_EINVAL, None, s)
      else let s = (if \<not> sinks_initialized s then anx_sink_registry_init s else s) in
        case anx_sink_lookup name s of
          Some i \<Rightarrow> (ANX_OK, Some i, s\<lparr>sinks := (sinks s)[i := map_option (\<lambda>k. k\<lparr>max_sensitivity := limit\<rparr>) (sinks s ! i)]\<rparr>)
        | None \<Rightarrow>
            (case find (\<lambda>i. sinks s ! i = None) [0..<length (sinks s)] of
               None \<Rightarrow> (ANX_ENOMEM, None, s)
             | Some i \<Rightarrow> (ANX_OK, Some i, s\<lparr>sinks := (sinks s)[i := Some \<lparr>sink_name = take 63 name, max_sensitivity = limit\<rparr>]\<rparr>)))"

section \<open>Fences only tighten\<close>

definition within_budget :: "anx_effect_fence_view \<Rightarrow> bool" where
  "within_budget v \<longleftrightarrow> child_limit v = 0 \<or> child_creations v \<le> ucast (child_limit v)"

definition fence_le :: "anx_effect_fence_view \<Rightarrow> anx_effect_fence_view \<Rightarrow> bool" where
  "fence_le v w \<longleftrightarrow> fence_no w = fence_no v \<and> read_sensitivity v \<le> read_sensitivity w \<and> generation v \<le> generation w \<and>
     read_count v \<le> read_count w \<and> child_creations v \<le> child_creations w \<and> (within_budget v \<longrightarrow> within_budget w) \<and>
     (closed (fence_state v) \<longrightarrow> fence_state w = fence_state v \<and> epoch w = epoch v) \<and>
     (\<not> closed (fence_state v) \<longrightarrow> epoch w = (if closed (fence_state w) then epoch v + 1 else epoch v))"

definition fences_le :: "'a fence_env_scheme \<Rightarrow> 'a fence_env_scheme \<Rightarrow> bool" where
  "fences_le s t \<longleftrightarrow> length (fences s) \<le> length (fences t) \<and> (\<forall>i<length (fences s). fence_le (fences s ! i) (fences t ! i))"

lemma fence_le_refl: "fence_le v v"
  by (simp add: fence_le_def)

lemma fence_le_trans: "fence_le u v \<Longrightarrow> fence_le v w \<Longrightarrow> fence_le u w"
  unfolding fence_le_def by (cases "closed (fence_state u)"; cases "closed (fence_state v)") auto

lemma fences_le_refl: "fences t = fences s \<Longrightarrow> fences_le s t"
  by (simp add: fences_le_def fence_le_refl)

lemma fences_le_trans:
  assumes "fences_le s t" "fences_le t u" shows "fences_le s u"
proof -
  have l: "length (fences s) \<le> length (fences t)" "length (fences t) \<le> length (fences u)"
    and st: "\<And>i. i < length (fences s) \<Longrightarrow> fence_le (fences s ! i) (fences t ! i)"
    and tu: "\<And>i. i < length (fences t) \<Longrightarrow> fence_le (fences t ! i) (fences u ! i)"
    using assms unfolding fences_le_def by blast+
  have "fence_le (fences s ! i) (fences u ! i)" if i: "i < length (fences s)" for i
    by (rule fence_le_trans [OF st [OF i] tu]) (use i l in linarith)
  then show ?thesis unfolding fences_le_def using l by (blast intro: order_trans)
qed

lemma fences_le_eq: "fences_le s t \<Longrightarrow> fences t = fences u \<Longrightarrow> fences_le s u"
  by (simp add: fences_le_def)

lemma less_succ: "x \<noteq> - 1 \<Longrightarrow> (x :: u64) \<le> x + 1"
proof -
  assume "x \<noteq> - 1"
  moreover have "unat (- 1 :: u64) = 18446744073709551615" by (simp add: unsigned_minus_1_eq_mask mask_eq_exp_minus_1)
  ultimately have "unat x \<noteq> 18446744073709551615" by (metis word_unat_eq_iff)
  then have "unat x + 1 < 18446744073709551616" using unat_u64_bound [of x] by linarith
  then show ?thesis by (simp add: word_le_nat_alt unat_word_ariths)
qed

lemma succ_le: "(x :: u64) < y \<Longrightarrow> x + 1 \<le> y"
proof -
  assume "x < y"
  then have "unat x < unat y" by (simp add: word_less_nat_alt)
  moreover have "unat x + 1 < 18446744073709551616" using calculation unat_u64_bound [of y] by linarith
  ultimately show ?thesis by (simp add: word_le_nat_alt unat_word_ariths)
qed

lemma change_state_le: "fence_le v (snd (change_state v st))"
  using less_succ [of "generation v"] by (auto simp: fence_le_def change_state_def within_budget_def)

lemma length_set_fence [simp]: "length (fences (set_fence i v s)) = length (fences s)"
  by (simp add: set_fence_def)

lemma fences_le_set: "fence_le (fences s ! i) v \<Longrightarrow> fences_le s (set_fence i v s)"
  by (cases "i < length (fences s)") (auto simp: fences_le_def set_fence_def nth_list_update fence_le_refl)

text \<open>What the other components leave alone.\<close>

lemma fences_env: "kenv.more t = kenv.more s \<Longrightarrow> fences t = fences s"
  by (cases s; cases t) simp

lemma fences_set_cell [simp]: "fences (set_cell p f s) = fences s" "sinks (set_cell p f s) = sinks s"
  by (simp_all add: set_cell_def)

lemma fences_release [simp]: "fences (anx_cell_store_release c s) = fences s" "sinks (anx_cell_store_release c s) = sinks s"
  by (simp_all add: anx_cell_store_release_def split: option.split)

lemma fences_lookup: "anx_cell_store_lookup uid s = (r, t) \<Longrightarrow> fences t = fences s \<and> sinks t = sinks s"
  by (erule lookup_cases) simp_all

lemma fences_clock: "arch_time_now s = (now, t) \<Longrightarrow> fences t = fences s"
  using fences_env [OF env_more(2) [of s]] by simp

lemma fences_cell_create: "anx_cell_create ty i s = (r, c, t) \<Longrightarrow> fences t = fences s"
proof -
  assume a: "anx_cell_create ty i s = (r, c, t)"
  obtain ok s1 where 1: "anx_alloc s = (ok, s1)" by fastforce
  obtain e s2 where 2: "anx_uuid_generate s1 = (e, s2)" by fastforce
  obtain now s3 where 3: "arch_time_now s2 = (now, s3)" by fastforce
  have "fences s1 = fences s" "fences s2 = fences s1" "fences s3 = fences s2"
    using fences_env [OF env_more(1) [of s]] fences_env [OF env_more(4) [of s1]] fences_clock [OF 3] 1 2 by simp_all
  then show ?thesis using a 1 2 3 by (auto simp: anx_cell_create_def Let_def split: option.splits if_splits)
qed

text \<open>The deadline check can only close the fence.\<close>

lemma state_check_le: "state_check c s = (r, t) \<Longrightarrow> fences_le s t"
proof (cases c)
  case (Some i)
  assume a: "state_check c s = (r, t)"
  let ?v = "fences s ! i"
  obtain now s1 where c: "arch_time_now s = (now, s1)" by fastforce
  note f = fences_clock [OF c]
  have "fences_le s1 (set_fence i (snd (change_state ?v ANX_FENCE_TIMED_OUT)) s1)"
    using f change_state_le by (intro fences_le_set) simp
  then have "fences_le s (set_fence i (snd (change_state ?v ANX_FENCE_TIMED_OUT)) s1)" using fences_le_trans fences_le_refl [OF f] by blast
  then show ?thesis using a Some c f by (auto simp: state_check_def Let_def fences_le_refl split: if_splits)
qed (simp add: state_check_def fences_le_refl)

lemma state_check_result:
  "state_check (Some i) s = (r, t) \<Longrightarrow> i < length (fences s) \<Longrightarrow>
     r = (if fence_state (fences t ! i) = ANX_FENCE_HELD then ANX_EBUSY else if closed (fence_state (fences t ! i)) then ANX_EPERM else ANX_OK)"
  by (auto simp: state_check_def Let_def split: prod.splits if_splits)

lemma sinks_env: "kenv.more t = kenv.more s \<Longrightarrow> sinks t = sinks s"
  by (cases s; cases t) simp

lemma state_check_sinks: "state_check c s = (r, t) \<Longrightarrow> sinks t = sinks s"
  using sinks_env [OF env_more(2) [of s]]
  by (cases c) (auto simp: state_check_def Let_def set_fence_def split: prod.splits if_splits)

lemma find_fence_bound: "find_fence uid s = Some i \<Longrightarrow> i < length (fences s) \<and> fence_no (fences s ! i) = uid"
  by (auto simp: find_fence_def find_Some_iff)

lemma find_fence_first: "find_fence uid s = Some i \<longleftrightarrow> i < length (fences s) \<and> fence_no (fences s ! i) = uid \<and> (\<forall>j<i. fence_no (fences s ! j) \<noteq> uid)"
  by (auto simp: find_fence_def find_Some_iff)

text \<open>A fence keeps its slot.\<close>

lemma find_fence_le: "fences_le s t \<Longrightarrow> find_fence uid s = Some i \<Longrightarrow> find_fence uid t = Some i"
  by (auto simp: find_fence_first fences_le_def fence_le_def)

subsection \<open>The operations\<close>

lemma fence_create_le: "anx_effect_fence_create s = (r, v, t) \<Longrightarrow> fences_le s t"
proof -
  assume a: "anx_effect_fence_create s = (r, v, t)"
  obtain e s1 where 1: "anx_uuid_generate s = (e, s1)" by fastforce
  have "fences s1 = fences s" using fences_env [OF env_more(4) [of s]] 1 by simp
  then show ?thesis using a 1 by (auto simp: anx_effect_fence_create_def Let_def fences_le_def nth_append fence_le_refl split: if_splits)
qed

lemma fence_get_le: "anx_effect_fence_get uid s = (r, v, t) \<Longrightarrow> fences_le s t"
  using state_check_le by (auto simp: anx_effect_fence_get_def fences_le_refl split: if_splits option.splits prod.splits)

lemma fence_bind_le: "anx_effect_fence_bind c uid s = (r, t) \<Longrightarrow> fences_le s t"
proof (cases "anx_cell_current_id s = None \<and> c \<noteq> None")
  case True
  assume a: "anx_effect_fence_bind c uid s = (r, t)"
  then obtain p where p: "c = Some p" using True by blast
  obtain ret v s1 where g: "anx_effect_fence_get uid s = (ret, v, s1)" using prod_cases3 by blast
  obtain q s2 where l: "anx_cell_store_lookup (cid (cells s1 p)) s1 = (q, s2)" by fastforce
  have "fences t = fences s1"
    using a True p g l fences_lookup [OF l] by (auto simp: anx_effect_fence_bind_def split: if_splits option.splits)
  then show ?thesis using fence_get_le [OF g] fences_le_eq by metis
qed (auto simp: anx_effect_fence_bind_def fences_le_refl split: option.splits if_splits)

lemma fences_le_via:
  assumes "fences_le s s1" "fences t = fences s \<or> fences t = fences s1 \<or> (\<exists>i v. fences t = fences (set_fence i v s1) \<and> fence_le (fences s1 ! i) v)"
  shows "fences_le s t"
  using assms(2)
proof (elim disjE exE conjE)
  fix i v assume "fences t = fences (set_fence i v s1)" "fence_le (fences s1 ! i) v"
  then show ?thesis using fences_le_trans [OF assms(1) fences_le_set] fences_le_eq by metis
qed (use assms(1) fences_le_refl fences_le_eq in metis)+

lemma changed_le: "change_state v st = (r, w) \<Longrightarrow> fence_le v w"
  using change_state_le [of v st] by simp

lemma fence_transition_le: "anx_effect_fence_transition uid gen st s = (r, t) \<Longrightarrow> fences_le s t"
proof -
  assume a: "anx_effect_fence_transition uid gen st s = (r, t)"
  obtain x s1 where c: "state_check (find_fence uid s) s = (x, s1)" by fastforce
  have "t = s \<or> t = s1 \<or> (\<exists>i v. t = set_fence i v s1 \<and> fence_le (fences s1 ! i) v)"
    using a c by (auto simp: anx_effect_fence_transition_def Let_def split: if_splits option.splits prod.splits dest: changed_le)
  then show ?thesis by (intro fences_le_via [OF state_check_le [OF c]]) auto
qed

lemma fence_lease_le: "anx_effect_fence_set_execution_lease uid gen limit deadline s = (r, t) \<Longrightarrow> fences_le s t"
proof -
  assume a: "anx_effect_fence_set_execution_lease uid gen limit deadline s = (r, t)"
  obtain now s0 where n: "arch_time_now s = (now, s0)" by fastforce
  define s1 where "s1 = (if deadline \<noteq> 0 then s0 else s)"
  have f: "fences s1 = fences s" using fences_clock [OF n] by (simp add: s1_def)
  obtain x s2 where c: "state_check (find_fence uid s1) s1 = (x, s2)" by fastforce
  have le: "fences_le s s2" using fences_le_trans [OF fences_le_refl [OF f] state_check_le [OF c]] .
  have lease: "fence_le v (v\<lparr>child_limit := limit, expires_at := deadline, generation := generation v + 1\<rparr>)"
    if "generation v \<noteq> - 1" "\<not> ucast limit < child_creations v" for v
    using that less_succ [of "generation v"] by (auto simp: fence_le_def within_budget_def not_less)
  have "fences t = fences s \<or> t = s2 \<or> (\<exists>i v. t = set_fence i v s2 \<and> fence_le (fences s2 ! i) v)"
    using a n c f lease by (auto simp: anx_effect_fence_set_execution_lease_def s1_def Let_def split: if_splits option.splits)
  then show ?thesis by (intro fences_le_via [OF le]) auto
qed

lemma fence_child_le: "anx_effect_fence_create_child p ty i s = (r, c, t) \<Longrightarrow> fences_le s t"
proof -
  assume a: "anx_effect_fence_create_child p ty i s = (r, c, t)"
  show ?thesis
  proof (cases "\<exists>q. p = Some q \<and> effect_fence_id (cells s q) \<noteq> ANX_UUID_NIL")
    case False
    then show ?thesis using a fences_cell_create [of ty i s r c t] fences_le_refl
      by (auto simp: anx_effect_fence_create_child_def split: option.splits)
  next
    case True
    then obtain q where q: "p = Some q" "effect_fence_id (cells s q) \<noteq> ANX_UUID_NIL" by blast
    obtain x s1 where k: "state_check (find_fence (effect_fence_id (cells s q)) s) s = (x, s1)" by fastforce
    obtain y d s2 where n: "anx_cell_create ty i s1 = (y, d, s2)" using prod_cases3 by blast
    note f = fences_cell_create [OF n]
    let ?room = "\<lambda>v. child_creations v \<noteq> - 1 \<and> (child_limit v = 0 \<or> child_creations v < ucast (child_limit v))"
    have up: "fence_le v (v\<lparr>child_creations := child_creations v + 1\<rparr>)" if "?room v" for v :: anx_effect_fence_view
      using that less_succ [of "child_creations v"] succ_le [of "child_creations v" "ucast (child_limit v)"]
      by (cases "child_limit v = 0") (simp_all add: fence_le_def within_budget_def)
    have "fences t = fences s1 \<or> (\<exists>i. ?room (fences s1 ! i) \<and>
        fences t = fences (set_fence i ((fences s1 ! i)\<lparr>child_creations := child_creations (fences s1 ! i) + 1\<rparr>) s1))"
      using a q k n f by (auto simp: anx_effect_fence_create_child_def Let_def set_fence_def split: if_splits option.splits)
    then show ?thesis using up by (intro fences_le_via [OF state_check_le [OF k]]) blast
  qed
qed

lemma fence_request_le: "request_state c st s = (r, t) \<Longrightarrow> fences_le s t"
proof -
  assume a: "request_state c st s = (r, t)"
  show ?thesis
  proof (cases c)
    case None
    then show ?thesis using a by (simp add: request_state_def fences_le_refl)
  next
    case (Some p)
    obtain q s1 where l: "anx_cell_store_lookup (cid (cells s p)) s = (q, s1)" by fastforce
    have f: "fences s1 = fences s" using fences_lookup [OF l] by simp
    obtain x s2 where k: "state_check (find_fence (effect_fence_id (cells s p)) s1) s1 = (x, s2)" by fastforce
    have le: "fences_le s s2" using fences_le_trans [OF fences_le_refl [OF f] state_check_le [OF k]] .
    have "fences t = fences s \<or> fences t = fences s2 \<or> (\<exists>i v. fences t = fences (set_fence i v s2) \<and> (\<exists>r. change_state (fences s2 ! i) st = (r, v)))"
      using a Some l f k by (auto simp: request_state_def Let_def split: if_splits option.splits prod.splits)
    then show ?thesis using changed_le by (intro fences_le_via [OF le]) blast
  qed
qed

lemma fence_check_le: "anx_effect_fence_check c s = (r, uid, e, t) \<Longrightarrow> fences_le s t"
  using state_check_le by (auto simp: anx_effect_fence_check_def Let_def fences_le_refl split: if_splits option.splits prod.splits)

lemma fence_read_le: "anx_effect_fence_observe_read oid sens s = (r, t) \<Longrightarrow> fences_le s t"
proof -
  assume a: "anx_effect_fence_observe_read oid sens s = (r, t)"
  define up where "up v = (let v = (if sens > read_sensitivity v then v\<lparr>read_sensitivity := sens, read_origin := oid\<rparr> else v)
    in if read_count v \<noteq> - 1 then v\<lparr>read_count := read_count v + 1\<rparr> else v)" for v :: anx_effect_fence_view
  have le: "fence_le v (up v)" for v
    using less_succ [of "read_count v"] by (auto simp: up_def fence_le_def Let_def within_budget_def)
  show ?thesis
  proof (cases "anx_cell_current_id s")
    case None
    then show ?thesis using a by (simp add: anx_effect_fence_observe_read_def fences_le_refl)
  next
    case (Some act)
    obtain q s1 where l: "anx_cell_store_lookup act s = (q, s1)" by fastforce
    have f: "fences s1 = fences s" using fences_lookup [OF l] by simp
    have "fences t = fences s \<or> (\<exists>i. fences t = fences (set_fence i (up (fences s1 ! i)) s1))"
    proof (cases "\<exists>p i. q = Some p \<and> effect_fence_id (cells s1 p) \<noteq> ANX_UUID_NIL \<and> oid \<noteq> ANX_UUID_NIL \<and> find_fence (effect_fence_id (cells s1 p)) s1 = Some i")
      case True
      then obtain p i where p: "q = Some p" "effect_fence_id (cells s1 p) \<noteq> ANX_UUID_NIL" "oid \<noteq> ANX_UUID_NIL" "find_fence (effect_fence_id (cells s1 p)) s1 = Some i"
        by blast
      have "t = anx_cell_store_release (Some p) (set_fence i (up (fences s1 ! i)) s1)"
        using a Some l p unfolding anx_effect_fence_observe_read_def up_def Let_def by simp
      then show ?thesis by auto
    next
      case False
      then show ?thesis using a Some l f by (auto simp: anx_effect_fence_observe_read_def split: if_splits option.splits)
    qed
    then show ?thesis using le by (intro fences_le_via [OF fences_le_refl [OF f]]) blast
  qed
qed

lemma fence_dispatch_le: "anx_effect_fence_dispatch e s = (r, e', t) \<Longrightarrow> fences_le s t"
proof -
  assume a: "anx_effect_fence_dispatch e s = (r, e', t)"
  obtain q s1 where l: "anx_cell_store_lookup (effect_cell e) s = (q, s1)" by fastforce
  have f: "fences s1 = fences s" using fences_lookup [OF l] by simp
  have "fences t = fences s \<or> (\<exists>i. find_fence (effect_fence e) s1 = Some i \<and> fences t = fences (snd (state_check (Some i) s1)))"
    using a l f by (auto simp: anx_effect_fence_dispatch_def split: if_splits option.splits prod.splits)
  moreover have "fences_le s (snd (state_check c s1))" for c
    using fences_le_trans [OF fences_le_refl [OF f] state_check_le] by (metis prod.collapse)
  ultimately show ?thesis using fences_le_refl fences_le_eq by metis
qed

section \<open>Runs\<close>

text \<open>One step of the kernel as the fences see it: an operation on them, or any other one, which
  leaves the table alone.\<close>

inductive fence_step :: "'a fence_env_scheme \<Rightarrow> 'a fence_env_scheme \<Rightarrow> bool" where
  create: "anx_effect_fence_create s = (r, v, t) \<Longrightarrow> fence_step s t"
| get: "anx_effect_fence_get uid s = (r, v, t) \<Longrightarrow> fence_step s t"
| bind: "anx_effect_fence_bind c uid s = (r, t) \<Longrightarrow> fence_step s t"
| transition: "anx_effect_fence_transition uid gen st s = (r, t) \<Longrightarrow> fence_step s t"
| lease: "anx_effect_fence_set_execution_lease uid gen limit deadline s = (r, t) \<Longrightarrow> fence_step s t"
| child: "anx_effect_fence_create_child c ty i s = (r, d, t) \<Longrightarrow> fence_step s t"
| hold: "anx_effect_fence_hold c s = (r, t) \<Longrightarrow> fence_step s t"
| cancel: "anx_effect_fence_cancel c s = (r, t) \<Longrightarrow> fence_step s t"
| check: "anx_effect_fence_check c s = (r, uid, n, t) \<Longrightarrow> fence_step s t"
| read: "anx_effect_fence_observe_read oid sens s = (r, t) \<Longrightarrow> fence_step s t"
| dispatch: "anx_effect_fence_dispatch e s = (r, e', t) \<Longrightarrow> fence_step s t"
| other: "fences t = fences s \<Longrightarrow> fence_step s t"

lemma fence_step_le: "fence_step s t \<Longrightarrow> fences_le s t"
  by (induction rule: fence_step.induct)
    (simp_all add: fence_create_le fence_get_le fence_bind_le fence_transition_le fence_lease_le fence_child_le fence_request_le fence_check_le
      fence_read_le fence_dispatch_le fences_le_refl anx_effect_fence_hold_def anx_effect_fence_cancel_def)

lemma fence_steps_le: "fence_step\<^sup>*\<^sup>* s t \<Longrightarrow> fences_le s t"
  by (induction rule: rtranclp_induct) (auto simp: fences_le_refl dest: fence_step_le fences_le_trans)

lemma state_check_closed:
  assumes "i < length (fences s)" "closed (fence_state (fences s ! i))" "state_check (Some i) s = (r, t)"
  shows "r = ANX_EPERM \<and> t = s"
  using assms by (auto simp: state_check_def Let_def closed_def)

subsection \<open>An example\<close>

text \<open>The first cell of the example registry runs under a fence with a budget of two children; one sink takes confidential
  data.\<close>

definition ex_fence :: anx_effect_fence_view where
  "ex_fence = \<lparr>fence_no = UUID 9 9, epoch = 1, generation = 1, fence_state = ANX_FENCE_RUNNING, read_sensitivity = ANX_SENSITIVITY_PUBLIC,
     read_origin = ANX_UUID_NIL, read_count = 0, child_limit = 2, child_creations = 0, expires_at = 0\<rparr>"

definition ex_fenced :: fence_env where
  "ex_fenced = cell_env.extend (ex_cells\<lparr>cells := (cells ex_cells)(0 := (cells ex_cells 0)\<lparr>effect_fence_id := UUID 9 9\<rparr>), active_cell := Some 0\<rparr>)
     (fence_env.fields [ex_fence] (Some \<lparr>sink_name = ''log'', max_sensitivity = ANX_SENSITIVITY_CONFIDENTIAL\<rparr> # replicate 15 None) True)"

lemma ex_fenced_simps [simp]:
  "fences ex_fenced = [ex_fence]" "sinks ex_fenced = Some \<lparr>sink_name = ''log'', max_sensitivity = ANX_SENSITIVITY_CONFIDENTIAL\<rparr> # replicate 15 None"
  "cells ex_fenced = (cells ex_cells)(0 := (cells ex_cells 0)\<lparr>effect_fence_id := UUID 9 9\<rparr>)" "cell_table ex_fenced = cell_table ex_cells"
  "active_cell ex_fenced = Some 0"
  by (simp_all add: ex_fenced_def cell_env.extend_def fence_env.fields_def)

lemma ex_fenced_find: "find_cell (UUID 0 1) ex_fenced = Some 0"
proof -
  have "cid (cells ex_fenced q) = cid (cells ex_cells q)" for q by simp
  then have "find_cell (UUID 0 1) ex_fenced = find_cell (UUID 0 1) ex_cells"
    by (simp add: find_cell_def del: ex_fenced_simps(3))
  then show ?thesis using find_cell_self [OF ex_cells_ok(1), of 0] ex_cid(1) by (simp add: ex_live)
qed

lemma ex_fenced_current: "anx_cell_current_id ex_fenced = Some (UUID 0 1)"
  by (simp add: anx_cell_current_id_def ex_cid)

lemma ex_fence_found: "find_fence (UUID 9 9) (set_cell p f ex_fenced) = Some 0"
  by (simp add: find_fence_def ex_fence_def)

text \<open>C8: A fence only ever becomes stricter. Along every sequence of operations a fence keeps its
  identifier and slot, its read label, read count, revision number and number of created
  children never decrease, the children stay within the budget once they are, and the
  epoch changes exactly when the fence closes, by one; once a fence is rejected, cancelled or
  timed out it stays so, and the check of its cells answers EPERM from then on.\<close>

theorem fence_only_tightens:
  assumes "fence_step\<^sup>*\<^sup>* s t" "find_fence uid s = Some i"
  shows "find_fence uid t = Some i \<and>
    read_sensitivity (fences s ! i) \<le> read_sensitivity (fences t ! i) \<and> read_count (fences s ! i) \<le> read_count (fences t ! i) \<and>
    generation (fences s ! i) \<le> generation (fences t ! i) \<and> child_creations (fences s ! i) \<le> child_creations (fences t ! i) \<and>
    (within_budget (fences s ! i) \<longrightarrow> within_budget (fences t ! i)) \<and>
    (\<not> closed (fence_state (fences s ! i)) \<longrightarrow>
       epoch (fences t ! i) = (if closed (fence_state (fences t ! i)) then epoch (fences s ! i) + 1 else epoch (fences s ! i))) \<and>
    (closed (fence_state (fences s ! i)) \<longrightarrow> fence_state (fences t ! i) = fence_state (fences s ! i) \<and>
       epoch (fences t ! i) = epoch (fences s ! i) \<and> fst (state_check (Some i) t) = ANX_EPERM)"
proof -
  note le = fence_steps_le [OF assms(1)]
  have i: "i < length (fences s)" "i < length (fences t)" using find_fence_bound [OF assms(2)] le by (auto simp: fences_le_def)
  then have f: "fence_le (fences s ! i) (fences t ! i)" using le by (simp add: fences_le_def)
  have "fst (state_check (Some i) t) = ANX_EPERM" if "closed (fence_state (fences s ! i))"
    using that f state_check_closed [OF i(2)] by (metis fence_le_def prod.collapse)
  then show ?thesis using f find_fence_le [OF le assms(2)] by (simp add: fence_le_def)
qed

theorem fence_only_tightens_witness:
  "\<exists>t. fence_step\<^sup>*\<^sup>* ex_fenced t \<and> fence_state (fences t ! 0) = ANX_FENCE_CANCELLED \<and> find_fence (UUID 9 9) t = Some 0 \<and>
     within_budget (fences t ! 0) \<and> epoch (fences t ! 0) = 2"
proof -
  have found: "find_fence (UUID 9 9) ex_fenced = Some 0" by (simp add: find_fence_def ex_fence_def)
  obtain r t where t: "anx_effect_fence_cancel (Some 0) ex_fenced = (r, t)" by fastforce
  have "snd (anx_effect_fence_cancel (Some 0) ex_fenced) = anx_cell_store_release (Some 0)
      (set_fence 0 (snd (change_state ex_fence ANX_FENCE_CANCELLED)) (set_cell 0 (\<lambda>c. c\<lparr>refcount := refcount c + 1\<rparr>) ex_fenced))"
    using ex_fenced_find ex_fenced_current ex_cid(1) ex_fence_found by (simp add: anx_effect_fence_cancel_def request_state_def
        anx_cell_store_lookup_def state_check_def ex_fence_def closed_def change_state_def Let_def ANX_UUID_NIL_def)
  then have st: "fence_state (fences t ! 0) = ANX_FENCE_CANCELLED" using t by (simp add: set_fence_def change_state_def ex_fence_def closed_def)
  have run: "fence_step\<^sup>*\<^sup>* ex_fenced t" using fence_step.cancel [OF t] by blast
  show ?thesis using fence_only_tightens [OF run found] st run
    by (intro exI [of _ t]) (simp add: ex_fence_def within_budget_def closed_def)
qed

subsection \<open>Information flow\<close>

text \<open>The level up to which data may leave through a sink; without one, only public data.\<close>

definition sink_limit :: "anx_sink option \<Rightarrow> anx_sensitivity" where
  "sink_limit k = (case k of None \<Rightarrow> ANX_SENSITIVITY_PUBLIC | Some k \<Rightarrow> max_sensitivity k)"

lemma sink_check_ok: "sink_check (Some v) k = ANX_OK \<longleftrightarrow> read_sensitivity v \<le> sink_limit k"
  by (auto simp: sink_check_def sink_limit_def split: option.split)

lemma observe_read_label:
  assumes "anx_cell_current_id s = Some a" "find_cell a s = Some p" "effect_fence_id (cells s p) = uid" "uid \<noteq> ANX_UUID_NIL"
    "anx_effect_fence_observe_read oid sens s = (ANX_OK, t)"
  obtains i where "find_fence uid t = Some i" "sens \<le> read_sensitivity (fences t ! i)"
proof -
  define s1 where "s1 = set_cell p (\<lambda>c. c\<lparr>refcount := refcount c + 1\<rparr>) s"
  have l: "anx_cell_store_lookup a s = (Some p, s1)" using assms(2) by (simp add: anx_cell_store_lookup_def s1_def)
  have q: "fences s1 = fences s" "effect_fence_id (cells s1 p) = uid" using assms(3) by (simp_all add: s1_def)
  have o: "oid \<noteq> ANX_UUID_NIL" using assms(1,4,5) l q(2) by (auto simp: anx_effect_fence_observe_read_def)
  obtain i where i: "find_fence uid s1 = Some i"
    using assms(1,4,5) l q(2) o by (cases "find_fence uid s1") (auto simp: anx_effect_fence_observe_read_def)
  define v where "v = (if sens > read_sensitivity (fences s1 ! i) then (fences s1 ! i)\<lparr>read_sensitivity := sens, read_origin := oid\<rparr> else fences s1 ! i)"
  define w where "w = (if read_count v \<noteq> - 1 then v\<lparr>read_count := read_count v + 1\<rparr> else v)"
  have t: "t = anx_cell_store_release (Some p) (set_fence i w s1)"
    using assms(1,4,5) l q(2) o i unfolding anx_effect_fence_observe_read_def Let_def w_def v_def by simp
  have "i < length (fences s1)" using find_fence_bound [OF i] by simp
  then have "fences t ! i = w" unfolding t by (simp add: set_fence_def)
  moreover have "sens \<le> read_sensitivity w" by (auto simp: w_def v_def)
  moreover have "find_fence uid t = Some i"
    using find_fence_le [OF fence_read_le [OF assms(5)]] i q(1) by (simp add: find_fence_def)
  ultimately show thesis using that by metis
qed

lemma dispatch_ok:
  assumes "anx_effect_fence_dispatch e s = (ANX_OK, e', t)" "effect_fence e \<noteq> ANX_UUID_NIL"
  obtains i where "find_fence (effect_fence e) s = Some i" "epoch (fences s ! i) = effect_epoch e" "fence_state (fences t ! i) = ANX_FENCE_RUNNING"
    "read_sensitivity (fences t ! i) \<le> sink_limit (sink_at (effect_sink e) s)" "e' = e\<lparr>phase := ANX_EFFECT_DISPATCHING\<rparr>" "phase e = ANX_EFFECT_PREPARED"
proof -
  obtain q s1 where l: "anx_cell_store_lookup (effect_cell e) s = (q, s1)" by fastforce
  have f: "fences s1 = fences s" "sinks s1 = sinks s" using fences_lookup [OF l] by auto
  obtain p where p: "q = Some p" using assms(1) l by (cases q) (auto simp: anx_effect_fence_dispatch_def)
  have ph: "phase e = ANX_EFFECT_PREPARED" "effect_fence_id (cells s1 p) = effect_fence e"
    using assms l p by (auto simp: anx_effect_fence_dispatch_def split: if_splits)
  obtain i where i: "find_fence (effect_fence e) s1 = Some i"
    using assms l p ph by (cases "find_fence (effect_fence e) s1") (auto simp: anx_effect_fence_dispatch_def)
  obtain r s2 where k: "state_check (Some i) s1 = (r, s2)" by fastforce
  have d: "epoch (fences s1 ! i) = effect_epoch e" "r = ANX_OK" "sink_check (Some (fences s2 ! i)) (sink_at (effect_sink e) s2) = ANX_OK"
    "t = anx_cell_store_release (Some p) s2" "e' = e\<lparr>phase := ANX_EFFECT_DISPATCHING\<rparr>"
    using assms l p ph i k by (auto simp: anx_effect_fence_dispatch_def split: if_splits)
  have st: "fence_state (fences s2 ! i) = ANX_FENCE_RUNNING"
    using state_check_result [OF k] find_fence_bound [OF i] d(2) by (cases "fence_state (fences s2 ! i)") (auto simp: closed_def split: if_splits)
  have sink: "sink_at (effect_sink e) s2 = sink_at (effect_sink e) s"
    using state_check_sinks [OF k] f by (auto simp: sink_at_def split: option.split)
  show thesis
    using that [of i] i f d st ph sink sink_check_ok by (simp add: find_fence_def)
qed

text \<open>C6: What a run has read limits where it can send. If a cell of a fenced run reads an object of some
  sensitivity, then any effect of that run that is dispatched later, by whichever of its cells
  and after whatever operations in between, goes to a sink that is cleared for that
  sensitivity; an effect without a sink is dispatched only while the run has read nothing but
  public data. The dispatch also requires the fence to be open and never to have
  closed since the effect was prepared.\<close>

theorem no_flow_past_fence:
  assumes "anx_cell_current_id s = Some a" "find_cell a s = Some p" "effect_fence_id (cells s p) = uid" "uid \<noteq> ANX_UUID_NIL"
    and "anx_effect_fence_observe_read oid sens s = (ANX_OK, s1)" "fence_step\<^sup>*\<^sup>* s1 s2"
    and "anx_effect_fence_dispatch e s2 = (ANX_OK, e', t)" "effect_fence e = uid"
  shows "sens \<le> sink_limit (sink_at (effect_sink e) s2) \<and> e' = e\<lparr>phase := ANX_EFFECT_DISPATCHING\<rparr> \<and>
    (\<exists>i. find_fence uid t = Some i \<and> fence_state (fences t ! i) = ANX_FENCE_RUNNING \<and> epoch (fences t ! i) = effect_epoch e)"
proof -
  obtain i where i: "find_fence uid s1 = Some i" "sens \<le> read_sensitivity (fences s1 ! i)"
    using observe_read_label [OF assms(1-5)] .
  obtain j where j: "find_fence uid s2 = Some j" "epoch (fences s2 ! j) = effect_epoch e" "fence_state (fences t ! j) = ANX_FENCE_RUNNING"
    "read_sensitivity (fences t ! j) \<le> sink_limit (sink_at (effect_sink e) s2)" "e' = e\<lparr>phase := ANX_EFFECT_DISPATCHING\<rparr>"
    using dispatch_ok [OF assms(7)] assms(4,8) by metis
  note le = fence_steps_le [OF assms(6)] and le' = fence_dispatch_le [OF assms(7)]
  have ij: "j = i" using find_fence_le [OF le i(1)] j(1) by simp
  have b: "i < length (fences s1)" "i < length (fences s2)" using find_fence_bound [OF i(1)] find_fence_bound [OF j(1)] ij by auto
  have f: "fence_le (fences s1 ! i) (fences s2 ! i)" "fence_le (fences s2 ! i) (fences t ! i)"
    using le le' b by (simp_all add: fences_le_def)
  have "sens \<le> read_sensitivity (fences t ! i)" using i(2) f unfolding fence_le_def by (meson order_trans)
  moreover have "epoch (fences t ! i) = epoch (fences s2 ! i)"
    using f(2) j(3) unfolding ij fence_le_def by (auto simp: closed_def split: if_splits)
  ultimately show ?thesis using j ij find_fence_le [OF le' j(1)] by auto
qed

lemma ex_fenced_read:
  defines "v \<equiv> ex_fence\<lparr>read_sensitivity := ANX_SENSITIVITY_INTERNAL, read_origin := UUID 5 5, read_count := 1\<rparr>"
  defines "s \<equiv> anx_cell_store_release (Some 0) (set_fence 0 v (set_cell 0 (\<lambda>c. c\<lparr>refcount := refcount c + 1\<rparr>) ex_fenced))"
  shows "anx_effect_fence_observe_read (UUID 5 5) ANX_SENSITIVITY_INTERNAL ex_fenced = (ANX_OK, s)"
    "fences s = [v]" "sinks s = sinks ex_fenced" "effect_fence_id (cells s 0) = UUID 9 9" "find_cell (UUID 0 1) s = Some 0"
proof -
  have v: "ex_fence\<lparr>read_sensitivity := ANX_SENSITIVITY_INTERNAL, read_origin := UUID 5 5, read_count := read_count ex_fence + 1\<rparr> = v"
    by (simp add: v_def ex_fence_def)
  show "anx_effect_fence_observe_read (UUID 5 5) ANX_SENSITIVITY_INTERNAL ex_fenced = (ANX_OK, s)"
    using ex_fenced_find ex_fenced_current ex_fence_found
    by (simp add: anx_effect_fence_observe_read_def anx_cell_store_lookup_def Let_def ANX_UUID_NIL_def less_anx_sensitivity_def s_def v_def ex_fence_def)
  show "fences s = [v]" "sinks s = sinks ex_fenced" by (simp_all add: s_def set_fence_def)
  show "effect_fence_id (cells s 0) = UUID 9 9" by (simp add: s_def set_fence_def anx_cell_store_release_def)
  have "cid (cells s q) = cid (cells ex_fenced q)" "cell_table s = cell_table ex_fenced" for q
    by (simp_all add: s_def set_fence_def anx_cell_store_release_def set_cell_def)
  then show "find_cell (UUID 0 1) s = Some 0" using ex_fenced_find find_cell_keep [of s ex_fenced] by metis
qed

theorem no_flow_past_fence_witness:
  "\<exists>s e t. anx_effect_fence_observe_read (UUID 5 5) ANX_SENSITIVITY_INTERNAL ex_fenced = (ANX_OK, s) \<and>
     anx_effect_fence_dispatch \<lparr>effect_cell = UUID 0 1, effect_sink = Some 0, effect_object = UUID 5 5, phase = ANX_EFFECT_PREPARED, effect_fence = UUID 9 9, effect_epoch = 1\<rparr> s
       = (ANX_OK, e, t) \<and> phase e = ANX_EFFECT_DISPATCHING \<and> ANX_SENSITIVITY_INTERNAL \<le> sink_limit (sink_at (Some 0) s)"
proof -
  define e where "e = \<lparr>effect_cell = UUID 0 1, effect_sink = Some 0, effect_object = UUID 5 5, phase = ANX_EFFECT_PREPARED, effect_fence = UUID 9 9, effect_epoch = 1\<rparr>"
  obtain s where s: "anx_effect_fence_observe_read (UUID 5 5) ANX_SENSITIVITY_INTERNAL ex_fenced = (ANX_OK, s)"
    "fences s = [ex_fence\<lparr>read_sensitivity := ANX_SENSITIVITY_INTERNAL, read_origin := UUID 5 5, read_count := 1\<rparr>]"
    "sinks s = sinks ex_fenced" "effect_fence_id (cells s 0) = UUID 9 9" "find_cell (UUID 0 1) s = Some 0"
    using ex_fenced_read by blast
  have found: "find_fence (UUID 9 9) (set_cell p f s) = Some 0" for p f using s(2) by (simp add: find_fence_def ex_fence_def)
  have d: "anx_effect_fence_dispatch e s = (ANX_OK, e\<lparr>phase := ANX_EFFECT_DISPATCHING\<rparr>, snd (snd (anx_effect_fence_dispatch e s)))"
    using s(2-5) found by (simp add: e_def anx_effect_fence_dispatch_def anx_cell_store_lookup_def state_check_def sink_check_def sink_at_def
      Let_def ANX_UUID_NIL_def ex_fence_def closed_def less_eq_anx_sensitivity_def less_anx_sensitivity_def)
  have "effect_fence_id (cells ex_fenced 0) = UUID 9 9" "UUID 9 9 \<noteq> ANX_UUID_NIL" "effect_fence e = UUID 9 9"
    by (simp_all add: ANX_UUID_NIL_def e_def)
  note flow = no_flow_past_fence [OF ex_fenced_current ex_fenced_find this(1,2) s(1) rtranclp.rtrancl_refl d this(3)]
  have "effect_sink e = Some 0" by (simp add: e_def)
  then show ?thesis unfolding e_def [symmetric]
    by (intro exI [of _ s] exI [of _ "e\<lparr>phase := ANX_EFFECT_DISPATCHING\<rparr>"] exI conjI) (rule s(1), rule d, simp, use flow in simp)
qed

end
