(* ===== verification/Spec2Isabelle.thy ===== *)
theory Spec2Isabelle
  imports Prelude PageAlloc Codec Blk Md Raid MockBlk Uuid DList Hash Cipher Cells Fence
begin

text \<open>
  A verification development for the Anunix kernel. It models, function by function, the parts of
  \<^verbatim>\<open>kernel/lib\<close> everything else is built on, the storage stack from the block registry to software
  RAID, and the execution cells with their effect fences, and proves what makes each of them
  correct. A definition that translates a C function or type has its name.

  \<^bold>\<open>The parts and how they interact.\<close> Drivers register drives with the block registry
  (\<^verbatim>\<open>drivers/storage/blk.c\<close>); the partition layer (\<^verbatim>\<open>part.c\<close>) registers one more device per table
  entry and forwards requests to the parent; the RAID layer (\<^verbatim>\<open>core/md\<close>) claims registered
  devices as members, keeps a superblock on each and registers the array as a device again. The
  cell store (\<^verbatim>\<open>core/exec/cell_store.c\<close>) keeps execution cells in the hash table of
  \<^verbatim>\<open>lib/hashtable.c\<close> under identifiers of \<^verbatim>\<open>lib/uuid.c\<close>; cells have a status machine, a dependency
  graph and a delegated scope (\<^verbatim>\<open>cell.c\<close>, \<^verbatim>\<open>runtime.c\<close>) and sit in run queues
  (\<^verbatim>\<open>core/sched/scheduler.c\<close>); an effect fence (\<^verbatim>\<open>core/cap/effect_fence.c\<close>) is shared by the cells of one
  run and decides whether an effect may leave through a sink (\<^verbatim>\<open>core/cap/sink.c\<close>).

  \<^bold>\<open>The theories.\<close>

  \<^item> \<open>Prelude\<close>: fixed-width integers, return codes, shared facts on words and lists.

  \<^item> \<open>PageAlloc\<close> (\<^verbatim>\<open>lib/page.c\<close>): state \<open>page_st\<close>; the two searches find a run of free
    pages exactly when there is one, allocation takes exactly such a run, freeing restores the
    state, the free counter is exact in every reachable state, a double free panics.

  \<^item> \<open>Codec\<close> (\<^verbatim>\<open>lib/base64.c\<close>, \<^verbatim>\<open>lib/crc32.c\<close>, \<^verbatim>\<open>lib/utf8.c\<close>): base64 round trip, the
    table-driven CRC against the bit-serial one of the standard and its detection of bursts, UTF-8
    decoding against the encoding.

  \<^item> \<open>Blk\<close> (\<^verbatim>\<open>drivers/storage/blk.c\<close>, \<^verbatim>\<open>part.c\<close>): state \<open>blk_state\<close>, the invariant \<open>blk_wf\<close> over
    the reachable states \<open>blk_reach\<close>: unique names, containment of partition requests,
    what a scan registers, and the exact effect of unregistering a device.

  \<^item> \<open>Md\<close> (\<^verbatim>\<open>core/md/md.c\<close>, \<^verbatim>\<open>md_raid0.c\<close>, \<^verbatim>\<open>md_raid1.c\<close>, \<^verbatim>\<open>md_super.c\<close>): state \<open>storage\<close>, which
    extends \<open>blk_state\<close>; superblock round trip, and what assembly makes of a list of superblocks.

  \<^item> \<open>Raid\<close>: the contracts \<open>block_dev\<close> (one device) and \<open>block_devs\<close> (a set of drives whose
    requests may fail), and the proof that a striped or mirrored array over drives that meet
    the second meets the first, by a \<^theory_text>\<open>sublocale\<close>.

  \<^item> \<open>MockBlk\<close> (\<^verbatim>\<open>tests/harness/mock_arch.c\<close>): the RAM-backed drives the repository itself tests RAID
    on; they interpret \<open>block_devs\<close>. The properties of the RAID levels are stated here:
    read after write, survival of failing members, termination and soundness of a rebuild, and the
    stale second spare.

  \<^item> \<open>Uuid\<close> (\<^verbatim>\<open>lib/uuid.c\<close>): version 7 identifiers over a stream of clock readings.

  \<^item> \<open>DList\<close> (\<^verbatim>\<open>include/anx/list.h\<close>, \<^verbatim>\<open>lib/hashtable.c\<close>): rings and chains at the level of pointers,
    refined to lists; the locale \<open>hash_index\<close> is what a store may rely on.

  \<^item> \<open>Hash\<close> (\<^verbatim>\<open>lib/crypto/sha1.c\<close>, \<^verbatim>\<open>sha256.c\<close>, \<^verbatim>\<open>sha512.c\<close>): streaming equals the digest of the padded
    message (locale \<open>md_stream\<close>, interpreted three times), HMAC, PBKDF2 and the 802.11 PRF
    against their definitions. The PRF is modelled with its 512-byte buffer; a write behind it is \<open>None\<close>.

  \<^item> \<open>Cipher\<close> (\<^verbatim>\<open>lib/crypto/chacha20.c\<close>, \<^verbatim>\<open>poly1305.c\<close>): the limb arithmetic of Poly1305 against the
    polynomial modulo \<open>2 ^ 130 - 5\<close>, the keystream of ChaCha20.

  \<^item> \<open>Cells\<close> (\<^verbatim>\<open>core/exec/cell_store.c\<close>, \<^verbatim>\<open>cell.c\<close>, parts of \<^verbatim>\<open>runtime.c\<close> and \<^verbatim>\<open>core/sched/scheduler.c\<close>): state
    \<open>cell_env\<close>, which extends \<open>kenv\<close> of \<open>Uuid\<close>; the store invariant \<open>cells_ok\<close>, the order of the
    status pipeline, the exactness of the cycle check, attenuation of authority, and the
    exact effect of destroying a cell.

  \<^item> \<open>Fence\<close> (\<^verbatim>\<open>core/cap/effect_fence.c\<close>, \<^verbatim>\<open>core/cap/sink.c\<close>): state \<open>fence_env\<close>, which extends
    \<open>cell_env\<close>; steps \<open>fence_step\<close>; a fence only becomes stricter, and what a run has read
    bounds where it can send.

  \<^bold>\<open>Conventions.\<close> Pointers are indices, addresses or \<open>None\<close>; a static table is a list or a field of
  the state record; a C enumeration is a datatype; return codes are integers; a failed
  assertion, a NULL dereference or a write behind a buffer is the result \<open>None\<close>. Words keep
  their width and wrap. Code outside the model is an argument: the operation tables of
  drivers (with the contract \<open>block_devs\<close>), the reader of partition tables, the clock, the
  outcomes of allocations, and the SHA-2 round constants \<open>K\<close>, on which no theorem
  depends. Locks are not modelled; the runtime is single-threaded.

  \<^bold>\<open>Bounds and fuel.\<close> The rebuild loop of RAID1 has fuel; \<open>raid1_rebuild_completes\<close> shows that one more
  pass than the member has sectors is enough, since every pass copies at least one. The walk of the
  dependency graph is a partial function; \<open>dependency_check_exact\<close> shows that it returns, with the right
  answer, on an acyclic graph of at most 64 edges, the capacity of the stack in the source. All
  other loops are total functions.

  \<^bold>\<open>Not modelled.\<close> Hardware I/O (controllers, network, display, audio, boot and architecture
  code), floating-point models and their training, text interfaces and applications have no
  behaviour a shallow model would capture faithfully. The object store with its metadata, access,
  provenance, namespace and disk format, the identity and capability registries, workflows,
  routing, scheduling domains and the remaining cryptography (AES, the curves, the random source) are
  outside this development; where a modelled function calls them it is left out as well, as are
  \<open>anx_effect_prepare\<close>, \<open>anx_sink_check_send\<close> and the execution of cells.
\<close>

end
